(* ===== verification/Xn_Prelude.thy ===== *)
theory Xn_Prelude
  imports Main "HOL-Library.Word" "HOL-Library.Monad_Syntax"
begin

text \<open>
  Shared vocabulary of the development: the machine integer types of the C sources,
  byte-wise reads of a packet buffer with out-of-range reads as \<open>None\<close>, the
  little-endian loads \<open>le64toh(*(uint64_t * )p)\<close>, the decimal printing of \<open>%u\<close>, and
  generic facts on lists and words that several components use.
\<close>

unbundle bit_operations_syntax

section \<open>Machine integers\<close>

type_synonym u8 = "8 word"
type_synonym u16 = "16 word"
type_synonym u32 = "32 word"
type_synonym u64 = "64 word"

named_theorems c_loads "reads of memory and their side conditions"
named_theorems slot_facts "facts on the slots of the forwarding tables"

text \<open>The error numbers of \<open>errno.h\<close> that the code returns.\<close>

definition ENOENT :: int where "ENOENT = 2"
definition EINVAL :: int where "EINVAL = 22"

section \<open>Reads of a buffer\<close>

text \<open>
  A pointer into a buffer is the list of the bytes from it to the end of the buffer, so
  \<open>p + k\<close> is \<open>drop k p\<close>. A read past the end is \<open>None\<close>: the C has undefined behaviour
  there and the model claims nothing about what follows.
\<close>

definition rd8 :: "u8 list \<Rightarrow> nat \<Rightarrow> u8 option" where
  "rd8 p i = (if i < length p then Some (p ! i) else None)"

fun le_word :: "u8 list \<Rightarrow> u64" where
  "le_word [] = 0"
| "le_word (b # bs) = ucast b OR push_bit 8 (le_word bs)"

definition le64 :: "u8 list \<Rightarrow> u64 option" where
  "le64 p = (if 8 \<le> length p then Some (le_word (take 8 p)) else None)"

definition word_byte :: "u64 \<Rightarrow> nat \<Rightarrow> u8" where
  "word_byte w k = ucast (drop_bit (8 * k) w)"

lemma rd8_Some [c_loads]: "i < length p \<Longrightarrow> rd8 p i = Some (p ! i)"
  by (simp add: rd8_def)

lemma rd8_0 [c_loads]: "p \<noteq> [] \<Longrightarrow> rd8 p 0 = Some (p ! 0)"
  by (simp add: rd8_def)

lemma rd8_None [c_loads]: "length p \<le> i \<Longrightarrow> rd8 p i = None"
  by (simp add: rd8_def)

lemma rd8_take [c_loads]: "i < n \<Longrightarrow> rd8 (take n p) i = rd8 p i"
  by (simp add: rd8_def)

lemma bit_le_word:
  "bit (le_word bs) n \<longleftrightarrow> n < 64 \<and> n div 8 < length bs \<and> bit (bs ! (n div 8)) (n mod 8)"
proof (induction bs arbitrary: n)
  case Nil
  then show ?case by simp
next
  case (Cons b bs)
  show ?case
  proof (cases "n < 8")
    case True
    then show ?thesis by (simp add: bit_or_iff bit_push_bit_iff bit_ucast_iff)
  next
    case False
    then obtain m where m: "n = m + 8" by (metis add.commute le_add_diff_inverse not_less)
    have "\<not> bit b n" using False by (auto dest: bit_imp_le_length)
    moreover have "n div 8 = Suc (m div 8)" "n mod 8 = m mod 8" using m by simp_all
    ultimately show ?thesis
      using Cons.IH [of m] m False
      by (auto simp: bit_or_iff bit_push_bit_iff bit_ucast_iff)
  qed
qed

lemma word_byte_le_word:
  "k < 8 \<Longrightarrow> k < length bs \<Longrightarrow> word_byte (le_word bs) k = bs ! k"
  by (rule bit_word_eqI)
    (auto simp: word_byte_def bit_ucast_iff bit_drop_bit_eq bit_le_word)

lemma le_word_inject:
  assumes "le_word xs = le_word ys" "length xs = length ys" "length ys \<le> 8"
  shows "xs = ys"
proof (rule nth_equalityI)
  show "length xs = length ys" by fact
  fix i assume "i < length xs"
  then show "xs ! i = ys ! i"
    using assms word_byte_le_word [of i xs] word_byte_le_word [of i ys] by simp
qed

text \<open>The two ways in which the code extracts a 48-bit address from an 8-byte load.\<close>

lemma bit_mask48: "bit (0xffffffffffff :: u64) n \<longleftrightarrow> n < 48"
proof -
  have "(0xffffffffffff :: u64) = mask 48" by (simp add: mask_eq_exp_minus_1)
  then have "bit (0xffffffffffff :: u64) n \<longleftrightarrow> bit (mask 48 :: u64) n" by (simp only:)
  then show ?thesis by (auto simp only: bit_mask_iff) auto
qed

lemma le_word_mask48:
  "6 \<le> length p \<Longrightarrow> le_word p AND 0xffffffffffff = le_word (take 6 p)"
proof (rule bit_word_eqI)
  fix n assume "6 \<le> length p" "n < LENGTH(64)"
  moreover have "n < 48 \<longleftrightarrow> n div 8 < 6" by (auto simp: div_less_iff_less_mult)
  ultimately show "bit (le_word p AND 0xffffffffffff) n = bit (le_word (take 6 p)) n"
    by (auto simp only: bit_and_iff bit_mask48 bit_le_word length_take nth_take)
qed

lemma le_word_shift16:
  assumes "length p = 8"
  shows "drop_bit 16 (le_word p) = le_word (take 6 (drop 2 p))"
proof (rule bit_word_eqI)
  fix n assume "n < LENGTH(64)"
  have "(n + 16) div 8 = n div 8 + 2" by simp
  moreover have "(n + 16) mod 8 = n mod 8"
    using mod_mult_self1 [of n 2 8] by simp
  moreover have "n div 8 + 2 < 8 \<longleftrightarrow> n div 8 < 6" by linarith
  ultimately show "bit (drop_bit 16 (le_word p)) n = bit (le_word (take 6 (drop 2 p))) n"
    using assms
    by (auto simp: bit_drop_bit_eq bit_le_word add.commute)
qed

section \<open>Arrays\<close>

text \<open>An index past the end of a C array is a fault, for a read and for a write.\<close>

definition arr_get :: "'a list \<Rightarrow> nat \<Rightarrow> 'a option" where
  "arr_get xs i = (if i < length xs then Some (xs ! i) else None)"

definition arr_set :: "'a list \<Rightarrow> nat \<Rightarrow> 'a \<Rightarrow> 'a list option" where
  "arr_set xs i x = (if i < length xs then Some (xs[i := x]) else None)"

lemma arr_get_Some [c_loads]: "i < length xs \<Longrightarrow> arr_get xs i = Some (xs ! i)"
  by (simp add: arr_get_def)

lemma arr_get_None [c_loads]: "length xs \<le> i \<Longrightarrow> arr_get xs i = None"
  by (simp add: arr_get_def)

lemma arr_set_Some [c_loads]: "i < length xs \<Longrightarrow> arr_set xs i x = Some (xs[i := x])"
  by (simp add: arr_set_def)

lemma arr_set_None [c_loads]: "length xs \<le> i \<Longrightarrow> arr_set xs i x = None"
  by (simp add: arr_set_def)

lemma arr_get_conv: "arr_get xs i = Some x \<longleftrightarrow> i < length xs \<and> xs ! i = x"
  by (simp add: arr_get_def)

lemma arr_set_conv: "arr_set xs i x = Some ys \<longleftrightarrow> i < length xs \<and> ys = xs[i := x]"
  by (auto simp: arr_set_def)

section \<open>Decimal printing\<close>

text \<open>The conversion \<open>%u\<close> of \<open>snprintf\<close>.\<close>

definition digit_char :: "nat \<Rightarrow> char" where
  "digit_char d = char_of (48 + d)"

fun dec_nat :: "nat \<Rightarrow> string" where
  "dec_nat n = (if n < 10 then [digit_char n] else dec_nat (n div 10) @ [digit_char (n mod 10)])"

declare dec_nat.simps [simp del]

definition fmt_u :: "u32 \<Rightarrow> string" where
  "fmt_u w = dec_nat (unat w)"

definition undec :: "string \<Rightarrow> nat" where
  "undec s = foldl (\<lambda>a c. 10 * a + (of_char c - 48)) 0 s"

text \<open>The digits at the front of a string, which is what \<open>%d\<close> and \<open>atoi\<close> read.\<close>

definition is_digit :: "char \<Rightarrow> bool" where
  "is_digit c \<longleftrightarrow> 48 \<le> (of_char c :: nat) \<and> of_char c \<le> (57 :: nat)"

definition digits_of :: "string \<Rightarrow> string" where
  "digits_of s = takeWhile is_digit s"

definition is_blank :: "char \<Rightarrow> bool" where
  "is_blank c = (of_char c = (32 :: nat) \<or> 9 \<le> (of_char c :: nat) \<and> of_char c \<le> (13 :: nat))"

text \<open>\<open>snprintf(buf, n, s)\<close> keeps at most \<open>n - 1\<close> characters.\<close>

definition snprintf :: "nat \<Rightarrow> string \<Rightarrow> string" where
  "snprintf n s = take (n - 1) s"

lemma of_digit_char: "d < 10 \<Longrightarrow> of_char (digit_char d) = (48 + d :: nat)"
  by (simp add: digit_char_def)

lemma digit_char_0 [simp]: "digit_char 0 = CHR ''0''"
  by code_simp

lemma undec_dec_nat: "undec (dec_nat n) = n"
proof (induction n rule: dec_nat.induct)
  case (1 n)
  show ?case
  proof (cases "n < 10")
    case True
    then show ?thesis by (simp add: dec_nat.simps [of n] undec_def of_digit_char)
  next
    case False
    have "undec (dec_nat n) = 10 * undec (dec_nat (n div 10)) + n mod 10"
      using False by (simp add: dec_nat.simps [of n] undec_def of_digit_char)
    then show ?thesis using 1 False by simp
  qed
qed

lemma is_digit_char: "d < 10 \<Longrightarrow> is_digit (digit_char d)"
  by (simp add: is_digit_def of_digit_char)

lemma dec_nat_digits: "\<forall>c \<in> set (dec_nat n). is_digit c"
proof (induction n rule: dec_nat.induct)
  case (1 n)
  then show ?case by (cases "n < 10") (auto simp: dec_nat.simps [of n] is_digit_char)
qed

lemma is_digit_no_blank: "is_digit c \<Longrightarrow> \<not> is_blank c \<and> c \<noteq> CHR ''-'' \<and> c \<noteq> CHR ''+''"
  by (auto simp: is_digit_def is_blank_def)

lemma digits_of_dec_nat: "digits_of (dec_nat n) = dec_nat n"
  using dec_nat_digits [of n] by (simp add: digits_of_def takeWhile_eq_all_conv)

lemma dec_nat_not_Nil [simp]: "dec_nat n \<noteq> []"
  by (simp add: dec_nat.simps [of n])

lemma dec_nat_inject [simp]: "dec_nat m = dec_nat n \<longleftrightarrow> m = n"
  by (metis undec_dec_nat)

lemma length_dec_nat: "n < 10 ^ k \<Longrightarrow> 0 < k \<Longrightarrow> length (dec_nat n) \<le> k"
proof (induction k arbitrary: n)
  case 0
  then show ?case by simp
next
  case (Suc k)
  show ?case
  proof (cases "n < 10")
    case True
    then show ?thesis by (simp add: dec_nat.simps [of n])
  next
    case False
    then have "0 < k" using Suc.prems by (cases k) auto
    moreover have "n div 10 < 10 ^ k" using Suc.prems by (simp add: div_less_iff_less_mult)
    ultimately have "length (dec_nat (n div 10)) \<le> k" using Suc.IH by blast
    with False show ?thesis by (simp add: dec_nat.simps [of n])
  qed
qed

lemma length_fmt_u: "length (fmt_u w) \<le> 10"
proof -
  have "unat w < 2 ^ 32" using unsigned_less [of w] by simp
  then show ?thesis unfolding fmt_u_def by (intro length_dec_nat) auto
qed

lemma fmt_u_inject [simp]: "fmt_u v = fmt_u w \<longleftrightarrow> v = w"
  by (simp add: fmt_u_def word_unat_eq_iff)

section \<open>Words and lists\<close>

lemma unat_ucast_le: "unat (ucast (x :: 'a::len word) :: 'b::len word) \<le> unat x"
  by (simp add: unsigned_ucast_eq take_bit_eq_mod)

lemma unat_and_mask_less: "unat (x AND mask n :: u32) < 2 ^ n"
proof -
  have "unat (x AND mask n) = take_bit n (unat x)"
    by (simp add: unsigned_take_bit_eq flip: take_bit_eq_mask)
  then show ?thesis by simp
qed

lemma octet_pair_eq:
  assumes "a < 256" "b < (256 :: nat)"
  shows "c * 256 + a = d * 256 + b \<longleftrightarrow> a = b \<and> c = d"
proof
  assume eq: "c * 256 + a = d * 256 + b"
  then have "(a + c * 256) mod 256 = (b + d * 256) mod 256" by (simp only: add.commute)
  then have "a = b" using assms by (simp only: mod_mult_self1 mod_less)
  then show "a = b \<and> c = d" using eq by simp
qed simp

lemma unat_u8_less: "unat (b :: u8) < 256"
  using unsigned_less [of b] by simp

lemma unat_ucast_u8 [simp]: "unat (ucast (b :: u8) :: u32) = unat b"
  using unat_u8_less [of b] by (simp add: unsigned_ucast_eq take_bit_nat_eq_self)

lemma ucast_u64_u32 [simp]: "ucast (ucast (w :: u32) :: u64) = w"
  by (rule bit_word_eqI) (simp add: bit_ucast_iff)

lemma unat_plus_1: "unat i + 1 < 2 ^ 32 \<Longrightarrow> unat (i + 1 :: u32) = unat i + 1"
  using unat_add_lem [of i "1::u32"] by simp

lemma unat_u32_less: "unat (w :: u32) < 4294967296"
  using unsigned_less [of w] by simp

lemma unat_of_nat_le: "n \<le> unat (l :: u32) \<Longrightarrow> unat (of_nat n :: u32) = n"
  using unat_u32_less [of l] by (simp add: unat_of_nat)

lemma list_update_frame [slot_facts]:
  "i < length xs \<Longrightarrow> (xs[i := x]) ! j = (if j = i then x else xs ! j)"
  by (simp add: nth_list_update)

text \<open>
  Running a partial operation over a list of arguments, stopping at the first fault.
\<close>

fun run_all :: "('s \<Rightarrow> 'a \<Rightarrow> 's option) \<Rightarrow> 's \<Rightarrow> 'a list \<Rightarrow> 's option" where
  "run_all f s [] = Some s"
| "run_all f s (a # as) = (case f s a of None \<Rightarrow> None | Some s' \<Rightarrow> run_all f s' as)"

lemma run_all_append:
  "run_all f s (xs @ ys) = (case run_all f s xs of None \<Rightarrow> None | Some t \<Rightarrow> run_all f t ys)"
  by (induction xs arbitrary: s) (auto split: option.splits)

lemma run_all_invariant:
  assumes step: "\<And>s a s'. P s \<Longrightarrow> f s a = Some s' \<Longrightarrow> P s'"
    and "P s" "run_all f s as = Some s'"
  shows "P s'"
  using assms(2,3)
proof (induction as arbitrary: s)
  case Nil
  then show ?case by simp
next
  case (Cons a as)
  then show ?case by (auto split: option.splits dest: step)
qed

lemma find_SomeD: "find P xs = Some x \<Longrightarrow> x \<in> set xs \<and> P x"
  by (induction xs) (auto split: if_splits)

text \<open>The first index from \<open>i\<close> on whose element satisfies a predicate.\<close>

definition next_used :: "(nat \<Rightarrow> bool) \<Rightarrow> nat \<Rightarrow> nat \<Rightarrow> nat option" where
  "next_used used n i = find used [i..<n]"

lemma next_used_end: "n \<le> i \<Longrightarrow> next_used used n i = None"
  by (simp add: next_used_def)

lemma next_used_step:
  "i < n \<Longrightarrow> next_used used n i = (if used i then Some i else next_used used n (Suc i))"
  by (simp add: next_used_def upt_conv_Cons)

lemma next_used_SomeD: "next_used used n i = Some j \<Longrightarrow> i \<le> j \<and> j < n \<and> used j"
  unfolding next_used_def by (drule find_SomeD) simp

lemma filter_next_used:
  "filter used [i..<n] =
     (case next_used used n i of None \<Rightarrow> [] | Some j \<Rightarrow> j # filter used [Suc j..<n])"
proof (induction "n - i" arbitrary: i)
  case 0
  then show ?case by (simp add: next_used_end)
next
  case (Suc k)
  then have "i < n" "k = n - Suc i" by simp_all
  then show ?case
    using Suc.hyps(1) [of "Suc i"] by (simp add: next_used_step upt_conv_Cons)
qed

text \<open>The last element of a list that satisfies a predicate.\<close>

definition find_last :: "('a \<Rightarrow> bool) \<Rightarrow> 'a list \<Rightarrow> 'a option" where
  "find_last P xs = find P (rev xs)"

lemma find_append:
  "find P (xs @ ys) = (case find P xs of None \<Rightarrow> find P ys | Some x \<Rightarrow> Some x)"
  by (induction xs) auto


lemma find_last_SomeD: "find_last P xs = Some x \<Longrightarrow> x \<in> set xs \<and> P x"
  unfolding find_last_def by (drule find_SomeD) simp

lemma find_last_snoc: "find_last P (xs @ [x]) = (if P x then Some x else find_last P xs)"
  by (simp add: find_last_def)

lemma find_last_Nil [simp]: "find_last P [] = None"
  by (simp add: find_last_def)

lemma find_last_Cons:
  "find_last P (x # xs) =
     (case find_last P xs of None \<Rightarrow> (if P x then Some x else None) | Some y \<Rightarrow> Some y)"
  by (cases "find P (rev xs)") (simp_all add: find_last_def find_append)

section \<open>Writing a piece of an array\<close>

text \<open>Writing a list into an array from a place on.\<close>

definition overwrite :: "'a list \<Rightarrow> nat \<Rightarrow> 'a list \<Rightarrow> 'a list" where
  "overwrite xs k ys = take k xs @ ys @ drop (k + length ys) xs"

lemma overwrite_Nil [simp]: "k \<le> length xs \<Longrightarrow> overwrite xs k [] = xs"
  by (simp add: overwrite_def)

lemma overwrite_Cons:
  assumes "k < length xs"
  shows "overwrite (xs[k := y]) (Suc k) ys = overwrite xs k (y # ys)"
proof -
  have "take (Suc k) (xs[k := y]) = take k xs @ [y]"
    using assms by (simp add: take_Suc_conv_app_nth)
  then show ?thesis by (simp add: overwrite_def)
qed

lemma length_overwrite: "k + length ys \<le> length xs \<Longrightarrow> length (overwrite xs k ys) = length xs"
  by (simp add: overwrite_def)

lemma take_overwrite_0: "take (length ys) (overwrite xs 0 ys) = ys"
  by (simp add: overwrite_def)

end
