(* ===== verification/Hashes.thy ===== *)
theory Hashes
  imports Xn_Prelude
begin

text \<open>
  The hash functions of the bridge lookup modules: the Jenkins \<open>mix\<close> and
  \<open>nm_bridge_rthash\<close> of \<open>bdgfn/include/bdgfn_kern.h\<close>, \<open>iphash2\<close> and \<open>iphash\<close> of
  \<open>bdgfn/ip-static.c\<close>, and the candidates that \<open>bdgfn/hashtest.c\<close> compares. The
  argument of a hash is the memory from its pointer on, so a hash of a short buffer is
  \<open>None\<close>. The lemmas bound every hash by its table, invert \<open>mix\<close>, and say when two
  addresses collide.
\<close>

section \<open>The mixing step\<close>

text \<open>
  Each line of the macro updates one of the three variables:
  \<open>a -= b; a -= c; a ^= (c >> k)\<close>, \<open>b -= c; b -= a; b ^= (a << k)\<close> and
  \<open>c -= a; c -= b; c ^= (b >> k)\<close>.
\<close>

fun mix_a :: "nat \<Rightarrow> u32 \<times> u32 \<times> u32 \<Rightarrow> u32 \<times> u32 \<times> u32" where
  "mix_a k (a, b, c) = ((a - b - c) XOR drop_bit k c, b, c)"

fun mix_b :: "nat \<Rightarrow> u32 \<times> u32 \<times> u32 \<Rightarrow> u32 \<times> u32 \<times> u32" where
  "mix_b k (a, b, c) = (a, (b - c - a) XOR push_bit k a, c)"

fun mix_c :: "nat \<Rightarrow> u32 \<times> u32 \<times> u32 \<Rightarrow> u32 \<times> u32 \<times> u32" where
  "mix_c k (a, b, c) = (a, b, (c - a - b) XOR drop_bit k b)"

definition mix :: "u32 \<times> u32 \<times> u32 \<Rightarrow> u32 \<times> u32 \<times> u32" where
  "mix s = mix_c 15 (mix_b 10 (mix_a 3
             (mix_c 5 (mix_b 16 (mix_a 12
               (mix_c 13 (mix_b 8 (mix_a 13 s))))))))"

text \<open>The inverse of each line, used to show that mixing loses nothing.\<close>

fun unmix_a :: "nat \<Rightarrow> u32 \<times> u32 \<times> u32 \<Rightarrow> u32 \<times> u32 \<times> u32" where
  "unmix_a k (a, b, c) = ((a XOR drop_bit k c) + c + b, b, c)"

fun unmix_b :: "nat \<Rightarrow> u32 \<times> u32 \<times> u32 \<Rightarrow> u32 \<times> u32 \<times> u32" where
  "unmix_b k (a, b, c) = (a, (b XOR push_bit k a) + a + c, c)"

fun unmix_c :: "nat \<Rightarrow> u32 \<times> u32 \<times> u32 \<Rightarrow> u32 \<times> u32 \<times> u32" where
  "unmix_c k (a, b, c) = (a, b, (c XOR drop_bit k b) + b + a)"

definition unmix :: "u32 \<times> u32 \<times> u32 \<Rightarrow> u32 \<times> u32 \<times> u32" where
  "unmix s = unmix_a 13 (unmix_b 8 (unmix_c 13
               (unmix_a 12 (unmix_b 16 (unmix_c 5
                 (unmix_a 3 (unmix_b 10 (unmix_c 15 s))))))))"

lemma xor_cancel [simp]: "(x XOR y) XOR y = (x :: u32)"
  by (simp add: xor.assoc)

lemma unmix_mix_line [simp]:
  "unmix_a k (mix_a k s) = s" "unmix_b k (mix_b k s) = s" "unmix_c k (mix_c k s) = s"
  by (cases s, simp)+

lemma mix_unmix_line [simp]:
  "mix_a k (unmix_a k s) = s" "mix_b k (unmix_b k s) = s" "mix_c k (unmix_c k s) = s"
  by (cases s, simp)+

lemma unmix_mix: "unmix (mix s) = s"
  by (simp add: mix_def unmix_def)

lemma mix_unmix: "mix (unmix s) = s"
  by (simp add: mix_def unmix_def)

text \<open>The mixing step of the bridge hash is a permutation of its three words.\<close>

lemma mix_bij: "bij mix"
  by (rule bijI') (metis unmix_mix, metis mix_unmix)

section \<open>The bridge hash of an Ethernet address\<close>

definition hash_seed :: u32 where
  "hash_seed = 0x9e3779b9"

text \<open>The state of the three words before \<open>mix\<close>, from the six octets of the address.\<close>

definition rthash_init :: "u8 list \<Rightarrow> (u32 \<times> u32 \<times> u32) option" where
  "rthash_init addr = do {
     a5 \<leftarrow> rd8 addr 5;
     a4 \<leftarrow> rd8 addr 4;
     a3 \<leftarrow> rd8 addr 3;
     a2 \<leftarrow> rd8 addr 2;
     a1 \<leftarrow> rd8 addr 1;
     a0 \<leftarrow> rd8 addr 0;
     let b = hash_seed + push_bit 8 (ucast a5);
     let b = b + ucast a4;
     let a = hash_seed + push_bit 24 (ucast a3);
     let a = a + push_bit 16 (ucast a2);
     let a = a + push_bit 8 (ucast a1);
     let a = a + ucast a0;
     Some (a, b, 0)
   }"

definition NM_BDG_HASH :: nat where
  "NM_BDG_HASH = 1024"

definition nm_bridge_rthash :: "u8 list \<Rightarrow> u32 option" where
  "nm_bridge_rthash addr = do {
     s \<leftarrow> rthash_init addr;
     let (a, b, c) = mix s;
     Some (c AND 1023)
   }"

definition mac_rthash :: "u8 list \<Rightarrow> u32 option" where
  "mac_rthash addr = do {
     s \<leftarrow> rthash_init addr;
     let (a, b, c) = mix s;
     Some (c AND 65535)
   }"

lemma rthash_init_Some: "6 \<le> length addr \<Longrightarrow> \<exists>s. rthash_init addr = Some s"
  by (auto simp: rthash_init_def rd8_def Let_def)

lemma rthash_init_None: "length addr < 6 \<Longrightarrow> rthash_init addr = None"
  by (simp add: rthash_init_def rd8_None)

lemma rthash_init_take: "rthash_init (take 6 addr) = rthash_init addr"
  by (simp add: rthash_init_def rd8_take)

lemma and_1023: "x AND 1023 = (x AND mask 10 :: u32)"
  by (simp add: mask_eq_exp_minus_1)

lemma and_65535: "x AND 65535 = (x AND mask 16 :: u32)"
  by (simp add: mask_eq_exp_minus_1)

lemma nm_bridge_rthash_Some:
  assumes "6 \<le> length addr"
  obtains h where "nm_bridge_rthash addr = Some h" "unat h < NM_BDG_HASH"
proof -
  obtain a b c where s: "rthash_init addr = Some (a, b, c)"
    using rthash_init_Some [OF assms] by (metis prod_cases3)
  obtain a' b' c' where m: "mix (a, b, c) = (a', b', c')" by (metis prod_cases3)
  have "unat (c' AND 1023) < NM_BDG_HASH"
    using unat_and_mask_less [of c' 10] by (simp add: NM_BDG_HASH_def and_1023)
  then show thesis using that s m by (simp add: nm_bridge_rthash_def)
qed

lemma nm_bridge_rthash_bound:
  "nm_bridge_rthash addr = Some h \<Longrightarrow> unat h < NM_BDG_HASH"
  by (cases "6 \<le> length addr")
     (metis nm_bridge_rthash_Some option.inject,
      simp add: nm_bridge_rthash_def rthash_init_None)

lemma nm_bridge_rthash_take: "nm_bridge_rthash (take 6 addr) = nm_bridge_rthash addr"
  by (simp add: nm_bridge_rthash_def rthash_init_take)

lemma nm_bridge_rthash_None: "nm_bridge_rthash addr = None \<longleftrightarrow> length addr < 6"
  by (cases "6 \<le> length addr")
     (metis nm_bridge_rthash_Some not_less option.distinct(1),
      simp add: nm_bridge_rthash_def rthash_init_None)

text \<open>The 1024-entry bridge hash is the 65536-entry hash of hashtest.c, reduced.\<close>
lemma nm_bridge_rthash_mac_rthash:
  "nm_bridge_rthash addr = map_option (\<lambda>h. h AND 1023) (mac_rthash addr)"
proof -
  have "(c AND 65535) AND 1023 = (c AND 1023 :: u32)" for c
    by (simp add: and.assoc)
  then show ?thesis
    by (auto simp: nm_bridge_rthash_def mac_rthash_def Let_def bind_eq_Some_conv
        split: Option.bind_splits prod.splits)
qed

section \<open>The hashes of an IPv4 or IPv6 address\<close>

text \<open>\<open>ip-static.c\<close> redefines the table size to 65536 before these are compiled.\<close>

definition IP_BDG_HASH :: nat where
  "IP_BDG_HASH = 65536"

definition iphash2 :: "u8 list \<Rightarrow> u32 option" where
  "iphash2 addr = do {
     a3 \<leftarrow> rd8 addr 3;
     a2 \<leftarrow> rd8 addr 2;
     let c = push_bit 8 (ucast a3) OR ucast a2;
     Some (c AND 65535)
   }"

definition iphash :: "u8 list \<Rightarrow> u32 option" where
  "iphash addr = do {
     a3 \<leftarrow> rd8 addr 3;
     a2 \<leftarrow> rd8 addr 2;
     a1 \<leftarrow> rd8 addr 1;
     a0 \<leftarrow> rd8 addr 0;
     let c = ucast a3 + ucast a2 + ucast a1 + ucast a0;
     Some (c AND 65535)
   }"

lemma unat_octet_pair:
  "unat (push_bit 8 (ucast (x :: u8)) OR ucast (y :: u8) :: u32) = unat x * 256 + unat y"
proof -
  have lt: "unat x < 256" "unat y < 256"
    using unsigned_less [of x] unsigned_less [of y] by simp_all
  have "push_bit 8 (unat x) AND unat y = 0"
    by (rule bit_eqI) (auto simp: bit_simps dest: bit_imp_le_length)
  then have or_eq: "push_bit 8 (unat x) OR unat y = unat x * 256 + unat y"
    by (simp add: disjunctive_add_eq_or [symmetric] push_bit_eq_mult)
  have "unat (push_bit 8 (ucast x) :: u32) = push_bit 8 (unat x)"
    unfolding unsigned_push_bit_eq using lt
    by (simp add: unsigned_ucast_eq take_bit_nat_eq_self push_bit_eq_mult)
  moreover have "unat (ucast y :: u32) = unat y"
    using lt by (simp add: unsigned_ucast_eq take_bit_nat_eq_self)
  ultimately show ?thesis by (simp add: unsigned_or_eq or_eq)
qed

lemma iphash2_eq:
  assumes "4 \<le> length addr"
  shows "map_option unat (iphash2 addr) = Some (unat (addr ! 3) * 256 + unat (addr ! 2))"
proof -
  let ?c = "push_bit 8 (ucast (addr ! 3)) OR ucast (addr ! 2) :: u32"
  have "unat (addr ! 3) < 256" "unat (addr ! 2) < 256"
    using unsigned_less [of "addr ! 3"] unsigned_less [of "addr ! 2"] by simp_all
  then have "unat ?c < 2 ^ 16" by (simp add: unat_octet_pair)
  then have "unat (take_bit 16 ?c) = unat ?c"
    by (simp only: unsigned_take_bit_eq take_bit_nat_eq_self)
  then have "unat (?c AND 65535) = unat (addr ! 3) * 256 + unat (addr ! 2)"
    by (simp only: and_65535 take_bit_eq_mask [symmetric] unat_octet_pair)
  then show ?thesis
    using assms by (simp add: iphash2_def rd8_Some)
qed

lemma iphash2_Some:
  assumes "4 \<le> length addr"
  obtains h where "iphash2 addr = Some h"
    "unat h = unat (addr ! 3) * 256 + unat (addr ! 2)" "unat h < IP_BDG_HASH"
proof -
  obtain h where h: "iphash2 addr = Some h"
    "unat h = unat (addr ! 3) * 256 + unat (addr ! 2)"
    using iphash2_eq [OF assms] by auto
  moreover have "unat (addr ! 3) < 256" "unat (addr ! 2) < 256"
    using unsigned_less [of "addr ! 3"] unsigned_less [of "addr ! 2"] by simp_all
  ultimately show thesis by (intro that) (auto simp: IP_BDG_HASH_def)
qed

lemma iphash2_bound: "iphash2 addr = Some h \<Longrightarrow> unat h < IP_BDG_HASH"
  using unat_and_mask_less [of _ 16]
  by (auto simp: iphash2_def IP_BDG_HASH_def and_65535 bind_eq_Some_conv Let_def)

lemma iphash2_None: "iphash2 addr = None \<longleftrightarrow> length addr < 4"
  by (auto simp: iphash2_def rd8_def split: Option.bind_splits)

lemma iphash2_take: "4 \<le> n \<Longrightarrow> iphash2 (take n addr) = iphash2 addr"
  by (simp add: iphash2_def rd8_take)

text \<open>Two addresses fall in the same slot of the IP table exactly when their third
  and fourth octets agree.\<close>
lemma iphash2_collision:
  assumes "4 \<le> length x" "4 \<le> length y"
  shows "iphash2 x = iphash2 y \<longleftrightarrow> x ! 2 = y ! 2 \<and> x ! 3 = y ! 3"
proof -
  obtain h k where hk: "iphash2 x = Some h" "iphash2 y = Some k"
    and u: "unat h = unat (x ! 3) * 256 + unat (x ! 2)"
      "unat k = unat (y ! 3) * 256 + unat (y ! 2)"
    using assms by (metis iphash2_Some)
  have "unat (x ! 2) < 256" "unat (y ! 2) < 256"
    using unsigned_less [of "x ! 2"] unsigned_less [of "y ! 2"] by simp_all
  then have "unat h = unat k \<longleftrightarrow> unat (x ! 2) = unat (y ! 2) \<and> unat (x ! 3) = unat (y ! 3)"
    unfolding u by (rule octet_pair_eq)
  then show ?thesis by (auto simp: hk word_unat_eq_iff)
qed


end
