(* ===== verification/Slot_Table.thy ===== *)
theory Slot_Table
  imports Xn_Prelude
begin

text \<open>
  The contract of a hashed forwarding table, as the lookup modules use it: a key has a
  slot, a store replaces the entry of that slot and of no other, and a key without a slot
  faults. Nothing resolves collisions, so what a slot holds after a series of stores is
  decided by the last key that fell into it; this is proved once here and used for the
  static MAC table, the static IP table and the learning tables.
\<close>

locale slot_table =
  fixes slot :: "'k \<Rightarrow> nat option"
    and entry :: "'k \<Rightarrow> 'v \<Rightarrow> 'e"
    and put :: "'t \<Rightarrow> 'k \<Rightarrow> 'v \<Rightarrow> 't option"
    and get :: "'t \<Rightarrow> nat \<Rightarrow> 'e"
    and wf :: "'t \<Rightarrow> bool"
  assumes put_total: "wf t \<Longrightarrow> slot k = Some s \<Longrightarrow> \<exists>t'. put t k v = Some t'"
    and put_fault: "wf t \<Longrightarrow> slot k = None \<Longrightarrow> put t k v = None"
    and get_put: "wf t \<Longrightarrow> put t k v = Some t' \<Longrightarrow>
        get t' n = (if slot k = Some n then entry k v else get t n)"
    and wf_put: "wf t \<Longrightarrow> put t k v = Some t' \<Longrightarrow> wf t'"
begin

lemma get_put_same: "wf t \<Longrightarrow> slot k = Some s \<Longrightarrow> put t k v = Some t' \<Longrightarrow> get t' s = entry k v"
  by (simp add: get_put)

lemma get_put_other: "wf t \<Longrightarrow> slot k \<noteq> Some n \<Longrightarrow> put t k v = Some t' \<Longrightarrow> get t' n = get t n"
  by (simp add: get_put)

lemma wf_puts: "wf t \<Longrightarrow> run_all (\<lambda>t (k, v). put t k v) t kvs = Some t' \<Longrightarrow> wf t'"
  by (rule run_all_invariant [where P = wf]) (auto intro: wf_put)

lemma get_puts:
  "wf t \<Longrightarrow> run_all (\<lambda>t (k, v). put t k v) t kvs = Some t' \<Longrightarrow>
   get t' n = (case find_last (\<lambda>(k, v). slot k = Some n) kvs of
                 None \<Rightarrow> get t n | Some (k, v) \<Rightarrow> entry k v)"
proof (induction kvs arbitrary: t)
  case Nil
  then show ?case by simp
next
  case (Cons kv kvs)
  obtain k v where kv: "kv = (k, v)" by (cases kv)
  from Cons.prems obtain u where u: "put t k v = Some u"
    and rest: "run_all (\<lambda>t (k, v). put t k v) u kvs = Some t'"
    by (auto simp: kv split: option.splits)
  have "wf u" using Cons.prems(1) u by (rule wf_put)
  from Cons.IH [OF this rest] show ?case
    using get_put [OF Cons.prems(1) u, of n]
    by (auto simp: kv find_last_Cons split: option.splits)
qed

lemma puts_total:
  "wf t \<Longrightarrow> run_all (\<lambda>t (k, v). put t k v) t kvs = None \<longleftrightarrow> (\<exists>(k, v) \<in> set kvs. slot k = None)"
proof (induction kvs arbitrary: t)
  case Nil
  then show ?case by simp
next
  case (Cons kv kvs)
  obtain k v where kv: "kv = (k, v)" by (cases kv)
  show ?case
  proof (cases "slot k")
    case None
    then show ?thesis using put_fault [OF Cons.prems, of k v] by (simp add: kv)
  next
    case (Some s)
    then obtain u where u: "put t k v = Some u" using put_total [OF Cons.prems] by blast
    have "wf u" using Cons.prems u by (rule wf_put)
    then show ?thesis using Cons.IH [of u] u Some by (simp add: kv)
  qed
qed

end

end
