(* ===== verification/Bdgreq.thy ===== *)
theory Bdgreq
  imports Xn_Prelude
begin

text \<open>
  The request that the control tool and the bridge modules exchange: \<open>struct bdgreq\<close> and
  the \<open>ioctl\<close> numbers of \<open>bdgfn/include/bdgfn_user.h\<close>, the lookup functions a bridge can
  be given, and the port constants of \<open>bdgfn/include/bdgfn_kern.h\<close>. The number of ports
  of a bridge, \<open>NM_BDG_MAXPORTS\<close>, belongs to netmap and is a parameter.
\<close>

section \<open>struct bdgreq\<close>

text \<open>
  The six octets of \<open>addr\<close> are followed by two bytes of padding, which the 8-byte load of
  \<open>bdgaddif2\<close> reads too.
\<close>

record bdgreq =
  rq_addr :: "u8 list"
  rq_pad :: "u8 list"
  rq_bdg_port :: u32
  rq_bdg_idx :: u32
  rq_nr_dst :: u32
  rq_nr_arg1 :: u32

definition wf_req :: "bdgreq \<Rightarrow> bool" where
  "wf_req r \<longleftrightarrow> length (rq_addr r) = 6 \<and> length (rq_pad r) = 2"

text \<open>The memory that starts at \<open>breq->addr\<close>, up to the end of the padding.\<close>

definition addr_mem :: "bdgreq \<Rightarrow> u8 list" where
  "addr_mem r = rq_addr r @ rq_pad r"

lemma length_addr_mem: "wf_req r \<Longrightarrow> length (addr_mem r) = 8"
  by (simp add: wf_req_def addr_mem_def)

lemma take_addr_mem: "wf_req r \<Longrightarrow> take 6 (addr_mem r) = rq_addr r"
  by (simp add: wf_req_def addr_mem_def)

text \<open>\<open>_IOWR('i', nr, struct bdgreq)\<close>: direction 3, size 24, type \<open>'i'\<close>.\<close>

definition IOWR_i :: "u32 \<Rightarrow> u32" where
  "IOWR_i nr = push_bit 30 3 OR push_bit 16 24 OR push_bit 8 0x69 OR nr"

definition BDGIOCLIST :: u32 where "BDGIOCLIST = IOWR_i 150"
definition BDGIOCADDIF :: u32 where "BDGIOCADDIF = IOWR_i 151"
definition BDGIOCINFO :: u32 where "BDGIOCINFO = IOWR_i 152"
definition BDGIOCREG :: u32 where "BDGIOCREG = IOWR_i 153"

lemma ioctl_numbers:
  "BDGIOCLIST = 0xC0186996" "BDGIOCADDIF = 0xC0186997"
  "BDGIOCINFO = 0xC0186998" "BDGIOCREG = 0xC0186999"
  by (simp_all add: BDGIOCLIST_def BDGIOCADDIF_def BDGIOCINFO_def BDGIOCREG_def IOWR_i_def
      push_bit_eq_mult)

section \<open>Ports and lookup functions\<close>


definition NM_BDG_BROADCAST :: "u32 \<Rightarrow> u32" where
  "NM_BDG_BROADCAST maxports = maxports"

definition NM_BDG_NOPORT :: "u32 \<Rightarrow> u32" where
  "NM_BDG_NOPORT maxports = maxports + 1"

datatype lookup_fn = Bdg_learning | Lsb_learning | Lookup2 | Lookup3

section \<open>Registration of a lookup function\<close>

text \<open>
  \<open>bdgfnreg\<close> of \<open>bdgfn_kern.h\<close>. What it needs of its environment: whether \<open>malloc\<close>
  succeeds (its result is used unchecked), and the answer of \<open>netmap_bdg_ctl\<close>. The result
  is the return value and the request that was made of netmap.
\<close>

record kenv =
  malloc_ok :: bool
  netmap_bdg_ctl :: "string \<Rightarrow> lookup_fn \<Rightarrow> int"

definition IFNAMSIZ :: nat where "IFNAMSIZ = 16"

definition vale_name :: "u32 \<Rightarrow> string" where
  "vale_name idx = snprintf IFNAMSIZ (''vale'' @ fmt_u idx @ '':'')"

definition bdgfnreg :: "kenv \<Rightarrow> u32 \<Rightarrow> lookup_fn \<Rightarrow> (int \<times> string \<times> lookup_fn) option" where
  "bdgfnreg env idx func =
     (if \<not> malloc_ok env then None
      else let nr_name = vale_name idx; err = netmap_bdg_ctl env nr_name func
           in Some (if err > 0 then - EINVAL else 0, nr_name, func))"

lemma vale_name_whole: "vale_name idx = ''vale'' @ fmt_u idx @ '':''"
  using length_fmt_u [of idx] by (simp add: vale_name_def snprintf_def IFNAMSIZ_def)

text \<open>The name given to netmap is never cut off by its 16-byte buffer, so two bridge
  numbers never register under one name.\<close>
lemma vale_name_inj: "vale_name i = vale_name j \<longleftrightarrow> i = j"
  by (simp add: vale_name_whole)

end
