(* ===== verification/Learning.thy ===== *)
theory Learning
  imports Hashes Slot_Table Bdgreq
begin

text \<open>
  The learning bridges: \<open>bdg_learning\<close> of \<open>bdgfn/include/bdgfn_kern.h\<close> and \<open>lsb_learning\<close>
  of \<open>bdgfn/learn.c\<close>, with the module's \<open>mac_lsb_init\<close> and \<open>mac_lsb_exit\<close>. The state is the
  forwarding table of the bridge; a frame is the buffer from its first octet on. The
  locale \<open>mac_learner\<close> is the contract of a learning step for any slot function; both
  functions are shown to meet it, and what a bridge does after any sequence of frames is
  proved from it.
\<close>

section \<open>State\<close>

record nm_hash_ent =
  he_mac :: u64
  he_ports :: u64

record nm_bridge =
  bdg_ht :: "nm_hash_ent list"

definition wf_bridge :: "nm_bridge \<Rightarrow> bool" where
  "wf_bridge br \<longleftrightarrow> length (bdg_ht br) = NM_BDG_HASH"

definition empty_bridge :: nm_bridge where
  "empty_bridge = \<lparr>bdg_ht = replicate NM_BDG_HASH \<lparr>he_mac = 0, he_ports = 0\<rparr>\<rparr>"

lemma wf_empty_bridge [simp]: "wf_bridge empty_bridge"
  by (simp add: wf_bridge_def empty_bridge_def)

section \<open>The default learning function\<close>

definition bdg_learning ::
  "u32 \<Rightarrow> u8 list \<Rightarrow> u32 \<Rightarrow> nm_bridge \<Rightarrow> (u32 \<times> u8 \<times> nm_bridge) option" where
  "bdg_learning maxports buf mysrc br = do {
     d \<leftarrow> le64 buf;
     let dmac = d AND 0xffffffffffff;
     s \<leftarrow> le64 (drop 4 buf);
     let smac = drop_bit 16 s;
     b6 \<leftarrow> rd8 buf 6;
     br \<leftarrow> (if b6 AND 1 = 0
           then do {
             sh \<leftarrow> nm_bridge_rthash (drop 6 buf);
             ht \<leftarrow> arr_set (bdg_ht br) (unat sh) \<lparr>he_mac = smac, he_ports = ucast mysrc\<rparr>;
             Some (br\<lparr>bdg_ht := ht\<rparr>)
           }
           else Some br);
     let dst = NM_BDG_BROADCAST maxports;
     b0 \<leftarrow> rd8 buf 0;
     dst \<leftarrow> (if b0 AND 1 = 0
            then do {
              dh \<leftarrow> nm_bridge_rthash buf;
              e \<leftarrow> arr_get (bdg_ht br) (unat dh);
              Some (if he_mac e = dmac then ucast (he_ports e) else dst)
            }
            else Some dst);
     Some (dst, 0, br)
   }"

section \<open>The module's own learning function\<close>

definition lsb_learning ::
  "u32 \<Rightarrow> u8 list \<Rightarrow> u32 \<Rightarrow> nm_bridge \<Rightarrow> (u32 \<times> u8 \<times> nm_bridge) option" where
  "lsb_learning nodst buf mysrc br = do {
     b6 \<leftarrow> rd8 buf 6;
     br \<leftarrow> (if b6 AND 1 = 0
           then do {
             s5 \<leftarrow> rd8 (drop 6 buf) 5;
             let sh = (ucast s5 :: u32);
             s \<leftarrow> le64 (drop 4 buf);
             let smac = drop_bit 16 s;
             ht \<leftarrow> arr_set (bdg_ht br) (unat sh) \<lparr>he_mac = smac, he_ports = ucast mysrc\<rparr>;
             Some (br\<lparr>bdg_ht := ht\<rparr>)
           }
           else Some br);
     let dst = nodst;
     b0 \<leftarrow> rd8 buf 0;
     dst \<leftarrow> (if b0 AND 1 = 0
            then do {
              d5 \<leftarrow> rd8 buf 5;
              let dh = (ucast d5 :: u32);
              d \<leftarrow> le64 buf;
              let dmac = d AND 0xffffffffffff;
              e \<leftarrow> arr_get (bdg_ht br) (unat dh);
              Some (if he_mac e = dmac then ucast (he_ports e) else dst)
            }
            else Some dst);
     Some (dst, 0, br)
   }"

definition mac_lsb_init :: "kenv \<Rightarrow> int \<Rightarrow> (int \<times> string \<times> lookup_fn) option" where
  "mac_lsb_init env typ = do {
     let func = (if typ \<noteq> 0 then Lsb_learning else Bdg_learning);
     (_, reg) \<leftarrow> bdgfnreg env 0 func;
     Some (0, reg)
   }"

definition mac_lsb_exit :: "kenv \<Rightarrow> (string \<times> lookup_fn) option" where
  "mac_lsb_exit env = do {
     (_, reg) \<leftarrow> bdgfnreg env 0 Bdg_learning;
     Some reg
   }"

section \<open>What a learning step promises\<close>

definition eth_dst :: "u8 list \<Rightarrow> u8 list" where
  "eth_dst buf = take 6 buf"

definition eth_src :: "u8 list \<Rightarrow> u8 list" where
  "eth_src buf = take 6 (drop 6 buf)"

definition unicast :: "u8 list \<Rightarrow> bool" where
  "unicast m \<longleftrightarrow> (m ! 0) AND 1 = 0"

text \<open>The slots the two functions use, for an address of six octets.\<close>

definition rthash_slot :: "u8 list \<Rightarrow> nat" where
  "rthash_slot m = (case nm_bridge_rthash m of None \<Rightarrow> 0 | Some h \<Rightarrow> unat h)"

definition lsb_slot :: "u8 list \<Rightarrow> nat" where
  "lsb_slot m = unat (m ! 5)"

definition learn :: "(u8 list \<Rightarrow> nat) \<Rightarrow> u8 list \<Rightarrow> u32 \<Rightarrow> nm_bridge \<Rightarrow> nm_bridge" where
  "learn slot src mysrc br =
     (if unicast src
      then br\<lparr>bdg_ht := (bdg_ht br)[slot src := \<lparr>he_mac = le_word src, he_ports = ucast mysrc\<rparr>]\<rparr>
      else br)"

definition forward :: "(u8 list \<Rightarrow> nat) \<Rightarrow> u32 \<Rightarrow> u8 list \<Rightarrow> nm_bridge \<Rightarrow> u32" where
  "forward slot bcast dst br =
     (if unicast dst \<and> he_mac (bdg_ht br ! slot dst) = le_word dst
      then ucast (he_ports (bdg_ht br ! slot dst)) else bcast)"

text \<open>A bridge over a sequence of frames, each with the port it came in on.\<close>

definition feed ::
  "(u8 list \<Rightarrow> u32 \<Rightarrow> nm_bridge \<Rightarrow> (u32 \<times> u8 \<times> nm_bridge) option) \<Rightarrow>
   nm_bridge \<Rightarrow> (u32 \<times> u8 list) list \<Rightarrow> nm_bridge option" where
  "feed step = run_all (\<lambda>br (p, buf). map_option (snd \<circ> snd) (step buf p br))"

text \<open>
  The port a learning bridge sends a frame to, from the history of the frames it has seen
  (the current one included): the port of the last unicast source in the slot of the
  destination, if that source was the destination.
\<close>

definition learned_port ::
  "(u8 list \<Rightarrow> nat) \<Rightarrow> u32 \<Rightarrow> (u32 \<times> u8 list) list \<Rightarrow> u8 list \<Rightarrow> u32" where
  "learned_port slot bcast hist dst =
     (if \<not> unicast dst then bcast
      else case find_last (\<lambda>(p, buf). unicast (eth_src buf) \<and> slot (eth_src buf) = slot dst) hist of
             None \<Rightarrow> (if le_word dst = 0 then 0 else bcast)
           | Some (p, buf) \<Rightarrow> (if eth_src buf = dst then p else bcast))"

locale mac_learner =
  fixes slot :: "u8 list \<Rightarrow> nat"
    and bcast :: u32
    and step :: "u8 list \<Rightarrow> u32 \<Rightarrow> nm_bridge \<Rightarrow> (u32 \<times> u8 \<times> nm_bridge) option"
  assumes slot_bound: "length m = 6 \<Longrightarrow> slot m < NM_BDG_HASH"
    and step_whole: "wf_bridge br \<Longrightarrow> 12 \<le> length buf \<Longrightarrow>
        step buf p br =
          (let br' = learn slot (eth_src buf) p br in Some (forward slot bcast (eth_dst buf) br', 0, br'))"
begin

lemma length_eth: "12 \<le> length buf \<Longrightarrow> length (eth_src buf) = 6 \<and> length (eth_dst buf) = 6"
  by (simp add: eth_src_def eth_dst_def)

lemma wf_learn: "wf_bridge br \<Longrightarrow> wf_bridge (learn slot src p br)"
  by (simp add: wf_bridge_def learn_def)

lemma nth_learn:
  "wf_bridge br \<Longrightarrow> length src = 6 \<Longrightarrow>
   bdg_ht (learn slot src p br) ! n =
     (if unicast src \<and> slot src = n then \<lparr>he_mac = le_word src, he_ports = ucast p\<rparr>
      else bdg_ht br ! n)"
  using slot_bound [of src] by (auto simp: learn_def wf_bridge_def)

lemma feed_total:
  "wf_bridge br \<Longrightarrow> \<forall>(p, buf) \<in> set hist. 12 \<le> length buf \<Longrightarrow>
   \<exists>br'. feed step br hist = Some br' \<and> wf_bridge br'"
proof (induction hist arbitrary: br)
  case Nil
  then show ?case by (simp add: feed_def)
next
  case (Cons h hist)
  obtain p buf where h: "h = (p, buf)" by (cases h)
  have "wf_bridge (learn slot (eth_src buf) p br)" using Cons.prems(1) by (rule wf_learn)
  moreover have "\<forall>(p, buf) \<in> set hist. 12 \<le> length buf" using Cons.prems(2) by simp
  ultimately show ?case
    using Cons.IH Cons.prems by (simp add: feed_def h step_whole Let_def)
qed

lemma feed_entry:
  "wf_bridge br \<Longrightarrow> \<forall>(p, buf) \<in> set hist. 12 \<le> length buf \<Longrightarrow> feed step br hist = Some br' \<Longrightarrow>
   bdg_ht br' ! n =
     (case find_last (\<lambda>(p, buf). unicast (eth_src buf) \<and> slot (eth_src buf) = n) hist of
        None \<Rightarrow> bdg_ht br ! n
      | Some (p, buf) \<Rightarrow> \<lparr>he_mac = le_word (eth_src buf), he_ports = ucast p\<rparr>)"
proof (induction hist arbitrary: br)
  case Nil
  then show ?case by (simp add: feed_def)
next
  case (Cons h hist)
  obtain p buf where h: "h = (p, buf)" by (cases h)
  let ?br1 = "learn slot (eth_src buf) p br"
  have len: "12 \<le> length buf" and rest: "\<forall>(p, buf) \<in> set hist. 12 \<le> length buf"
    using Cons.prems(2) h by simp_all
  have "feed step ?br1 hist = Some br'"
    using Cons.prems(1,3) len by (simp add: feed_def h step_whole Let_def)
  from Cons.IH [OF wf_learn [OF Cons.prems(1)] rest this] show ?case
    using nth_learn [OF Cons.prems(1), of "eth_src buf" p n] length_eth [OF len]
    by (auto simp: h find_last_Cons split: option.splits)
qed

lemma feed_snoc:
  "feed step br hist = Some br' \<Longrightarrow>
   feed step br (hist @ [(p, buf)]) = map_option (snd \<circ> snd) (step buf p br')"
  by (simp add: feed_def run_all_append split: option.splits)

lemma forward_learned:
  assumes hist: "\<forall>(p, buf) \<in> set hist. 12 \<le> length buf"
    and run: "feed step empty_bridge hist = Some br"
    and len: "12 \<le> length buf"
  shows "\<exists>br'. step buf p br =
    Some (learned_port slot bcast (hist @ [(p, buf)]) (eth_dst buf), 0, br') \<and> wf_bridge br'"
proof -
  let ?br' = "learn slot (eth_src buf) p br" and ?h = "hist @ [(p, buf)]"
  have wf: "wf_bridge br"
    using feed_total [OF wf_empty_bridge hist] run by auto
  have step: "step buf p br = Some (forward slot bcast (eth_dst buf) ?br', 0, ?br')"
    using wf len by (simp add: step_whole Let_def)
  have "feed step empty_bridge ?h = Some ?br'"
    using feed_snoc [OF run, of p buf] step by simp
  moreover have all: "\<forall>(p, buf) \<in> set ?h. 12 \<le> length buf" using hist len by auto
  ultimately have entry: "bdg_ht ?br' ! n =
     (case find_last (\<lambda>(p, buf). unicast (eth_src buf) \<and> slot (eth_src buf) = n) ?h of
        None \<Rightarrow> bdg_ht empty_bridge ! n
      | Some (p, buf) \<Rightarrow> \<lparr>he_mac = le_word (eth_src buf), he_ports = ucast p\<rparr>)" for n
    using feed_entry [OF wf_empty_bridge] by blast
  have zero: "bdg_ht empty_bridge ! slot (eth_dst buf) = \<lparr>he_mac = 0, he_ports = 0\<rparr>"
    using slot_bound length_eth [OF len] by (simp add: empty_bridge_def)
  have eq: "le_word (eth_src b) = le_word (eth_dst buf) \<longleftrightarrow> eth_src b = eth_dst buf"
    if "(q, b) \<in> set ?h" for q b
  proof -
    have "12 \<le> length b" using that all by blast
    then show ?thesis
      using length_eth [OF len] length_eth [of b] le_word_inject [of "eth_src b" "eth_dst buf"]
      by auto
  qed
  have "forward slot bcast (eth_dst buf) ?br' = learned_port slot bcast ?h (eth_dst buf)"
  proof (cases "find_last (\<lambda>(p, buf'). unicast (eth_src buf') \<and>
      slot (eth_src buf') = slot (eth_dst buf)) ?h")
    case None
    have "bdg_ht ?br' ! slot (eth_dst buf) = \<lparr>he_mac = 0, he_ports = 0\<rparr>"
      by (simp only: entry None option.case zero)
    then show ?thesis
      unfolding forward_def learned_port_def None option.case by simp
  next
    case (Some x)
    obtain q b where x: "x = (q, b)" by (cases x)
    have "(q, b) \<in> set ?h"
      using find_last_SomeD [OF Some] x by blast
    note same = eq [OF this]
    have "bdg_ht ?br' ! slot (eth_dst buf) = \<lparr>he_mac = le_word (eth_src b), he_ports = ucast q\<rparr>"
      by (simp only: entry Some x option.case prod.case)
    then show ?thesis
      unfolding forward_def learned_port_def Some x option.case prod.case by (simp add: same)
  qed
  then show ?thesis using step wf_learn [OF wf] by auto
qed

end

section \<open>Both functions are learning steps\<close>

lemma rthash_slot_bound: "rthash_slot m < NM_BDG_HASH"
  using nm_bridge_rthash_bound [of m]
  by (auto simp: rthash_slot_def NM_BDG_HASH_def split: option.splits)

lemma lsb_slot_bound: "lsb_slot m < NM_BDG_HASH"
  using unat_u8_less [of "m ! 5"] by (simp add: lsb_slot_def NM_BDG_HASH_def)

lemma rthash_slot_take: "rthash_slot (take 6 m) = rthash_slot m"
  by (simp add: rthash_slot_def nm_bridge_rthash_take)

lemma nm_bridge_rthash_slot:
  assumes "6 \<le> length m"
  obtains h where "nm_bridge_rthash m = Some h" "unat h = rthash_slot (take 6 m)"
proof -
  obtain h where "nm_bridge_rthash m = Some h"
    using assms nm_bridge_rthash_Some by blast
  then show thesis by (intro that) (simp_all add: rthash_slot_def nm_bridge_rthash_take)
qed

lemma frame_addresses:
  assumes "12 \<le> length buf"
  shows "le64 buf = Some (le_word (take 8 buf))"
    and "le_word (take 8 buf) AND 0xffffffffffff = le_word (eth_dst buf)"
    and "le64 (drop 4 buf) = Some (le_word (take 8 (drop 4 buf)))"
    and "drop_bit 16 (le_word (take 8 (drop 4 buf))) = le_word (eth_src buf)"
    and "eth_src buf ! 0 = buf ! 6" "eth_dst buf ! 0 = buf ! 0"
    and "eth_src buf ! 5 = buf ! 11" "eth_dst buf ! 5 = buf ! 5"
proof -
  show "le64 buf = Some (le_word (take 8 buf))"
    "le64 (drop 4 buf) = Some (le_word (take 8 (drop 4 buf)))"
    using assms by (simp_all add: le64_def)
  show "le_word (take 8 buf) AND 0xffffffffffff = le_word (eth_dst buf)"
    using assms by (subst le_word_mask48) (simp_all add: eth_dst_def min_def)
  show "drop_bit 16 (le_word (take 8 (drop 4 buf))) = le_word (eth_src buf)"
    using assms by (subst le_word_shift16) (simp_all add: eth_src_def drop_take)
  show "eth_src buf ! 0 = buf ! 6" "eth_dst buf ! 0 = buf ! 0"
    "eth_src buf ! 5 = buf ! 11" "eth_dst buf ! 5 = buf ! 5"
    using assms by (simp_all add: eth_src_def eth_dst_def)
qed

lemma bdg_learning_whole:
  assumes wf: "wf_bridge br" and len: "12 \<le> length buf"
  shows "bdg_learning mx buf p br =
    (let br' = learn rthash_slot (eth_src buf) p br
     in Some (forward rthash_slot (NM_BDG_BROADCAST mx) (eth_dst buf) br', 0, br'))"
proof -
  have "6 \<le> length (drop 6 buf)" "6 \<le> length buf" using len by simp_all
  then obtain sh dh where
    sh: "nm_bridge_rthash (drop 6 buf) = Some sh" "unat sh = rthash_slot (eth_src buf)" and
    dh: "nm_bridge_rthash buf = Some dh" "unat dh = rthash_slot (eth_dst buf)"
    unfolding eth_src_def eth_dst_def by (metis nm_bridge_rthash_slot)
  have "buf \<noteq> []" using len by auto
  then show ?thesis
    using len wf rthash_slot_bound frame_addresses [OF len]
    by (simp add: bdg_learning_def sh dh c_loads learn_def forward_def
        unicast_def wf_bridge_def Let_def)
qed

lemma lsb_learning_whole:
  assumes wf: "wf_bridge br" and len: "12 \<le> length buf"
  shows "lsb_learning nodst buf p br =
    (let br' = learn lsb_slot (eth_src buf) p br
     in Some (forward lsb_slot nodst (eth_dst buf) br', 0, br'))"
proof -
  have "unat (buf ! 11) < NM_BDG_HASH" "unat (buf ! 5) < NM_BDG_HASH"
    using unat_u8_less [of "buf ! 11"] unat_u8_less [of "buf ! 5"]
    by (simp_all add: NM_BDG_HASH_def)
  moreover have "buf \<noteq> []" using len by auto
  ultimately show ?thesis
    using len wf frame_addresses [OF len]
    by (simp add: lsb_learning_def c_loads learn_def forward_def
        unicast_def wf_bridge_def Let_def lsb_slot_def)
qed

interpretation bdg: mac_learner rthash_slot "NM_BDG_BROADCAST mx" "bdg_learning mx" for mx
  by unfold_locales (simp_all add: rthash_slot_bound bdg_learning_whole)

interpretation lsb: mac_learner lsb_slot nodst "lsb_learning nodst" for nodst
  by unfold_locales (simp_all add: lsb_slot_bound lsb_learning_whole)

section \<open>Properties\<close>

text \<open>C20: A bridge with the default lookup function, started with an empty table and fed any
  frames of at least twelve octets, sends a unicast frame to the port of the last unicast
  source in the slot of its destination if that source is the destination, and to every
  port otherwise; the frame's own source is learned first. The all-zero address is the
  exception: it matches a slot nothing was learned in, and goes to port 0.\<close>
theorem bdg_learning_forwards:
  assumes "\<forall>(p, buf) \<in> set hist. 12 \<le> length buf"
    and "feed (bdg_learning mx) empty_bridge hist = Some br"
    and "12 \<le> length buf"
  shows "\<exists>br'. bdg_learning mx buf p br =
    Some (learned_port rthash_slot (NM_BDG_BROADCAST mx) (hist @ [(p, buf)]) (eth_dst buf), 0, br')
    \<and> wf_bridge br'"
  using assms by (rule bdg.forward_learned)

definition frame_ab :: "u8 list" where
  "frame_ab = [2, 0, 0, 0, 0, 11] @ [2, 0, 0, 0, 0, 10] @ [8, 0]"

definition frame_ba :: "u8 list" where
  "frame_ba = [2, 0, 0, 0, 0, 10] @ [2, 0, 0, 0, 0, 11] @ [8, 0]"

theorem bdg_learning_forwards_witness:
  "\<exists>br br'. feed (bdg_learning 254) empty_bridge [(3, frame_ab)] = Some br \<and>
     bdg_learning 254 frame_ba 7 br = Some (3, 0, br')"
proof -
  have h: "\<forall>(p, buf) \<in> set [(3 :: u32, frame_ab)]. 12 \<le> length buf"
    and l: "12 \<le> length frame_ba" by (simp_all add: frame_ab_def frame_ba_def)
  obtain br where br: "feed (bdg_learning 254) empty_bridge [(3, frame_ab)] = Some br"
    using bdg.feed_total [OF wf_empty_bridge h] by blast
  have slots: "rthash_slot [2, 0, 0, 0, 0, 11] \<noteq> rthash_slot [2, 0, 0, 0, 0, 10]"
    by code_simp
  have "learned_port rthash_slot (NM_BDG_BROADCAST 254) ([(3, frame_ab)] @ [(7, frame_ba)])
      (eth_dst frame_ba) = 3"
    using slots by (simp add: learned_port_def find_last_def eth_dst_def eth_src_def frame_ab_def
        frame_ba_def unicast_def)
  then show ?thesis
    using br bdg_learning_forwards [OF h br l, of 7] by auto
qed

text \<open>C33: The lsb bridge of learn.c has the same forwarding behaviour with the last octet of
  the address as its slot, and with \<open>nodst\<close> for frames whose destination is not learned.\<close>
theorem lsb_learning_forwards:
  assumes "\<forall>(p, buf) \<in> set hist. 12 \<le> length buf"
    and "feed (lsb_learning nodst) empty_bridge hist = Some br"
    and "12 \<le> length buf"
  shows "\<exists>br'. lsb_learning nodst buf p br =
    Some (learned_port lsb_slot nodst (hist @ [(p, buf)]) (eth_dst buf), 0, br') \<and> wf_bridge br'"
  using assms by (rule lsb.forward_learned)

theorem lsb_learning_forwards_witness:
  "\<exists>br br'. feed (lsb_learning 254) empty_bridge [(3, frame_ab)] = Some br \<and>
     lsb_learning 254 frame_ba 7 br = Some (3, 0, br')"
proof -
  have h: "\<forall>(p, buf) \<in> set [(3 :: u32, frame_ab)]. 12 \<le> length buf"
    and l: "12 \<le> length frame_ba" by (simp_all add: frame_ab_def frame_ba_def)
  obtain br where br: "feed (lsb_learning 254) empty_bridge [(3, frame_ab)] = Some br"
    using lsb.feed_total [OF wf_empty_bridge h] by blast
  have "learned_port lsb_slot 254 ([(3, frame_ab)] @ [(7, frame_ba)]) (eth_dst frame_ba) = 3"
    by (simp add: learned_port_def find_last_def eth_dst_def eth_src_def frame_ab_def
        frame_ba_def unicast_def lsb_slot_def)
  then show ?thesis
    using br lsb_learning_forwards [OF h br l, of 7] by auto
qed

text \<open>On a well-formed table the default lookup function reads or writes out of range
  exactly when the frame buffer is shorter than its two Ethernet addresses: the length
  argument is never consulted.\<close>

lemma bdg_learning_fault:
  assumes "wf_bridge br"
  shows "bdg_learning mx buf p br = None \<longleftrightarrow> length buf < 12"
proof (cases "12 \<le> length buf")
  case True
  then show ?thesis using assms by (simp add: bdg_learning_whole Let_def)
next
  case False
  then have "le64 (drop 4 buf) = None" by (simp add: le64_def)
  then show ?thesis using False by (auto simp: bdg_learning_def Let_def split: Option.bind_splits)
qed

text \<open>Loading learn.c always succeeds, whatever netmap answers to the registration, and it
  asks for its lookup function on bridge 0 only; unloading puts the default one back.\<close>

lemma mac_lsb_init_exit:
  "malloc_ok env \<Longrightarrow>
   mac_lsb_init env typ =
     Some (0, ''vale0:'', if typ = 0 then Bdg_learning else Lsb_learning) \<and>
   mac_lsb_exit env = Some (''vale0:'', Bdg_learning)"
  by (simp add: mac_lsb_init_def mac_lsb_exit_def bdgfnreg_def Let_def vale_name_whole fmt_u_def
      dec_nat.simps)

end
