(* ===== verification/Mac_Static.thy ===== *)
theory Mac_Static
  imports Learning
begin

text \<open>
  The static bridge of \<open>bdgfn/mac-static.c\<close>: the routing tables \<open>rt\<close> of its eight bridges,
  the lookup function \<open>lookup2\<close>, the control operations \<open>bdgaddif2\<close>, \<open>bdglist\<close> and
  \<open>bdgctl\<close>, and the module's init and exit. A bridge number or a slot outside the tables is
  a fault. \<open>bdgaddif2\<close> is shown to be a table store in the sense of \<open>slot_table\<close>, so what
  \<open>lookup2\<close> answers after any series of requests follows from that contract.
\<close>

section \<open>State\<close>

record mac_route_ent =
  mre_mac :: u64
  mre_ports :: u64

record mac_route =
  mr_ht :: "mac_route_ent list"
  mr_ctl :: u64

definition MAC_BRIDGES :: nat where "MAC_BRIDGES = 8"

definition wf_mac_rt :: "mac_route list \<Rightarrow> bool" where
  "wf_mac_rt rt \<longleftrightarrow> length rt = MAC_BRIDGES \<and> (\<forall>r \<in> set rt. length (mr_ht r) = NM_BDG_HASH)"

lemma wf_mac_rt_nth [dest]:
  "wf_mac_rt rt \<Longrightarrow> i < MAC_BRIDGES \<Longrightarrow> length (mr_ht (rt ! i)) = NM_BDG_HASH"
  by (simp add: wf_mac_rt_def)

section \<open>Lookup\<close>

definition lookup2 :: "mac_route list \<Rightarrow> u8 list \<Rightarrow> (u32 \<times> u8) option" where
  "lookup2 rt buf = do {
     r \<leftarrow> arr_get rt 0;
     let ht = mr_ht r;
     let dst = (ucast (mr_ctl r) :: u32);
     b6 \<leftarrow> rd8 buf 6;
     dst \<leftarrow> (if b6 AND 1 = 0
            then do {
              sh \<leftarrow> nm_bridge_rthash (drop 6 buf);
              e \<leftarrow> arr_get ht (unat sh);
              Some (ucast (mre_ports e))
            }
            else Some dst);
     Some (dst, 0)
   }"

section \<open>Control operations\<close>

text \<open>\<open>s\<close> is the memory from \<open>breq->addr\<close> on, of which eight bytes are loaded.\<close>

definition bdgaddif2 :: "mac_route list \<Rightarrow> u8 list \<Rightarrow> u32 \<Rightarrow> u32 \<Rightarrow> (int \<times> mac_route list) option" where
  "bdgaddif2 rt s bdg_idx dst = do {
     r \<leftarrow> arr_get rt (unat bdg_idx);
     sh \<leftarrow> nm_bridge_rthash s;
     w \<leftarrow> le64 s;
     let smac = w AND 0xffffffffffff;
     ht \<leftarrow> arr_set (mr_ht r) (unat sh) \<lparr>mre_mac = smac, mre_ports = ucast dst\<rparr>;
     rt \<leftarrow> arr_set rt (unat bdg_idx) (r\<lparr>mr_ht := ht\<rparr>);
     Some (0, rt)
   }"

text \<open>
  The scan of \<open>bdglist\<close>: its index is a signed \<open>int\<close>, so a request whose \<open>nr_arg1\<close> is
  2147483648 or more reads in front of the table.
\<close>

function mac_bdglist_scan :: "mac_route_ent list \<Rightarrow> int \<Rightarrow> bdgreq \<Rightarrow> (int \<times> bdgreq) option" where
  "mac_bdglist_scan ht i breq =
     (if i \<ge> int NM_BDG_HASH then Some (ENOENT, breq)
      else if i < 0 then None
      else case arr_get ht (nat i) of
        None \<Rightarrow> None
      | Some e \<Rightarrow>
          if mre_mac e = 0 then mac_bdglist_scan ht (i + 1) breq
          else Some (0, breq\<lparr>rq_addr := map (word_byte (mre_mac e)) [0, 1, 2, 3, 4, 5],
                              rq_bdg_port := ucast (mre_ports e),
                              rq_nr_arg1 := of_int i\<rparr>))"
  by pat_completeness auto
termination
  by (relation "measure (\<lambda>(ht, i, breq). nat (int NM_BDG_HASH - i))") auto

declare mac_bdglist_scan.simps [simp del]

text \<open>A table behind the last one is a fault here even if no slot of it is then read.\<close>

definition mac_bdglist :: "mac_route list \<Rightarrow> u32 \<Rightarrow> bdgreq \<Rightarrow> (int \<times> bdgreq) option" where
  "mac_bdglist rt xiter breq = do {
     r \<leftarrow> arr_get rt (unat (rq_bdg_idx breq));
     mac_bdglist_scan (mr_ht r) (sint xiter) breq
   }"

text \<open>
  The state of the module: its tables and the registrations it has made of netmap, the
  latest first.
\<close>

record mac_state =
  ms_rt :: "mac_route list"
  ms_regs :: "(string \<times> lookup_fn) list"

definition mac_bdgctl :: "kenv \<Rightarrow> mac_state \<Rightarrow> u32 \<Rightarrow> bdgreq \<Rightarrow> (int \<times> mac_state \<times> bdgreq) option" where
  "mac_bdgctl env st cmd breq =
     (if cmd = BDGIOCREG then do {
        (ret, reg) \<leftarrow> bdgfnreg env (rq_bdg_idx breq) Lookup2;
        r \<leftarrow> arr_get (ms_rt st) (unat (rq_bdg_idx breq));
        rt \<leftarrow> arr_set (ms_rt st) (unat (rq_bdg_idx breq)) (r\<lparr>mr_ctl := ucast (rq_bdg_port breq)\<rparr>);
        Some (ret, \<lparr>ms_rt = rt, ms_regs = reg # ms_regs st\<rparr>, breq)
      }
      else if cmd = BDGIOCLIST then do {
        (ret, breq') \<leftarrow> mac_bdglist (ms_rt st) (rq_nr_arg1 breq) breq;
        Some (ret, st, breq')
      }
      else if cmd = BDGIOCADDIF then do {
        (ret, rt) \<leftarrow> bdgaddif2 (ms_rt st) (addr_mem breq) (rq_bdg_idx breq) (rq_nr_dst breq);
        Some (ret, st\<lparr>ms_rt := rt\<rparr>, breq)
      }
      else Some (0, st, breq))"

section \<open>Loading and unloading\<close>

definition mac_rt_init :: "u32 \<Rightarrow> mac_route \<Rightarrow> mac_route" where
  "mac_rt_init maxports r =
     r\<lparr>mr_ctl := ucast (NM_BDG_NOPORT maxports),
       mr_ht := map (\<lambda>e. e\<lparr>mre_ports := ucast (NM_BDG_NOPORT maxports)\<rparr>) (mr_ht r)\<rparr>"

definition mac_rt_zero :: "mac_route list" where
  "mac_rt_zero = replicate MAC_BRIDGES
     \<lparr>mr_ht = replicate NM_BDG_HASH \<lparr>mre_mac = 0, mre_ports = 0\<rparr>, mr_ctl = 0\<rparr>"

definition mac_static_init :: "u32 \<Rightarrow> int \<times> mac_state" where
  "mac_static_init maxports = (0, \<lparr>ms_rt = map (mac_rt_init maxports) mac_rt_zero, ms_regs = []\<rparr>)"

definition mac_static_exit :: "kenv \<Rightarrow> mac_state \<Rightarrow> mac_state option" where
  "mac_static_exit env st = do {
     (_, reg) \<leftarrow> bdgfnreg env 0 Bdg_learning;
     Some (st\<lparr>ms_regs := reg # ms_regs st\<rparr>)
   }"

section \<open>Well-formed tables are kept\<close>

lemma wf_mac_init: "wf_mac_rt (ms_rt (snd (mac_static_init mx)))"
  by (simp add: mac_static_init_def wf_mac_rt_def mac_rt_zero_def mac_rt_init_def)

lemma wf_mac_update:
  "wf_mac_rt rt \<Longrightarrow> length (mr_ht r) = NM_BDG_HASH \<Longrightarrow> wf_mac_rt (rt[i := r])"
  by (auto simp: wf_mac_rt_def dest: set_update_subset_insert [THEN subsetD])

lemma bdgaddif2_wf:
  assumes "wf_mac_rt rt" "bdgaddif2 rt s i dst = Some (ret, rt')"
  shows "wf_mac_rt rt'"
proof -
  have "length (mr_ht (rt ! unat i)) = NM_BDG_HASH" if "unat i < length rt"
    using that assms(1) by (auto simp: wf_mac_rt_def)
  then show ?thesis
    using assms
    by (auto simp: bdgaddif2_def bind_eq_Some_conv Let_def arr_get_conv arr_set_conv
        intro!: wf_mac_update)
qed

section \<open>bdgaddif2 is a table store\<close>

text \<open>A key is a bridge number with an address; the slots of all bridges are numbered on.\<close>

definition mac_slot :: "u32 \<times> u8 list \<Rightarrow> nat option" where
  "mac_slot k = (case k of (i, m) \<Rightarrow>
     if unat i < MAC_BRIDGES \<and> 8 \<le> length m
     then Some (unat i * NM_BDG_HASH + rthash_slot (take 6 m)) else None)"

definition mac_entry :: "u32 \<times> u8 list \<Rightarrow> u32 \<Rightarrow> mac_route_ent" where
  "mac_entry k dst = \<lparr>mre_mac = le_word (take 6 (snd k)), mre_ports = ucast dst\<rparr>"

definition mac_put :: "mac_route list \<Rightarrow> u32 \<times> u8 list \<Rightarrow> u32 \<Rightarrow> mac_route list option" where
  "mac_put rt k dst = map_option snd (bdgaddif2 rt (snd k) (fst k) dst)"

definition mac_get :: "mac_route list \<Rightarrow> nat \<Rightarrow> mac_route_ent" where
  "mac_get rt n = mr_ht (rt ! (n div NM_BDG_HASH)) ! (n mod NM_BDG_HASH)"

lemma bdgaddif2_whole:
  assumes "wf_mac_rt rt" "unat i < MAC_BRIDGES" "8 \<le> length s"
  shows "bdgaddif2 rt s i dst =
    Some (0, rt[unat i := (rt ! unat i)\<lparr>mr_ht :=
      (mr_ht (rt ! unat i))[rthash_slot (take 6 s) := mac_entry (i, s) dst]\<rparr>])"
proof -
  have "6 \<le> length s" using assms(3) by simp
  then obtain sh where "nm_bridge_rthash s = Some sh" "unat sh = rthash_slot (take 6 s)"
    by (rule nm_bridge_rthash_slot)
  moreover have "le_word (take 8 s) AND 0xffffffffffff = le_word (take 6 s)"
    using assms(3) by (subst le_word_mask48) simp_all
  ultimately show ?thesis
    using assms rthash_slot_bound wf_mac_rt_nth [OF assms(1,2)]
    by (simp add: bdgaddif2_def arr_get_def arr_set_def le64_def mac_entry_def wf_mac_rt_def Let_def)
qed

lemma bdgaddif2_fault:
  "wf_mac_rt rt \<Longrightarrow> \<not> (unat i < MAC_BRIDGES \<and> 8 \<le> length s) \<Longrightarrow> bdgaddif2 rt s i dst = None"
  by (auto simp: bdgaddif2_def wf_mac_rt_def arr_get_def le64_def Let_def split: Option.bind_splits)

lemma mac_put_conv:
  "wf_mac_rt rt \<Longrightarrow> mac_put rt k dst = Some rt' \<longleftrightarrow>
     (\<exists>i s. k = (i, s) \<and> unat i < MAC_BRIDGES \<and> 8 \<le> length s \<and>
       rt' = rt[unat i := (rt ! unat i)\<lparr>mr_ht :=
         (mr_ht (rt ! unat i))[rthash_slot (take 6 s) := mac_entry k dst]\<rparr>])"
  using bdgaddif2_whole [of rt "fst k" "snd k" dst] bdgaddif2_fault [of rt "fst k" "snd k" dst]
  by (cases "unat (fst k) < MAC_BRIDGES \<and> 8 \<le> length (snd k)"; cases k) (auto simp: mac_put_def)

lemma slot_split:
  assumes "s < NM_BDG_HASH"
  shows "i * NM_BDG_HASH + s = n \<longleftrightarrow> i = n div NM_BDG_HASH \<and> s = n mod NM_BDG_HASH"
  using assms by (auto simp: NM_BDG_HASH_def)

lemma mac_get_put:
  assumes wf: "wf_mac_rt rt" and put: "mac_put rt k dst = Some rt'"
  shows "mac_get rt' n = (if mac_slot k = Some n then mac_entry k dst else mac_get rt n)"
proof -
  obtain i s where k: "k = (i, s)" and i: "unat i < MAC_BRIDGES" and s: "8 \<le> length s"
    and rt': "rt' = rt[unat i := (rt ! unat i)\<lparr>mr_ht :=
         (mr_ht (rt ! unat i))[rthash_slot (take 6 s) := mac_entry k dst]\<rparr>]"
    using put unfolding mac_put_conv [OF wf] by blast
  have len: "length rt = MAC_BRIDGES" "length (mr_ht (rt ! unat i)) = NM_BDG_HASH"
    using wf i by (auto simp: wf_mac_rt_def)
  have "mac_slot k = Some n \<longleftrightarrow>
      unat i = n div NM_BDG_HASH \<and> rthash_slot (take 6 s) = n mod NM_BDG_HASH"
    using i s slot_split [OF rthash_slot_bound] by (simp add: mac_slot_def k)
  moreover have "n mod NM_BDG_HASH < NM_BDG_HASH" by (simp add: NM_BDG_HASH_def)
  ultimately show ?thesis
    using i len rthash_slot_bound by (auto simp: mac_get_def rt' nth_list_update)
qed

interpretation macs: slot_table mac_slot mac_entry mac_put mac_get wf_mac_rt
proof unfold_locales
  fix t k s v assume "wf_mac_rt t" "mac_slot k = Some s"
  then show "\<exists>t'. mac_put t k v = Some t'"
    by (cases k) (auto simp: mac_put_conv mac_slot_def split: if_splits)
next
  fix t k v assume "wf_mac_rt t" "mac_slot k = None"
  then show "mac_put t k v = None"
    using bdgaddif2_fault [of t "fst k" "snd k" v]
    by (cases k) (simp add: mac_put_def mac_slot_def split: if_splits)
next
  fix t k v t' assume "wf_mac_rt t" "mac_put t k v = Some t'"
  then show "wf_mac_rt t'" by (auto simp: mac_put_def intro: bdgaddif2_wf)
qed (rule mac_get_put)

lemma lookup2_get:
  assumes wf: "wf_mac_rt rt" and len: "12 \<le> length buf"
  shows "lookup2 rt buf =
    Some (if unicast (eth_src buf) then ucast (mre_ports (mac_get rt (rthash_slot (eth_src buf))))
          else ucast (mr_ctl (rt ! 0)), 0)"
proof -
  have "6 \<le> length (drop 6 buf)" using len by simp
  then obtain sh where
    sh: "nm_bridge_rthash (drop 6 buf) = Some sh" "unat sh = rthash_slot (eth_src buf)"
    unfolding eth_src_def by (metis nm_bridge_rthash_slot)
  have "length rt = MAC_BRIDGES" "length (mr_ht (rt ! 0)) = NM_BDG_HASH"
    using wf by (auto simp: wf_mac_rt_def MAC_BRIDGES_def)
  then show ?thesis
    using len sh rthash_slot_bound frame_addresses [OF len]
    by (simp add: lookup2_def arr_get_def MAC_BRIDGES_def c_loads unicast_def mac_get_def
        Let_def)
qed

section \<open>Listing\<close>

definition mac_used :: "mac_route_ent list \<Rightarrow> nat \<Rightarrow> bool" where
  "mac_used ht j \<longleftrightarrow> mre_mac (ht ! j) \<noteq> 0"

definition mac_listed :: "mac_route_ent list \<Rightarrow> nat \<Rightarrow> bdgreq \<Rightarrow> bdgreq" where
  "mac_listed ht j breq = breq\<lparr>rq_addr := map (word_byte (mre_mac (ht ! j))) [0, 1, 2, 3, 4, 5],
     rq_bdg_port := ucast (mre_ports (ht ! j)), rq_nr_arg1 := of_nat j\<rparr>"

lemma mac_bdglist_scan_next:
  assumes "length ht = NM_BDG_HASH"
  shows "mac_bdglist_scan ht (int i) breq =
    Some (case next_used (mac_used ht) NM_BDG_HASH i of
            None \<Rightarrow> (ENOENT, breq) | Some j \<Rightarrow> (0, mac_listed ht j breq))"
proof (induction "NM_BDG_HASH - i" arbitrary: i)
  case 0
  then show ?case by (simp add: mac_bdglist_scan.simps next_used_end)
next
  case (Suc k)
  then have i: "i < NM_BDG_HASH" and "k = NM_BDG_HASH - Suc i" by simp_all
  then have "mac_bdglist_scan ht (int i + 1) breq =
    Some (case next_used (mac_used ht) NM_BDG_HASH (Suc i) of
            None \<Rightarrow> (ENOENT, breq) | Some j \<Rightarrow> (0, mac_listed ht j breq))"
    using Suc.hyps(1) [of "Suc i"] by (simp add: add.commute)
  then show ?case
    using i assms
    by (subst mac_bdglist_scan.simps)
      (simp add: arr_get_def next_used_step mac_used_def mac_listed_def)
qed

section \<open>A series of control requests\<close>

definition mac_ioctls :: "kenv \<Rightarrow> mac_state \<Rightarrow> (u32 \<times> bdgreq) list \<Rightarrow> mac_state option" where
  "mac_ioctls env = run_all (\<lambda>st (cmd, breq). map_option (fst \<circ> snd) (mac_bdgctl env st cmd breq))"

text \<open>What a series of requests configured on bridge 0, the latest first.\<close>

definition mac_static_port :: "(u32 \<times> bdgreq) list \<Rightarrow> u8 list \<Rightarrow> u32 option" where
  "mac_static_port reqs m = map_option (rq_nr_dst \<circ> snd)
     (find_last (\<lambda>(cmd, r). cmd = BDGIOCADDIF \<and> rq_bdg_idx r = 0 \<and>
        rthash_slot (rq_addr r) = rthash_slot m) reqs)"

definition mac_ctl_port :: "(u32 \<times> bdgreq) list \<Rightarrow> u32 option" where
  "mac_ctl_port reqs = map_option (rq_bdg_port \<circ> snd)
     (find_last (\<lambda>(cmd, r). cmd = BDGIOCREG \<and> rq_bdg_idx r = 0) reqs)"

definition or_noport :: "u32 \<Rightarrow> u32 option \<Rightarrow> u32" where
  "or_noport mx p = (case p of None \<Rightarrow> NM_BDG_NOPORT mx | Some q \<Rightarrow> q)"

text \<open>The ports of bridge 0 and its control port, as the requests leave them.\<close>

definition mac_ports_inv :: "u32 \<Rightarrow> (u32 \<times> bdgreq) list \<Rightarrow> mac_state \<Rightarrow> bool" where
  "mac_ports_inv mx reqs st \<longleftrightarrow> wf_mac_rt (ms_rt st) \<and>
     (\<forall>m. ucast (mre_ports (mac_get (ms_rt st) (rthash_slot m))) = or_noport mx (mac_static_port reqs m)) \<and>
     ucast (mr_ctl (ms_rt st ! 0)) = or_noport mx (mac_ctl_port reqs)"

lemma cmds_distinct [simp]:
  "BDGIOCREG \<noteq> BDGIOCLIST" "BDGIOCREG \<noteq> BDGIOCADDIF" "BDGIOCLIST \<noteq> BDGIOCADDIF"
  "BDGIOCLIST \<noteq> BDGIOCREG" "BDGIOCADDIF \<noteq> BDGIOCREG" "BDGIOCADDIF \<noteq> BDGIOCLIST"
  by (simp_all add: ioctl_numbers)

lemma mac_ports_init: "mac_ports_inv mx [] (snd (mac_static_init mx))"
  using rthash_slot_bound wf_mac_init [of mx]
  by (simp add: mac_ports_inv_def mac_static_port_def mac_ctl_port_def or_noport_def
      mac_static_init_def mac_rt_zero_def mac_rt_init_def mac_get_def MAC_BRIDGES_def)

lemma mac_get_bridge0: "mac_slot (i, addr_mem r) = Some (rthash_slot m) \<longleftrightarrow>
    i = 0 \<and> rthash_slot (rq_addr r) = rthash_slot m" if "wf_req r"
proof -
  have "unat i * NM_BDG_HASH + rthash_slot (rq_addr r) = rthash_slot m \<longleftrightarrow>
      unat i = 0 \<and> rthash_slot (rq_addr r) = rthash_slot m"
    using slot_split [OF rthash_slot_bound, of "unat i" "rq_addr r"] rthash_slot_bound [of m]
    by auto
  then show ?thesis
    using that by (auto simp: mac_slot_def length_addr_mem take_addr_mem MAC_BRIDGES_def
        unat_eq_0)
qed

lemma mac_ports_step:
  assumes inv: "mac_ports_inv mx reqs st" and req: "wf_req r"
    and step: "mac_bdgctl env st cmd r = Some (ret, st', r')"
  shows "mac_ports_inv mx (reqs @ [(cmd, r)]) st'"
proof -
  have wf: "wf_mac_rt (ms_rt st)" using inv by (simp add: mac_ports_inv_def)
  consider (reg) "cmd = BDGIOCREG" | (add) "cmd = BDGIOCADDIF"
    | (other) "cmd \<noteq> BDGIOCREG" "cmd \<noteq> BDGIOCADDIF" by blast
  then show ?thesis
  proof cases
    case reg
    let ?i = "unat (rq_bdg_idx r)"
    have i: "?i < length (ms_rt st)"
      and rt': "ms_rt st' = (ms_rt st)[?i := (ms_rt st ! ?i)\<lparr>mr_ctl := ucast (rq_bdg_port r)\<rparr>]"
      using step reg by (auto simp: mac_bdgctl_def bind_eq_Some_conv arr_get_conv arr_set_conv)
    have "wf_mac_rt (ms_rt st')"
      unfolding rt' using wf i by (intro wf_mac_update) (auto simp: wf_mac_rt_def)
    moreover have "mac_get (ms_rt st') n = mac_get (ms_rt st) n" for n
      using i by (simp add: mac_get_def rt' nth_list_update)
    ultimately show ?thesis
      using inv i reg
      by (auto simp: mac_ports_inv_def mac_static_port_def mac_ctl_port_def find_last_snoc rt'
          nth_list_update or_noport_def unat_eq_0)
  next
    case add
    let ?k = "(rq_bdg_idx r, addr_mem r)"
    have put: "mac_put (ms_rt st) ?k (rq_nr_dst r) = Some (ms_rt st')"
      using step add by (auto simp: mac_bdgctl_def mac_put_def bind_eq_Some_conv)
    have "ms_rt st' ! 0 = ms_rt st ! 0 \<or> mr_ctl (ms_rt st' ! 0) = mr_ctl (ms_rt st ! 0)"
      using put wf unfolding mac_put_conv [OF wf]
      by (auto simp: nth_list_update wf_mac_rt_def)
    then have "mr_ctl (ms_rt st' ! 0) = mr_ctl (ms_rt st ! 0)" by auto
    then show ?thesis
      using inv add macs.wf_put [OF wf put] macs.get_put [OF wf put] mac_get_bridge0 [OF req]
      by (auto simp: mac_ports_inv_def mac_static_port_def mac_ctl_port_def find_last_snoc
          or_noport_def mac_entry_def)
  next
    case other
    then have "ms_rt st' = ms_rt st"
      using step by (auto simp: mac_bdgctl_def bind_eq_Some_conv split: if_splits)
    then show ?thesis
      using inv other
      by (simp add: mac_ports_inv_def mac_static_port_def mac_ctl_port_def find_last_snoc)
  qed
qed

lemma mac_ports_run:
  "\<forall>(cmd, r) \<in> set reqs. wf_req r \<Longrightarrow>
   mac_ioctls env (snd (mac_static_init mx)) reqs = Some st \<Longrightarrow> mac_ports_inv mx reqs st"
proof (induction reqs arbitrary: st rule: rev_induct)
  case Nil
  then show ?case using mac_ports_init [of mx] by (simp add: mac_ioctls_def)
next
  case (snoc x reqs)
  obtain cmd r where x: "x = (cmd, r)" by (cases x)
  from snoc.prems(2) obtain u ret r' where
    "mac_ioctls env (snd (mac_static_init mx)) reqs = Some u"
    "mac_bdgctl env u cmd r = Some (ret, st, r')"
    by (auto simp: mac_ioctls_def run_all_append x split: option.splits)
  then show ?case
    using snoc.IH snoc.prems(1) mac_ports_step [of mx reqs u r env cmd ret st r'] by (simp add: x)
qed

section \<open>Properties\<close>

text \<open>C18: After the module is loaded and any series of control requests has been served, a
  frame with a unicast source goes to the port of the last ADDIF request on bridge 0 whose
  address falls in the source's slot (no port when there is none), and one with a
  multicast source to the control port of the last REG request on bridge 0. Requests for
  the other bridges never matter, although they succeed.\<close>
theorem mac_static_forwards:
  assumes "\<forall>(cmd, r) \<in> set reqs. wf_req r"
    and "mac_ioctls env (snd (mac_static_init mx)) reqs = Some st"
    and "12 \<le> length buf"
  shows "lookup2 (ms_rt st) buf =
    Some (if unicast (eth_src buf) then or_noport mx (mac_static_port reqs (eth_src buf))
          else or_noport mx (mac_ctl_port reqs), 0)"
  using mac_ports_run [OF assms(1,2)] lookup2_get [OF _ assms(3)]
  by (simp add: mac_ports_inv_def)

definition req_add :: bdgreq where
  "req_add = \<lparr>rq_addr = [2, 0, 0, 0, 0, 15], rq_pad = [0, 0], rq_bdg_port = 0, rq_bdg_idx = 0,
     rq_nr_dst = 5, rq_nr_arg1 = 0\<rparr>"

definition env_ok :: kenv where
  "env_ok = \<lparr>malloc_ok = True, netmap_bdg_ctl = (\<lambda>_ _. 0)\<rparr>"

lemma req_add_runs:
  "\<exists>st. mac_ioctls env_ok (snd (mac_static_init 254)) [(BDGIOCADDIF, req_add)] = Some st"
  using bdgaddif2_whole [OF wf_mac_init, of "rq_bdg_idx req_add" "addr_mem req_add" 254 "rq_nr_dst req_add"]
  by (simp add: mac_ioctls_def mac_bdgctl_def req_add_def addr_mem_def MAC_BRIDGES_def)

text \<open>The witness also shows the aliasing: the source 02:00:00:00:00:20 was never configured,
  but shares the slot of 02:00:00:00:00:0f and goes to its port.\<close>
theorem mac_static_forwards_witness:
  "\<exists>st. mac_ioctls env_ok (snd (mac_static_init 254)) [(BDGIOCADDIF, req_add)] = Some st \<and>
     lookup2 (ms_rt st) ([2, 0, 0, 0, 0, 10] @ [2, 0, 0, 0, 0, 32]) = Some (5, 0)"
proof -
  let ?buf = "[2, 0, 0, 0, 0, 10] @ [2, 0, 0, 0, 0, 32] :: u8 list"
  obtain st where st: "mac_ioctls env_ok (snd (mac_static_init 254)) [(BDGIOCADDIF, req_add)] = Some st"
    using req_add_runs by blast
  have h: "\<forall>(cmd, r) \<in> set [(BDGIOCADDIF, req_add)]. wf_req r" and l: "12 \<le> length ?buf"
    by (simp_all add: wf_req_def req_add_def)
  have "rthash_slot [2, 0, 0, 0, 0, 15] = rthash_slot [2, 0, 0, 0, 0, 32]" by code_simp
  then have "mac_static_port [(BDGIOCADDIF, req_add)] (eth_src ?buf) = Some 5"
    by (simp add: mac_static_port_def find_last_def req_add_def eth_src_def)
  then show ?thesis
    using st mac_static_forwards [OF h st l]
    by (simp add: or_noport_def eth_src_def unicast_def)
qed

text \<open>The lookup compares no address: two frames whose unicast sources share a slot are
  sent to the same port, whatever has been configured.\<close>

lemma lookup2_aliases:
  assumes "wf_mac_rt rt" "12 \<le> length a" "12 \<le> length b"
    and "unicast (eth_src a)" "unicast (eth_src b)"
    and "rthash_slot (eth_src a) = rthash_slot (eth_src b)"
  shows "lookup2 rt a = lookup2 rt b"
  using assms by (simp add: lookup2_get)

text \<open>C32: A control request faults exactly when it registers and netmap's request cannot be
  allocated, when it names a bridge of number 8 or more, or when it lists from an index
  that is negative as an int: no handler checks its arguments.\<close>
theorem mac_bdgctl_fault:
  assumes "wf_mac_rt (ms_rt st)" "wf_req r"
  shows "mac_bdgctl env st cmd r = None \<longleftrightarrow>
    cmd = BDGIOCREG \<and> \<not> malloc_ok env \<or>
    cmd \<in> {BDGIOCREG, BDGIOCLIST, BDGIOCADDIF} \<and> 8 \<le> unat (rq_bdg_idx r) \<or>
    cmd = BDGIOCLIST \<and> sint (rq_nr_arg1 r) < 0"
proof -
  have len: "length (ms_rt st) = 8" and hts: "unat (rq_bdg_idx r) < 8 \<Longrightarrow>
      length (mr_ht (ms_rt st ! unat (rq_bdg_idx r))) = NM_BDG_HASH"
    using assms(1) by (auto simp: wf_mac_rt_def MAC_BRIDGES_def)
  consider (reg) "cmd = BDGIOCREG" | (list) "cmd = BDGIOCLIST" | (add) "cmd = BDGIOCADDIF"
    | (other) "cmd \<notin> {BDGIOCREG, BDGIOCLIST, BDGIOCADDIF}" by blast
  then show ?thesis
  proof cases
    case reg
    then show ?thesis
      using len by (auto simp: mac_bdgctl_def bdgfnreg_def arr_get_def arr_set_def Let_def)
  next
    case list
    have "mac_bdglist_scan (mr_ht (ms_rt st ! unat (rq_bdg_idx r))) (sint (rq_nr_arg1 r)) r = None
        \<longleftrightarrow> sint (rq_nr_arg1 r) < 0" if "unat (rq_bdg_idx r) < 8"
    proof (cases "sint (rq_nr_arg1 r) < 0")
      case True
      then show ?thesis by (subst mac_bdglist_scan.simps) simp
    next
      case False
      then show ?thesis
        using mac_bdglist_scan_next [OF hts [OF that], of "nat (sint (rq_nr_arg1 r))"] by simp
    qed
    then show ?thesis
      using list len by (auto simp: mac_bdgctl_def mac_bdglist_def arr_get_def split: Option.bind_splits)
  next
    case add
    then show ?thesis
      using len bdgaddif2_whole [OF assms(1), of "rq_bdg_idx r" "addr_mem r" "rq_nr_dst r"]
        bdgaddif2_fault [OF assms(1), of "rq_bdg_idx r" "addr_mem r" "rq_nr_dst r"]
        length_addr_mem [OF assms(2)]
      by (cases "unat (rq_bdg_idx r) < 8")
         (auto simp: mac_bdgctl_def MAC_BRIDGES_def)
  next
    case other
    then show ?thesis by (simp add: mac_bdgctl_def)
  qed
qed

theorem mac_bdgctl_fault_witness:
  "mac_bdgctl env_ok (snd (mac_static_init 254)) BDGIOCADDIF (req_add\<lparr>rq_bdg_idx := 8\<rparr>) = None"
  using mac_bdgctl_fault [OF wf_mac_init [of 254], of "req_add\<lparr>rq_bdg_idx := 8\<rparr>" env_ok BDGIOCADDIF]
  by (simp add: wf_req_def req_add_def)

end
