(* ===== verification/Ip_Static.thy ===== *)
theory Ip_Static
  imports Mac_Static
begin

text \<open>
  The static bridge of \<open>bdgfn/ip-static.c\<close>: the routing tables of its four bridges, the
  lookup function \<open>lookup3\<close>, which asks \<open>lookup2\<close> of the MAC module first, and the control
  operations. The 32-bit load of an address is that of a little-endian machine, as Xen's
  hosts are. The tables of bridge 0 are shown to implement a map from slots to ports, and
  \<open>lookup3\<close> is stated over that map.
\<close>

section \<open>State\<close>

record ip_route_ent =
  ire_addr :: u64
  ire_ports :: u64

record ip_route =
  ir_ht :: "ip_route_ent list"
  ir_ctl :: u64

definition IP_BRIDGES :: nat where "IP_BRIDGES = 4"

definition wf_ip_rt :: "ip_route list \<Rightarrow> bool" where
  "wf_ip_rt rt \<longleftrightarrow> length rt = IP_BRIDGES \<and> (\<forall>r \<in> set rt. length (ir_ht r) = IP_BDG_HASH)"

section \<open>Lookup\<close>

definition ETHERTYPE_IP :: nat where "ETHERTYPE_IP = 0x0800"
definition ETHERTYPE_IPV6 :: nat where "ETHERTYPE_IPV6 = 0x86dd"
definition ETHER_ADDR_LEN :: nat where "ETHER_ADDR_LEN = 6"
definition ETHER_HDR_LEN :: nat where "ETHER_HDR_LEN = 14"

text \<open>Offsets of the addresses in \<open>struct ip\<close> and \<open>struct ip6_hdr\<close>.\<close>

definition ip_src_off :: nat where "ip_src_off = 12"
definition ip_dst_off :: nat where "ip_dst_off = 16"
definition ip6_src_off :: nat where "ip6_src_off = 8"
definition ip6_dst_off :: nat where "ip6_dst_off = 24"

definition ntohs_at :: "u8 list \<Rightarrow> nat option" where
  "ntohs_at p = do { hi \<leftarrow> rd8 p 0; lo \<leftarrow> rd8 p 1; Some (unat hi * 256 + unat lo) }"

definition lookup3 ::
  "u32 \<Rightarrow> mac_route list \<Rightarrow> ip_route list \<Rightarrow> u8 list \<Rightarrow> (u32 \<times> u8) option" where
  "lookup3 maxports mac_rt rt buf = do {
     r \<leftarrow> arr_get rt 0;
     let ht = ir_ht r;
     let ctl = (ucast (ir_ctl r) :: u32);
     (dst, _) \<leftarrow> lookup2 mac_rt buf;
     if dst \<noteq> NM_BDG_NOPORT maxports then Some (dst, 0)
     else do {
       ether_type \<leftarrow> ntohs_at (drop (ETHER_ADDR_LEN * 2) buf);
       let iph = drop ETHER_HDR_LEN buf;
       let (saddr, daddr) =
         (if ether_type = ETHERTYPE_IP then (Some (drop ip_src_off iph), Some (drop ip_dst_off iph))
          else if ether_type = ETHERTYPE_IPV6
            then (Some (drop ip6_src_off iph), Some (drop ip6_dst_off iph))
          else (None, None));
       dst \<leftarrow> (case saddr of
                None \<Rightarrow> Some dst
              | Some s \<Rightarrow> do {
                  sh \<leftarrow> iphash2 s;
                  e \<leftarrow> arr_get ht (unat sh);
                  Some (ucast (ire_ports e))
                });
       dst \<leftarrow> (case daddr of
                None \<Rightarrow> Some dst
              | Some d \<Rightarrow>
                  if dst = ctl then do {
                    dh \<leftarrow> iphash2 d;
                    e \<leftarrow> arr_get ht (unat dh);
                    Some (ucast (ire_ports e))
                  } else Some dst);
       Some (dst, 0)
     }
   }"

section \<open>Control operations\<close>

definition le32 :: "u8 list \<Rightarrow> u32 option" where
  "le32 p = (if 4 \<le> length p then Some (ucast (le_word (take 4 p))) else None)"

definition bdgaddif3 :: "ip_route list \<Rightarrow> u8 list \<Rightarrow> u32 \<Rightarrow> u32 \<Rightarrow> (int \<times> ip_route list) option" where
  "bdgaddif3 rt s bdg_idx dst = do {
     r \<leftarrow> arr_get rt (unat bdg_idx);
     sh \<leftarrow> iphash2 s;
     w \<leftarrow> le32 s;
     let ip_src = w AND 0xffffffff;
     ht \<leftarrow> arr_set (ir_ht r) (unat sh) \<lparr>ire_addr = ucast ip_src, ire_ports = ucast dst\<rparr>;
     rt \<leftarrow> arr_set rt (unat bdg_idx) (r\<lparr>ir_ht := ht\<rparr>);
     Some (0, rt)
   }"

function ip_bdglist_scan :: "ip_route_ent list \<Rightarrow> int \<Rightarrow> bdgreq \<Rightarrow> (int \<times> bdgreq) option" where
  "ip_bdglist_scan ht i breq =
     (if i \<ge> int IP_BDG_HASH then Some (ENOENT, breq)
      else if i < 0 then None
      else case arr_get ht (nat i) of
        None \<Rightarrow> None
      | Some e \<Rightarrow>
          if ire_addr e = 0 then ip_bdglist_scan ht (i + 1) breq
          else Some (0, breq\<lparr>rq_addr := map (word_byte (ire_addr e)) [0, 1, 2, 3] @ drop 4 (rq_addr breq),
                              rq_bdg_port := ucast (ire_ports e),
                              rq_nr_arg1 := of_int i\<rparr>))"
  by pat_completeness auto
termination
  by (relation "measure (\<lambda>(ht, i, breq). nat (int IP_BDG_HASH - i))") auto

declare ip_bdglist_scan.simps [simp del]

definition ip_bdglist :: "ip_route list \<Rightarrow> u32 \<Rightarrow> bdgreq \<Rightarrow> (int \<times> bdgreq) option" where
  "ip_bdglist rt xiter breq = do {
     r \<leftarrow> arr_get rt (unat (rq_bdg_idx breq));
     ip_bdglist_scan (ir_ht r) (sint xiter) breq
   }"

definition ip_rt_init :: "u32 \<Rightarrow> ip_route \<Rightarrow> u32 \<Rightarrow> ip_route" where
  "ip_rt_init maxports r ctl =
     r\<lparr>ir_ctl := ucast (NM_BDG_NOPORT maxports),
       ir_ht := map (\<lambda>e. e\<lparr>ire_ports := ucast ctl\<rparr>) (ir_ht r)\<rparr>"

record ip_state =
  is_rt :: "ip_route list"
  is_regs :: "(string \<times> lookup_fn) list"

definition ip_bdgctl ::
  "u32 \<Rightarrow> kenv \<Rightarrow> ip_state \<Rightarrow> u32 \<Rightarrow> bdgreq \<Rightarrow> (int \<times> ip_state \<times> bdgreq) option" where
  "ip_bdgctl maxports env st cmd breq =
     (if cmd = BDGIOCREG then do {
        (ret, reg) \<leftarrow> bdgfnreg env (rq_bdg_idx breq) Lookup3;
        r \<leftarrow> arr_get (is_rt st) (unat (rq_bdg_idx breq));
        let r = ip_rt_init maxports r (rq_bdg_port breq);
        rt \<leftarrow> arr_set (is_rt st) (unat (rq_bdg_idx breq)) (r\<lparr>ir_ctl := ucast (rq_bdg_port breq)\<rparr>);
        Some (ret, \<lparr>is_rt = rt, is_regs = reg # is_regs st\<rparr>, breq)
      }
      else if cmd = BDGIOCLIST then do {
        (ret, breq') \<leftarrow> ip_bdglist (is_rt st) (rq_nr_arg1 breq) breq;
        Some (ret, st, breq')
      }
      else if cmd = BDGIOCADDIF then do {
        (ret, rt) \<leftarrow> bdgaddif3 (is_rt st) (addr_mem breq) (rq_bdg_idx breq) (rq_nr_dst breq);
        Some (ret, st\<lparr>is_rt := rt\<rparr>, breq)
      }
      else Some (0, st, breq))"

definition ip_static_init :: "int \<times> ip_state" where
  "ip_static_init = (0, \<lparr>is_rt = replicate IP_BRIDGES
     \<lparr>ir_ht = replicate IP_BDG_HASH \<lparr>ire_addr = 0, ire_ports = 0\<rparr>, ir_ctl = 0\<rparr>, is_regs = []\<rparr>)"

definition ip_static_exit :: "kenv \<Rightarrow> ip_state \<Rightarrow> ip_state option" where
  "ip_static_exit env st = do {
     (_, reg) \<leftarrow> bdgfnreg env 0 Bdg_learning;
     Some (st\<lparr>is_regs := reg # is_regs st\<rparr>)
   }"

section \<open>bdgaddif3 is a table store\<close>

definition iph_slot :: "u8 list \<Rightarrow> nat" where
  "iph_slot a = (case iphash2 a of None \<Rightarrow> 0 | Some h \<Rightarrow> unat h)"

lemma iph_slot_bound: "iph_slot a < IP_BDG_HASH"
  using iphash2_bound [of a] by (auto simp: iph_slot_def IP_BDG_HASH_def split: option.splits)

lemma iphash2_slot:
  assumes "4 \<le> length a"
  obtains h where "iphash2 a = Some h" "unat h = iph_slot a"
  using iphash2_Some [OF assms] by (metis iph_slot_def option.case(2))

definition ip_slot :: "u32 \<times> u8 list \<Rightarrow> nat option" where
  "ip_slot k = (case k of (i, a) \<Rightarrow>
     if unat i < IP_BRIDGES \<and> 4 \<le> length a then Some (unat i * IP_BDG_HASH + iph_slot a) else None)"

definition ip_entry :: "u32 \<times> u8 list \<Rightarrow> u32 \<Rightarrow> ip_route_ent" where
  "ip_entry k dst = \<lparr>ire_addr = le_word (take 4 (snd k)), ire_ports = ucast dst\<rparr>"

definition ip_put :: "ip_route list \<Rightarrow> u32 \<times> u8 list \<Rightarrow> u32 \<Rightarrow> ip_route list option" where
  "ip_put rt k dst = map_option snd (bdgaddif3 rt (snd k) (fst k) dst)"

definition ip_get :: "ip_route list \<Rightarrow> nat \<Rightarrow> ip_route_ent" where
  "ip_get rt n = ir_ht (rt ! (n div IP_BDG_HASH)) ! (n mod IP_BDG_HASH)"

lemma wf_ip_update:
  "wf_ip_rt rt \<Longrightarrow> length (ir_ht r) = IP_BDG_HASH \<Longrightarrow> wf_ip_rt (rt[i := r])"
  by (auto simp: wf_ip_rt_def dest: set_update_subset_insert [THEN subsetD])

lemma wf_ip_rt_nth: "wf_ip_rt rt \<Longrightarrow> i < IP_BRIDGES \<Longrightarrow> length (ir_ht (rt ! i)) = IP_BDG_HASH"
  by (simp add: wf_ip_rt_def)

lemma ucast_le_word4:
  "length a = 4 \<Longrightarrow> ucast (ucast (le_word a) AND 0xffffffff :: u32) = le_word a"
proof (rule bit_word_eqI)
  fix n assume a: "length a = 4" and "n < LENGTH(64)"
  have "(0xffffffff :: u32) = mask 32" by (simp add: mask_eq_exp_minus_1)
  then have "(ucast (le_word a) AND 0xffffffff :: u32) = ucast (le_word a)"
    by (simp only: take_bit_eq_mask [symmetric]) (simp add: take_bit_word_eq_self)
  then show "bit (ucast (ucast (le_word a) AND 0xffffffff :: u32) :: u64) n = bit (le_word a) n"
    using a by (auto simp: bit_ucast_iff bit_le_word)
qed

lemma bdgaddif3_whole:
  assumes "wf_ip_rt rt" "unat i < IP_BRIDGES" "4 \<le> length s"
  shows "bdgaddif3 rt s i dst =
    Some (0, rt[unat i := (rt ! unat i)\<lparr>ir_ht :=
      (ir_ht (rt ! unat i))[iph_slot s := ip_entry (i, s) dst]\<rparr>])"
proof -
  obtain sh where "iphash2 s = Some sh" "unat sh = iph_slot s"
    using assms(3) by (rule iphash2_slot)
  moreover have "length (take 4 s) = 4" using assms(3) by simp
  ultimately show ?thesis
    using assms iph_slot_bound wf_ip_rt_nth [OF assms(1,2)] ucast_le_word4 [of "take 4 s"]
    by (simp add: bdgaddif3_def arr_get_def arr_set_def le32_def ip_entry_def wf_ip_rt_def Let_def)
qed

lemma bdgaddif3_fault:
  "wf_ip_rt rt \<Longrightarrow> \<not> (unat i < IP_BRIDGES \<and> 4 \<le> length s) \<Longrightarrow> bdgaddif3 rt s i dst = None"
  by (auto simp: bdgaddif3_def wf_ip_rt_def arr_get_def le32_def Let_def split: Option.bind_splits)

lemma ip_put_conv:
  "wf_ip_rt rt \<Longrightarrow> ip_put rt k dst = Some rt' \<longleftrightarrow>
     (\<exists>i s. k = (i, s) \<and> unat i < IP_BRIDGES \<and> 4 \<le> length s \<and>
       rt' = rt[unat i := (rt ! unat i)\<lparr>ir_ht :=
         (ir_ht (rt ! unat i))[iph_slot s := ip_entry k dst]\<rparr>])"
  using bdgaddif3_whole [of rt "fst k" "snd k" dst] bdgaddif3_fault [of rt "fst k" "snd k" dst]
  by (cases "unat (fst k) < IP_BRIDGES \<and> 4 \<le> length (snd k)"; cases k) (auto simp: ip_put_def)

lemma ip_slot_split:
  assumes "s < IP_BDG_HASH"
  shows "i * IP_BDG_HASH + s = n \<longleftrightarrow> i = n div IP_BDG_HASH \<and> s = n mod IP_BDG_HASH"
  using assms by (auto simp: IP_BDG_HASH_def)

lemma ip_get_put:
  assumes wf: "wf_ip_rt rt" and put: "ip_put rt k dst = Some rt'"
  shows "ip_get rt' n = (if ip_slot k = Some n then ip_entry k dst else ip_get rt n)"
proof -
  obtain i s where k: "k = (i, s)" and i: "unat i < IP_BRIDGES" and s: "4 \<le> length s"
    and rt': "rt' = rt[unat i := (rt ! unat i)\<lparr>ir_ht :=
         (ir_ht (rt ! unat i))[iph_slot s := ip_entry k dst]\<rparr>]"
    using put unfolding ip_put_conv [OF wf] by blast
  have len: "length rt = IP_BRIDGES" "length (ir_ht (rt ! unat i)) = IP_BDG_HASH"
    using wf i by (auto simp: wf_ip_rt_def)
  have "ip_slot k = Some n \<longleftrightarrow> unat i = n div IP_BDG_HASH \<and> iph_slot s = n mod IP_BDG_HASH"
    using i s ip_slot_split [OF iph_slot_bound] by (simp add: ip_slot_def k)
  moreover have "n mod IP_BDG_HASH < IP_BDG_HASH" by (simp add: IP_BDG_HASH_def)
  ultimately show ?thesis
    using i len iph_slot_bound by (auto simp: ip_get_def rt' nth_list_update)
qed

lemma ip_put_wf:
  "wf_ip_rt rt \<Longrightarrow> ip_put rt k dst = Some rt' \<Longrightarrow> wf_ip_rt rt'"
  by (auto simp: ip_put_conv wf_ip_rt_nth intro!: wf_ip_update)

interpretation ips: slot_table ip_slot ip_entry ip_put ip_get wf_ip_rt
proof unfold_locales
  fix t k s v assume "wf_ip_rt t" "ip_slot k = Some s"
  then show "\<exists>t'. ip_put t k v = Some t'"
    by (cases k) (auto simp: ip_put_conv ip_slot_def split: if_splits)
next
  fix t k v assume "wf_ip_rt t" "ip_slot k = None"
  then show "ip_put t k v = None"
    using bdgaddif3_fault [of t "fst k" "snd k" v]
    by (cases k) (simp add: ip_put_def ip_slot_def split: if_splits)
qed (rule ip_get_put ip_put_wf, assumption+)+

section \<open>Listing\<close>

definition ip_used :: "ip_route_ent list \<Rightarrow> nat \<Rightarrow> bool" where
  "ip_used ht j \<longleftrightarrow> ire_addr (ht ! j) \<noteq> 0"

definition ip_listed :: "ip_route_ent list \<Rightarrow> nat \<Rightarrow> bdgreq \<Rightarrow> bdgreq" where
  "ip_listed ht j breq = breq\<lparr>
     rq_addr := map (word_byte (ire_addr (ht ! j))) [0, 1, 2, 3] @ drop 4 (rq_addr breq),
     rq_bdg_port := ucast (ire_ports (ht ! j)), rq_nr_arg1 := of_nat j\<rparr>"

lemma ip_bdglist_scan_next:
  assumes "length ht = IP_BDG_HASH"
  shows "ip_bdglist_scan ht (int i) breq =
    Some (case next_used (ip_used ht) IP_BDG_HASH i of
            None \<Rightarrow> (ENOENT, breq) | Some j \<Rightarrow> (0, ip_listed ht j breq))"
proof (induction "IP_BDG_HASH - i" arbitrary: i)
  case 0
  then show ?case by (simp add: ip_bdglist_scan.simps next_used_end)
next
  case (Suc k)
  then have i: "i < IP_BDG_HASH" and "k = IP_BDG_HASH - Suc i" by simp_all
  then have "ip_bdglist_scan ht (int i + 1) breq =
    Some (case next_used (ip_used ht) IP_BDG_HASH (Suc i) of
            None \<Rightarrow> (ENOENT, breq) | Some j \<Rightarrow> (0, ip_listed ht j breq))"
    using Suc.hyps(1) [of "Suc i"] by (simp add: add.commute)
  then show ?case
    using i assms
    by (subst ip_bdglist_scan.simps)
      (simp add: arr_get_def next_used_step ip_used_def ip_listed_def)
qed

section \<open>The map that the tables of bridge 0 implement\<close>

record ip_spec =
  sp_port :: "nat \<Rightarrow> u32"
  sp_ctl :: u32

definition ip_spec_init :: ip_spec where
  "ip_spec_init = \<lparr>sp_port = (\<lambda>_. 0), sp_ctl = 0\<rparr>"

definition ip_spec_step :: "ip_spec \<Rightarrow> u32 \<times> bdgreq \<Rightarrow> ip_spec" where
  "ip_spec_step S x = (case x of (cmd, r) \<Rightarrow>
     if rq_bdg_idx r \<noteq> 0 then S
     else if cmd = BDGIOCREG then \<lparr>sp_port = (\<lambda>_. rq_bdg_port r), sp_ctl = rq_bdg_port r\<rparr>
     else if cmd = BDGIOCADDIF
       then S\<lparr>sp_port := (sp_port S)(iph_slot (rq_addr r) := rq_nr_dst r)\<rparr>
     else S)"

definition ip_refines :: "ip_spec \<Rightarrow> ip_state \<Rightarrow> bool" where
  "ip_refines S st \<longleftrightarrow> wf_ip_rt (is_rt st) \<and>
     (\<forall>n < IP_BDG_HASH. ucast (ire_ports (ip_get (is_rt st) n)) = sp_port S n) \<and>
     ucast (ir_ctl (is_rt st ! 0)) = sp_ctl S"

definition ip_ioctls :: "u32 \<Rightarrow> kenv \<Rightarrow> ip_state \<Rightarrow> (u32 \<times> bdgreq) list \<Rightarrow> ip_state option" where
  "ip_ioctls mx env =
     run_all (\<lambda>st (cmd, breq). map_option (fst \<circ> snd) (ip_bdgctl mx env st cmd breq))"

lemma ip_refines_init: "ip_refines ip_spec_init (snd ip_static_init)"
  by (simp add: ip_refines_def ip_spec_init_def ip_static_init_def wf_ip_rt_def ip_get_def
      IP_BRIDGES_def)

lemma iph_slot_addr_mem: "wf_req r \<Longrightarrow> iph_slot (addr_mem r) = iph_slot (rq_addr r)"
  using iphash2_take [of 6 "addr_mem r"] by (simp add: iph_slot_def take_addr_mem)

lemma ip_slot_bridge0:
  assumes "wf_req r" "n < IP_BDG_HASH"
  shows "ip_slot (i, addr_mem r) = Some n \<longleftrightarrow> i = 0 \<and> iph_slot (rq_addr r) = n"
proof -
  have "unat i * IP_BDG_HASH + iph_slot (rq_addr r) = n \<longleftrightarrow>
      unat i = 0 \<and> iph_slot (rq_addr r) = n"
    using ip_slot_split [OF iph_slot_bound, of "unat i" "rq_addr r"] assms(2) by auto
  then show ?thesis
    using assms(1) by (auto simp: ip_slot_def length_addr_mem iph_slot_addr_mem IP_BRIDGES_def
        unat_eq_0)
qed

lemma ip_reg_tables:
  assumes wf: "wf_ip_rt (is_rt st)" and step: "ip_bdgctl mx env st BDGIOCREG r = Some (ret, st', r')"
  shows "unat (rq_bdg_idx r) < IP_BRIDGES \<and> wf_ip_rt (is_rt st') \<and>
    ir_ctl (is_rt st' ! 0) =
      (if rq_bdg_idx r = 0 then ucast (rq_bdg_port r) else ir_ctl (is_rt st ! 0)) \<and>
    (\<forall>n < IP_BDG_HASH. ip_get (is_rt st') n =
      (if rq_bdg_idx r = 0 then (ip_get (is_rt st) n)\<lparr>ire_ports := ucast (rq_bdg_port r)\<rparr>
       else ip_get (is_rt st) n))"
proof -
  let ?i = "unat (rq_bdg_idx r)"
  have i: "?i < IP_BRIDGES"
    and rt': "is_rt st' = (is_rt st)[?i :=
      (ip_rt_init mx (is_rt st ! ?i) (rq_bdg_port r))\<lparr>ir_ctl := ucast (rq_bdg_port r)\<rparr>]"
    using step wf
    by (auto simp: ip_bdgctl_def bind_eq_Some_conv arr_get_conv arr_set_conv Let_def wf_ip_rt_def)
  moreover have "length (is_rt st) = IP_BRIDGES" using wf by (simp add: wf_ip_rt_def)
  moreover have "wf_ip_rt (is_rt st')"
    unfolding rt' using wf i by (intro wf_ip_update) (simp_all add: ip_rt_init_def wf_ip_rt_nth)
  ultimately show ?thesis
    using wf_ip_rt_nth [OF wf i]
    by (auto simp: ip_get_def ip_rt_init_def nth_list_update unat_eq_0)
qed

text \<open>
  Every control request that is served changes the tables of bridge 0 as the
  specification map says: REG sets every slot and the control port to the given port, ADDIF
  sets the slot of the address, LIST and the requests for other bridges change nothing.
\<close>

lemma ip_step_refines:
  assumes "ip_refines S st" "wf_req r"
    and "ip_bdgctl mx env st cmd r = Some (ret, st', r')"
  shows "ip_refines (ip_spec_step S (cmd, r)) st'"
proof -
  have wf: "wf_ip_rt (is_rt st)" using assms(1) by (simp add: ip_refines_def)
  consider (reg) "cmd = BDGIOCREG" | (add) "cmd = BDGIOCADDIF"
    | (other) "cmd \<noteq> BDGIOCREG" "cmd \<noteq> BDGIOCADDIF" by blast
  then show ?thesis
  proof cases
    case reg
    then show ?thesis
      using assms(1) ip_reg_tables [OF wf, of mx env r ret st' r'] assms(3)
      by (auto simp: ip_refines_def ip_spec_step_def)
  next
    case add
    let ?k = "(rq_bdg_idx r, addr_mem r)"
    have put: "ip_put (is_rt st) ?k (rq_nr_dst r) = Some (is_rt st')"
      using assms(3) add by (auto simp: ip_bdgctl_def ip_put_def bind_eq_Some_conv)
    have "ir_ctl (is_rt st' ! 0) = ir_ctl (is_rt st ! 0)"
      using put wf unfolding ip_put_conv [OF wf]
      by (auto simp: nth_list_update wf_ip_rt_def)
    then show ?thesis
      using assms(1) add ips.wf_put [OF wf put] ips.get_put [OF wf put]
      by (auto simp: ip_refines_def ip_spec_step_def ip_entry_def ip_slot_bridge0 [OF assms(2)])
  next
    case other
    then have "is_rt st' = is_rt st"
      using assms(3) by (auto simp: ip_bdgctl_def bind_eq_Some_conv split: if_splits)
    then show ?thesis
      using assms(1) other by (auto simp: ip_refines_def ip_spec_step_def)
  qed
qed

lemma ip_refines_run:
  "\<forall>(cmd, r) \<in> set reqs. wf_req r \<Longrightarrow> ip_ioctls mx env st reqs = Some st' \<Longrightarrow> ip_refines S st \<Longrightarrow>
   ip_refines (foldl ip_spec_step S reqs) st'"
proof (induction reqs arbitrary: S st)
  case Nil
  then show ?case by (simp add: ip_ioctls_def)
next
  case (Cons x reqs)
  obtain cmd r where x: "x = (cmd, r)" by (cases x)
  from Cons.prems(2) obtain ret u r' where
    u: "ip_bdgctl mx env st cmd r = Some (ret, u, r')" and rest: "ip_ioctls mx env u reqs = Some st'"
    by (auto simp: ip_ioctls_def x split: option.splits)
  have "ip_refines (ip_spec_step S (cmd, r)) u"
    using Cons.prems(1,3) u x by (intro ip_step_refines) auto
  then show ?case using Cons.IH [OF _ rest] Cons.prems(1) by (simp add: x)
qed

section \<open>The lookup over the map\<close>

text \<open>The source and destination of an IPv4 or IPv6 frame, each from its first octet on.\<close>

definition ip_addresses :: "u8 list \<Rightarrow> (u8 list \<times> u8 list) option" where
  "ip_addresses buf =
     (if buf ! 12 = 0x08 \<and> buf ! 13 = 0x00 then Some (drop 26 buf, drop 30 buf)
      else if buf ! 12 = 0x86 \<and> buf ! 13 = 0xdd then Some (drop 22 buf, drop 38 buf)
      else None)"

definition ip_forward :: "ip_spec \<Rightarrow> u32 \<Rightarrow> u32 \<Rightarrow> u8 list \<Rightarrow> u32" where
  "ip_forward S noport mac_dst buf =
     (if mac_dst \<noteq> noport then mac_dst
      else case ip_addresses buf of
        None \<Rightarrow> noport
      | Some (s, d) \<Rightarrow>
          let p = sp_port S (iph_slot s)
          in if p = sp_ctl S then sp_port S (iph_slot d) else p)"

lemma ether_type_eq:
  assumes "14 \<le> length buf" "hi < 256" "lo < 256"
  shows "ntohs_at (drop 12 buf) = Some (hi * 256 + lo) \<longleftrightarrow>
    unat (buf ! 12) = hi \<and> unat (buf ! 13) = lo"
  using assms octet_pair_eq [OF unat_u8_less [of "buf ! 13"] assms(3), of "unat (buf ! 12)" hi]
  by (auto simp: ntohs_at_def rd8_Some)

lemma ether_type_cases:
  assumes "14 \<le> length buf"
  obtains t where "ntohs_at (drop 12 buf) = Some t"
    "t = ETHERTYPE_IP \<longleftrightarrow> buf ! 12 = 0x08 \<and> buf ! 13 = 0x00"
    "t = ETHERTYPE_IPV6 \<longleftrightarrow> buf ! 12 = 0x86 \<and> buf ! 13 = 0xdd"
proof -
  obtain t where t: "ntohs_at (drop 12 buf) = Some t"
    using assms by (simp add: ntohs_at_def rd8_Some)
  have u: "unat x = 0x08 \<longleftrightarrow> x = 0x08" "unat x = 0 \<longleftrightarrow> x = 0" "unat x = 0x86 \<longleftrightarrow> x = 0x86"
    "unat x = 0xdd \<longleftrightarrow> x = 0xdd" for x :: u8
    by (simp_all add: word_unat_eq_iff)
  show thesis
    using ether_type_eq [of buf "0x08" "0x00"] ether_type_eq [of buf "0x86" "0xdd"] assms t
    by (intro that [OF t]) (simp_all add: ETHERTYPE_IP_def ETHERTYPE_IPV6_def u)
qed

lemma lookup3_forward:
  assumes ref: "ip_refines S st" and len: "42 \<le> length buf"
    and mac: "lookup2 mac_rt buf = Some (d, x)"
  shows "lookup3 mx mac_rt (is_rt st) buf = Some (ip_forward S (NM_BDG_NOPORT mx) d buf, 0)"
proof -
  have rt: "length (is_rt st) = IP_BRIDGES" "length (ir_ht (is_rt st ! 0)) = IP_BDG_HASH"
    using ref by (auto simp: ip_refines_def wf_ip_rt_def IP_BRIDGES_def)
  have ctl: "ucast (ir_ctl (is_rt st ! 0)) = sp_ctl S" using ref by (simp add: ip_refines_def)
  have slot: "\<exists>h. iphash2 a = Some h \<and> unat h < IP_BDG_HASH \<and>
      ucast (ire_ports (ir_ht (is_rt st ! 0) ! unat h)) = sp_port S (iph_slot a)"
    if "4 \<le> length a" for a
  proof -
    from \<open>4 \<le> length a\<close> obtain h where "iphash2 a = Some h" "unat h = iph_slot a"
      by (rule iphash2_slot)
    then show ?thesis
      using ref iph_slot_bound [of a] by (auto simp: ip_refines_def ip_get_def)
  qed
  have "14 \<le> length buf" using len by simp
  then obtain t where t: "ntohs_at (drop 12 buf) = Some t"
    "t = ETHERTYPE_IP \<longleftrightarrow> buf ! 12 = 0x08 \<and> buf ! 13 = 0x00"
    "t = ETHERTYPE_IPV6 \<longleftrightarrow> buf ! 12 = 0x86 \<and> buf ! 13 = 0xdd" by (rule ether_type_cases)
  have eqs: "ETHER_ADDR_LEN * 2 = 12" "drop (ip_src_off + ETHER_HDR_LEN) buf = drop 26 buf"
    "drop (ip_dst_off + ETHER_HDR_LEN) buf = drop 30 buf"
    "drop (ip6_src_off + ETHER_HDR_LEN) buf = drop 22 buf"
    "drop (ip6_dst_off + ETHER_HDR_LEN) buf = drop 38 buf"
    by (simp_all add: ETHER_ADDR_LEN_def ETHER_HDR_LEN_def ip_src_off_def ip_dst_off_def
        ip6_src_off_def ip6_dst_off_def)
  show ?thesis
  proof (cases "d = NM_BDG_NOPORT mx")
    case False
    then show ?thesis
      using rt by (simp add: lookup3_def arr_get_def IP_BRIDGES_def mac ip_forward_def Let_def)
  next
    case True
    note defs = lookup3_def arr_get_def IP_BRIDGES_def mac ip_forward_def ip_addresses_def
      Let_def ctl eqs t(1)
    have L: "4 \<le> length (drop 22 buf)" "4 \<le> length (drop 26 buf)" "4 \<le> length (drop 30 buf)"
      "4 \<le> length (drop 38 buf)" using len by simp_all
    have ne: "ETHERTYPE_IPV6 \<noteq> ETHERTYPE_IP"
      by (simp add: ETHERTYPE_IP_def ETHERTYPE_IPV6_def)
    consider (v4) "t = ETHERTYPE_IP" | (v6) "t = ETHERTYPE_IPV6"
      | (other) "t \<noteq> ETHERTYPE_IP" "t \<noteq> ETHERTYPE_IPV6" by blast
    then show ?thesis
    proof cases
      case v4
      obtain h k where "iphash2 (drop 26 buf) = Some h" "unat h < IP_BDG_HASH"
        "ucast (ire_ports (ir_ht (is_rt st ! 0) ! unat h)) = sp_port S (iph_slot (drop 26 buf))"
        "iphash2 (drop 30 buf) = Some k" "unat k < IP_BDG_HASH"
        "ucast (ire_ports (ir_ht (is_rt st ! 0) ! unat k)) = sp_port S (iph_slot (drop 30 buf))"
        using slot [OF L(2)] slot [OF L(3)] by blast
      then show ?thesis using rt True v4 t(2) by (simp add: defs)
    next
      case v6
      obtain h k where "iphash2 (drop 22 buf) = Some h" "unat h < IP_BDG_HASH"
        "ucast (ire_ports (ir_ht (is_rt st ! 0) ! unat h)) = sp_port S (iph_slot (drop 22 buf))"
        "iphash2 (drop 38 buf) = Some k" "unat k < IP_BDG_HASH"
        "ucast (ire_ports (ir_ht (is_rt st ! 0) ! unat k)) = sp_port S (iph_slot (drop 38 buf))"
        using slot [OF L(1)] slot [OF L(4)] by blast
      then show ?thesis using rt True v6 t(2,3) ne by (simp add: defs)
    next
      case other
      then show ?thesis using rt True t(2,3) by (auto simp: defs)
    qed
  qed
qed

section \<open>Properties\<close>

text \<open>C19: After the module is loaded and any series of control requests has been served, a
  frame the MAC module does not place is sent, if it is IPv4 or IPv6, to the port of its
  source address in the map the requests build, or of its destination address when the
  source only has the control port; any other frame goes to no port. The MAC module's
  answer comes first when it has one.\<close>
theorem ip_static_forwards:
  assumes "\<forall>(cmd, r) \<in> set reqs. wf_req r"
    and "ip_ioctls mx env (snd ip_static_init) reqs = Some st"
    and "lookup2 mac_rt buf = Some (d, x)" and "42 \<le> length buf"
  shows "lookup3 mx mac_rt (is_rt st) buf =
    Some (ip_forward (foldl ip_spec_step ip_spec_init reqs) (NM_BDG_NOPORT mx) d buf, 0)"
  using ip_refines_run [OF assms(1,2) ip_refines_init] assms(4,3) by (rule lookup3_forward)

text \<open>The witness registers bridge 0 with control port 9, routes 10.0.7.1 to port 4, and
  sends a frame from an unknown source to that address.\<close>

definition ip_req :: bdgreq where
  "ip_req = \<lparr>rq_addr = [10, 0, 7, 1, 0, 0], rq_pad = [0, 0], rq_bdg_port = 9, rq_bdg_idx = 0,
     rq_nr_dst = 4, rq_nr_arg1 = 0\<rparr>"

definition ip_frame :: "u8 list" where
  "ip_frame = [2, 0, 0, 0, 0, 1] @ [2, 0, 0, 0, 0, 2] @ [8, 0] @ replicate 12 0 @
     [192, 168, 0, 3] @ [10, 0, 7, 1] @ replicate 8 0"

lemma ip_req_runs:
  "\<exists>st. ip_ioctls 254 env_ok (snd ip_static_init) [(BDGIOCREG, ip_req), (BDGIOCADDIF, ip_req)] = Some st"
proof -
  obtain ret st r' where st: "ip_bdgctl 254 env_ok (snd ip_static_init) BDGIOCREG ip_req = Some (ret, st, r')"
    by (simp add: ip_bdgctl_def bdgfnreg_def env_ok_def ip_req_def ip_static_init_def arr_get_def
        arr_set_def IP_BRIDGES_def Let_def)
  have "wf_ip_rt (is_rt st)"
    using ip_reg_tables [OF _ st] ip_refines_init by (simp add: ip_refines_def)
  then obtain rt where "bdgaddif3 (is_rt st) (addr_mem ip_req) 0 4 = Some (0, rt)"
    using bdgaddif3_whole by (force simp: addr_mem_def ip_req_def IP_BRIDGES_def)
  then show ?thesis
    using st by (simp add: ip_ioctls_def) (simp add: ip_bdgctl_def ip_req_def)
qed

lemma lookup2_frame: "lookup2 (ms_rt (snd (mac_static_init 254))) ip_frame = Some (255, 0)"
  using mac_ports_init [of 254] lookup2_get [OF wf_mac_init, of ip_frame]
  by (simp add: mac_ports_inv_def ip_frame_def unicast_def eth_src_def or_noport_def
      mac_static_port_def NM_BDG_NOPORT_def)

lemma ip_forward_sample:
  "ip_forward (foldl ip_spec_step ip_spec_init [(BDGIOCREG, ip_req), (BDGIOCADDIF, ip_req)])
     (NM_BDG_NOPORT 254) 255 ip_frame = 4"
proof -
  have "iph_slot [192, 168, 0, 3 :: u8] \<noteq> iph_slot [10, 0, 7, 1]" by code_simp
  moreover have "iph_slot (drop 26 ip_frame) = iph_slot [192, 168, 0, 3]"
    "iph_slot (drop 30 ip_frame) = iph_slot [10, 0, 7, 1]"
    "iph_slot (rq_addr ip_req) = iph_slot [10, 0, 7, 1]" by code_simp+
  ultimately show ?thesis
    by (simp add: ip_forward_def ip_addresses_def ip_spec_step_def)
       (simp add: NM_BDG_NOPORT_def ip_req_def ip_frame_def)
qed

theorem ip_static_forwards_witness:
  "\<exists>st. ip_ioctls 254 env_ok (snd ip_static_init)
       [(BDGIOCREG, ip_req), (BDGIOCADDIF, ip_req)] = Some st \<and>
     lookup3 254 (ms_rt (snd (mac_static_init 254))) (is_rt st) ip_frame = Some (4, 0)"
proof -
  let ?reqs = "[(BDGIOCREG, ip_req), (BDGIOCADDIF, ip_req)]"
  obtain st where st: "ip_ioctls 254 env_ok (snd ip_static_init) ?reqs = Some st"
    using ip_req_runs by blast
  have wf: "\<forall>(cmd, r) \<in> set ?reqs. wf_req r" by (simp add: wf_req_def ip_req_def)
  have "42 \<le> length ip_frame" by (simp add: ip_frame_def)
  then show ?thesis
    using st ip_static_forwards [OF wf st lookup2_frame] ip_forward_sample by simp
qed

text \<open>Registering a bridge again sends every slot of it to the new control port, but
  keeps the addresses: the next listing still shows each address added before, now with
  the control port.\<close>

lemma ip_reg_keeps_addresses:
  assumes "wf_ip_rt (is_rt st)" "ip_bdgctl mx env st BDGIOCREG r = Some (ret, st', r')"
    and "rq_bdg_idx r = 0" "n < IP_BDG_HASH"
  shows "ire_addr (ip_get (is_rt st') n) = ire_addr (ip_get (is_rt st) n) \<and>
    ucast (ire_ports (ip_get (is_rt st') n)) = rq_bdg_port r"
  using ip_reg_tables [OF assms(1,2)] assms(3,4) by simp

end
