(* ===== verification/Bdgfn_User.thy ===== *)
theory Bdgfn_User
  imports Ip_Static
begin

text \<open>
  The control library \<open>bdgfn/bdgfn.c\<close>: \<open>bdgfn_do\<close> and its wrappers, over any device that
  serves the requests. What the library prints is the list of its output lines. The
  listing loop asks the device again until it answers with an error, so it is a partial
  function; the locale \<open>list_device\<close> states what a device promises of LIST, from which
  the loop is proved to end after showing every used slot once, in order. The control
  functions of both bridge modules are shown to keep that promise.
\<close>

section \<open>Output lines\<close>

text \<open>The octets are printed through \<open>char\<close>, so they are signed.\<close>

datatype ctl_line =
    Route_port u32 u32 u32
  | Route_mac "int list" u32
  | Route_ip4 "int list" u32
  | List_mac u32 "int list" u32
  | List_ip4 u32 "int list" u32
  | Reg_failed u32
  | Reg_done u32 u32
  | Unknown_command

definition BDGCTL_ENV_PORT :: u32 where "BDGCTL_ENV_PORT = 0x0"
definition BDGCTL_ENV_MAC :: u32 where "BDGCTL_ENV_MAC = 0x1"
definition BDGCTL_ENV_IP4 :: u32 where "BDGCTL_ENV_IP4 = 0x2"

definition octets :: "nat \<Rightarrow> bdgreq \<Rightarrow> int list" where
  "octets n r = map (\<lambda>i. sint (rq_addr r ! i)) [0..<n]"

definition pr_route :: "u32 \<Rightarrow> bdgreq \<Rightarrow> ctl_line list" where
  "pr_route bdgenv r =
     (if bdgenv AND BDGCTL_ENV_PORT \<noteq> 0
      then [Route_port (rq_bdg_idx r) (rq_bdg_port r) (rq_nr_dst r)] else []) @
     (if bdgenv AND BDGCTL_ENV_MAC \<noteq> 0 then [Route_mac (octets 6 r) (rq_nr_dst r)] else []) @
     (if bdgenv AND BDGCTL_ENV_IP4 \<noteq> 0 then [Route_ip4 (octets 4 r) (rq_nr_dst r)] else [])"

definition list_lines :: "u32 \<Rightarrow> bdgreq \<Rightarrow> ctl_line list" where
  "list_lines bdgenv r =
     (if bdgenv AND BDGCTL_ENV_MAC \<noteq> 0
      then [List_mac (rq_nr_arg1 r) (octets 6 r) (rq_bdg_port r)] else []) @
     (if bdgenv AND BDGCTL_ENV_IP4 \<noteq> 0
      then [List_ip4 (rq_nr_arg1 r) (octets 4 r) (rq_bdg_port r)] else [])"

section \<open>The library\<close>

text \<open>The C library turns a negative answer of the kernel into \<open>-1\<close>.\<close>

definition libc_ret :: "int \<Rightarrow> int" where
  "libc_ret ret = (if ret < 0 then -1 else ret)"

type_synonym 'k device = "'k \<Rightarrow> u32 \<Rightarrow> bdgreq \<Rightarrow> (int \<times> 'k \<times> bdgreq) option"

partial_function (option) list_loop ::
  "'k device \<Rightarrow> u32 \<Rightarrow> 'k \<Rightarrow> bdgreq \<Rightarrow> ctl_line list \<Rightarrow> ('k \<times> bdgreq \<times> ctl_line list) option" where
  "list_loop dev bdgenv k r out =
     Option.bind (dev k BDGIOCLIST r) (\<lambda>x. case x of (ret, k', r') \<Rightarrow>
       (if libc_ret ret \<noteq> 0 then Some (k', r', out)
        else list_loop dev bdgenv k' (r'\<lparr>rq_nr_arg1 := rq_nr_arg1 r' + 1\<rparr>)
               (out @ list_lines bdgenv r')))"

definition bdgfn_do ::
  "'k device \<Rightarrow> u32 \<Rightarrow> 'k \<Rightarrow> u32 \<Rightarrow> bdgreq \<Rightarrow> (int \<times> 'k \<times> bdgreq \<times> ctl_line list) option" where
  "bdgfn_do dev bdgenv k cmd breq =
     (if cmd = BDGIOCREG then do {
        (ret, k, breq) \<leftarrow> dev k BDGIOCREG breq;
        let rc = libc_ret ret;
        Some (rc, k, breq,
          if rc \<noteq> 0 then [Reg_failed (rq_bdg_idx breq)]
          else [Reg_done (rq_bdg_idx breq) (rq_bdg_port breq)])
      }
      else if cmd = BDGIOCADDIF then do {
        let lines = pr_route bdgenv breq;
        (inner_rc, k, breq) \<leftarrow> dev k BDGIOCADDIF breq;
        Some (0, k, breq, lines)
      }
      else if cmd = BDGIOCLIST then do {
        (k, breq, lines) \<leftarrow> list_loop dev bdgenv k (breq\<lparr>rq_nr_arg1 := 0\<rparr>) [];
        Some (0, k, breq, lines)
      }
      else Some (0, k, breq, [Unknown_command]))"

definition bdgfnreg_user :: "'k device \<Rightarrow> u32 \<Rightarrow> 'k \<Rightarrow> bdgreq \<Rightarrow> (int \<times> 'k \<times> bdgreq \<times> ctl_line list) option" where
  "bdgfnreg_user dev bdgenv k breq = bdgfn_do dev bdgenv k BDGIOCREG breq"

definition bdglistif :: "'k device \<Rightarrow> u32 \<Rightarrow> 'k \<Rightarrow> bdgreq \<Rightarrow> (int \<times> 'k \<times> bdgreq \<times> ctl_line list) option" where
  "bdglistif dev bdgenv k breq = bdgfn_do dev bdgenv k BDGIOCLIST breq"

definition bdgaddif :: "'k device \<Rightarrow> u32 \<Rightarrow> 'k \<Rightarrow> bdgreq \<Rightarrow> (int \<times> 'k \<times> bdgreq \<times> ctl_line list) option" where
  "bdgaddif dev bdgenv k breq = bdgfn_do dev bdgenv k BDGIOCADDIF breq"

definition bdgdelif :: "'k \<Rightarrow> bdgreq \<Rightarrow> int \<times> 'k \<times> bdgreq" where
  "bdgdelif k breq = (- ENOENT, k, breq)"

text \<open>
  \<open>bdgport\<close>: \<open>opened\<close> says whether \<open>/dev/netmap\<close> could be opened, \<open>info\<close> is the \<open>nr_arg2\<close>
  that netmap leaves for a name, at most 16 characters of which reach it.
\<close>

definition bdgport :: "bool \<Rightarrow> (string \<Rightarrow> u16) \<Rightarrow> string option \<Rightarrow> int" where
  "bdgport opened info name =
     (if \<not> opened then -1
      else let nr_name = (case name of None \<Rightarrow> [] | Some s \<Rightarrow> take 16 s)
           in if nr_name \<noteq> [] then uint (info nr_name) else 0)"

section \<open>What a device promises of LIST\<close>

locale list_device =
  fixes dev :: "'k device"
    and ok :: "'k \<Rightarrow> bdgreq \<Rightarrow> bool"
    and size :: nat
    and used :: "'k \<Rightarrow> u32 \<Rightarrow> nat \<Rightarrow> bool"
    and fill :: "'k \<Rightarrow> nat \<Rightarrow> bdgreq \<Rightarrow> bdgreq"
  assumes size_small: "size < 2 ^ 31"
    and scan: "ok k r \<Longrightarrow> unat (rq_nr_arg1 r) \<le> size \<Longrightarrow>
        dev k BDGIOCLIST r =
          Some (case next_used (used k (rq_bdg_idx r)) size (unat (rq_nr_arg1 r)) of
                  None \<Rightarrow> (ENOENT, k, r) | Some j \<Rightarrow> (0, k, fill k j r))"
    and fill_arg: "rq_nr_arg1 (fill k j r) = of_nat j"
    and fill_idx: "rq_bdg_idx (fill k j r) = rq_bdg_idx r"
    and fill_fill: "ok k r \<Longrightarrow> fill k j ((fill k i r)\<lparr>rq_nr_arg1 := x\<rparr>) = fill k j r"
    and fill_arg_upd: "fill k j (r\<lparr>rq_nr_arg1 := x\<rparr>) = fill k j r"
    and ok_fill: "ok k r \<Longrightarrow> ok k ((fill k j r)\<lparr>rq_nr_arg1 := x\<rparr>)"
    and ok_arg: "ok k r \<Longrightarrow> ok k (r\<lparr>rq_nr_arg1 := x\<rparr>)"
begin

lemma list_loop_from:
  "ok k r \<Longrightarrow> unat (rq_nr_arg1 r) \<le> size \<Longrightarrow>
   \<exists>r'. list_loop dev bdgenv k r out = Some (k, r',
     out @ concat (map (\<lambda>j. list_lines bdgenv (fill k j r))
       (filter (used k (rq_bdg_idx r)) [unat (rq_nr_arg1 r)..<size])))"
proof (induction "size - unat (rq_nr_arg1 r)" arbitrary: r out rule: less_induct)
  case less
  show ?case
  proof (cases "next_used (used k (rq_bdg_idx r)) size (unat (rq_nr_arg1 r))")
    case None
    then show ?thesis
      using less.prems
      by (subst list_loop.simps)
        (simp add: scan libc_ret_def ENOENT_def filter_next_used [of _ "unat (rq_nr_arg1 r)"])
  next
    case (Some j)
    let ?r = "(fill k j r)\<lparr>rq_nr_arg1 := of_nat j + 1\<rparr>"
    have j: "unat (rq_nr_arg1 r) \<le> j" "j < size" using next_used_SomeD [OF Some] by simp_all
    then have next_arg: "unat (of_nat j + 1 :: u32) = Suc j"
      using size_small by (simp add: unat_word_ariths unat_of_nat take_bit_eq_mod)
    then have arg: "unat (rq_nr_arg1 ?r) = Suc j" by simp
    have "size - unat (rq_nr_arg1 ?r) < size - unat (rq_nr_arg1 r)" using j arg by linarith
    moreover have "ok k ?r" using less.prems(1) by (rule ok_fill)
    moreover have "unat (rq_nr_arg1 ?r) \<le> size" using j arg by linarith
    ultimately obtain r' where "list_loop dev bdgenv k ?r (out @ list_lines bdgenv (fill k j r)) =
      Some (k, r', (out @ list_lines bdgenv (fill k j r)) @
        concat (map (\<lambda>i. list_lines bdgenv (fill k i ?r))
          (filter (used k (rq_bdg_idx ?r)) [unat (rq_nr_arg1 ?r)..<size])))"
      using less.hyps by blast
    then show ?thesis
      using less.prems Some
      by (subst list_loop.simps)
        (simp add: scan libc_ret_def fill_arg fill_idx fill_fill next_arg
          filter_next_used [of _ "unat (rq_nr_arg1 r)"])
  qed
qed

lemma list_all:
  assumes "ok k r"
  shows "\<exists>r'. bdglistif dev bdgenv k r = Some (0, k, r',
     concat (map (\<lambda>j. list_lines bdgenv (fill k j r)) (filter (used k (rq_bdg_idx r)) [0..<size])))"
  using list_loop_from [OF ok_arg [OF assms, of 0], of bdgenv "[]"]
  by (auto simp: bdglistif_def bdgfn_do_def fill_arg_upd)

end

section \<open>Both modules are such devices\<close>

definition mac_ok :: "mac_state \<Rightarrow> bdgreq \<Rightarrow> bool" where
  "mac_ok st r \<longleftrightarrow> wf_mac_rt (ms_rt st) \<and> unat (rq_bdg_idx r) < MAC_BRIDGES"

definition ip_ok :: "ip_state \<Rightarrow> bdgreq \<Rightarrow> bool" where
  "ip_ok st r \<longleftrightarrow> wf_ip_rt (is_rt st) \<and> unat (rq_bdg_idx r) < IP_BRIDGES"

definition mac_fill :: "mac_state \<Rightarrow> nat \<Rightarrow> bdgreq \<Rightarrow> bdgreq" where
  "mac_fill st j r = mac_listed (mr_ht (ms_rt st ! unat (rq_bdg_idx r))) j r"

definition ip_fill :: "ip_state \<Rightarrow> nat \<Rightarrow> bdgreq \<Rightarrow> bdgreq" where
  "ip_fill st j r = ip_listed (ir_ht (is_rt st ! unat (rq_bdg_idx r))) j r"

lemma sint_small:
  assumes "unat (w :: u32) < 2 ^ 31"
  shows "sint w = int (unat w)"
proof -
  have "int (unat w) < 2 ^ 31"
    using assms by (metis of_nat_less_iff of_nat_numeral of_nat_power)
  then have "uint w < 2 ^ 31" by simp
  moreover have "- (2 ^ 31) \<le> uint w" by (rule order_trans [of _ 0]) simp_all
  ultimately show ?thesis by (simp add: sint_uint signed_take_bit_int_eq_self_iff)
qed

lemma mac_scan:
  assumes "mac_ok st r" "unat (rq_nr_arg1 r) \<le> NM_BDG_HASH"
  shows "mac_bdgctl env st BDGIOCLIST r =
    Some (case next_used (mac_used (mr_ht (ms_rt st ! unat (rq_bdg_idx r)))) NM_BDG_HASH
                 (unat (rq_nr_arg1 r)) of
            None \<Rightarrow> (ENOENT, st, r) | Some j \<Rightarrow> (0, st, mac_fill st j r))"
proof -
  have "sint (rq_nr_arg1 r) = int (unat (rq_nr_arg1 r))"
    using assms(2) by (intro sint_small) (simp add: NM_BDG_HASH_def)
  moreover have "unat (rq_bdg_idx r) < length (ms_rt st)"
    "length (mr_ht (ms_rt st ! unat (rq_bdg_idx r))) = NM_BDG_HASH"
    using assms(1) by (auto simp: mac_ok_def wf_mac_rt_def)
  ultimately show ?thesis
    using mac_bdglist_scan_next [of "mr_ht (ms_rt st ! unat (rq_bdg_idx r))" "unat (rq_nr_arg1 r)" r]
    by (simp add: mac_bdgctl_def mac_bdglist_def arr_get_Some mac_fill_def split: option.splits)
qed

lemma ip_scan:
  assumes "ip_ok st r" "unat (rq_nr_arg1 r) \<le> IP_BDG_HASH"
  shows "ip_bdgctl mx env st BDGIOCLIST r =
    Some (case next_used (ip_used (ir_ht (is_rt st ! unat (rq_bdg_idx r)))) IP_BDG_HASH
                 (unat (rq_nr_arg1 r)) of
            None \<Rightarrow> (ENOENT, st, r) | Some j \<Rightarrow> (0, st, ip_fill st j r))"
proof -
  have "sint (rq_nr_arg1 r) = int (unat (rq_nr_arg1 r))"
    using assms(2) by (intro sint_small) (simp add: IP_BDG_HASH_def)
  moreover have "unat (rq_bdg_idx r) < length (is_rt st)"
    "length (ir_ht (is_rt st ! unat (rq_bdg_idx r))) = IP_BDG_HASH"
    using assms(1) by (auto simp: ip_ok_def wf_ip_rt_def)
  ultimately show ?thesis
    using ip_bdglist_scan_next [of "ir_ht (is_rt st ! unat (rq_bdg_idx r))" "unat (rq_nr_arg1 r)" r]
    by (simp add: ip_bdgctl_def ip_bdglist_def arr_get_Some ip_fill_def split: option.splits)
qed

interpretation mac_dev: list_device "mac_bdgctl env" mac_ok NM_BDG_HASH
  "\<lambda>st i. mac_used (mr_ht (ms_rt st ! unat i))" mac_fill for env
  by unfold_locales
    (simp_all add: mac_scan, simp_all add: NM_BDG_HASH_def mac_fill_def mac_listed_def mac_ok_def)

interpretation ip_dev: list_device "ip_bdgctl mx env" ip_ok IP_BDG_HASH
  "\<lambda>st i. ip_used (ir_ht (is_rt st ! unat i))" ip_fill for mx env
  by unfold_locales
    (simp_all add: ip_scan, simp_all add: IP_BDG_HASH_def ip_fill_def ip_listed_def ip_ok_def)

lemma mac_listed_line:
  "List_mac (of_nat j) (map (\<lambda>k. sint (word_byte (mre_mac (ht ! j)) k)) [0, 1, 2, 3, 4, 5])
     (ucast (mre_ports (ht ! j))) \<in> set (list_lines BDGCTL_ENV_MAC (mac_listed ht j r))"
  by (simp add: list_lines_def mac_listed_def BDGCTL_ENV_MAC_def octets_def upt_rec
      eval_nat_numeral)

section \<open>Properties\<close>

text \<open>C22: Listing a bridge of the MAC module ends, answers 0, and prints every slot of the
  bridge whose stored address is not zero exactly once, in slot order, changing nothing in
  the module.\<close>
theorem bdglistif_mac:
  assumes "wf_mac_rt (ms_rt st)" "unat (rq_bdg_idx r) < MAC_BRIDGES"
  shows "\<exists>r'. bdglistif (mac_bdgctl env) bdgenv st r = Some (0, st, r',
     concat (map (\<lambda>j. list_lines bdgenv (mac_fill st j r))
       (filter (mac_used (mr_ht (ms_rt st ! unat (rq_bdg_idx r)))) [0..<NM_BDG_HASH])))"
  using assms by (intro mac_dev.list_all) (simp add: mac_ok_def)

theorem bdglistif_mac_witness:
  "\<exists>r'. bdglistif (mac_bdgctl env_ok) BDGCTL_ENV_MAC (snd (mac_static_init 254)) req_add =
     Some (0, snd (mac_static_init 254), r', [])"
proof -
  have "filter (mac_used (mr_ht (ms_rt (snd (mac_static_init 254)) ! 0))) [0..<NM_BDG_HASH] = []"
    by (simp add: filter_empty_conv mac_used_def mac_static_init_def mac_rt_init_def
        mac_rt_zero_def MAC_BRIDGES_def)
  then show ?thesis
    using bdglistif_mac [OF wf_mac_init [of 254], of req_add env_ok BDGCTL_ENV_MAC]
    by (simp add: req_add_def MAC_BRIDGES_def)
qed

text \<open>C23: Listing a bridge of the IP module ends, answers 0, and prints every slot of the
  bridge whose stored address is not zero exactly once, in slot order, changing nothing in
  the module.\<close>
theorem bdglistif_ip:
  assumes "wf_ip_rt (is_rt st)" "unat (rq_bdg_idx r) < IP_BRIDGES"
  shows "\<exists>r'. bdglistif (ip_bdgctl mx env) bdgenv st r = Some (0, st, r',
     concat (map (\<lambda>j. list_lines bdgenv (ip_fill st j r))
       (filter (ip_used (ir_ht (is_rt st ! unat (rq_bdg_idx r)))) [0..<IP_BDG_HASH])))"
  using assms by (intro ip_dev.list_all) (simp add: ip_ok_def)

theorem bdglistif_ip_witness:
  "\<exists>r'. bdglistif (ip_bdgctl 254 env_ok) BDGCTL_ENV_IP4 (snd ip_static_init) ip_req =
     Some (0, snd ip_static_init, r', [])"
proof -
  have wf: "wf_ip_rt (is_rt (snd ip_static_init))"
    using ip_refines_init by (simp add: ip_refines_def)
  have "filter (ip_used (ir_ht (is_rt (snd ip_static_init) ! 0))) [0..<IP_BDG_HASH] = []"
    by (simp add: filter_empty_conv ip_used_def ip_static_init_def IP_BRIDGES_def)
  then show ?thesis
    using bdglistif_ip [OF wf, of ip_req 254 env_ok BDGCTL_ENV_IP4]
    by (simp add: ip_req_def IP_BRIDGES_def)
qed

text \<open>C26: An address other than zero that has been added to a bridge of the MAC module is
  what the next listing shows for its slot, with the port it was added with: what the
  table stores reads back to the same six octets.\<close>
theorem bdgaddif_listed_mac:
  assumes "wf_mac_rt (ms_rt st)" "unat (rq_bdg_idx r) < MAC_BRIDGES" "wf_req r"
    and "rq_addr r \<noteq> [0, 0, 0, 0, 0, 0]"
  shows "\<exists>st'. bdgaddif (mac_bdgctl env) bdgenv st r = Some (0, st', r, pr_route bdgenv r) \<and>
    (\<exists>out r'. bdglistif (mac_bdgctl env) BDGCTL_ENV_MAC st' r = Some (0, st', r', out) \<and>
       List_mac (of_nat (rthash_slot (rq_addr r))) (octets 6 r) (rq_nr_dst r) \<in> set out)"
proof -
  let ?i = "unat (rq_bdg_idx r)" and ?s = "rthash_slot (rq_addr r)"
  let ?e = "\<lparr>mre_mac = le_word (rq_addr r), mre_ports = ucast (rq_nr_dst r)\<rparr>"
  let ?st = "st\<lparr>ms_rt := (ms_rt st)[?i := (ms_rt st ! ?i)\<lparr>mr_ht := (mr_ht (ms_rt st ! ?i))[?s := ?e]\<rparr>]\<rparr>"
  have add: "bdgaddif2 (ms_rt st) (addr_mem r) (rq_bdg_idx r) (rq_nr_dst r) = Some (0, ms_rt ?st)"
    using assms length_addr_mem [OF assms(3)]
    by (simp add: bdgaddif2_whole take_addr_mem mac_entry_def)
  have run: "bdgaddif (mac_bdgctl env) bdgenv st r = Some (0, ?st, r, pr_route bdgenv r)"
    using add by (simp add: bdgaddif_def bdgfn_do_def mac_bdgctl_def)
  have wf: "wf_mac_rt (ms_rt ?st)" using bdgaddif2_wf [OF assms(1) add] by simp
  have len: "?i < length (ms_rt st)" "length (mr_ht (ms_rt st ! ?i)) = NM_BDG_HASH"
    using assms(1,2) by (auto simp: wf_mac_rt_def)
  have ent: "mr_ht (ms_rt ?st ! ?i) ! ?s = ?e"
    using len rthash_slot_bound by simp
  have l6: "length (rq_addr r) = 6" using assms(3) by (simp add: wf_req_def)
  have "le_word (rq_addr r) \<noteq> 0"
  proof
    assume "le_word (rq_addr r) = 0"
    then have "le_word (rq_addr r) = le_word [0, 0, 0, 0, 0, 0]" by simp
    from le_word_inject [OF this] l6 assms(4) show False by simp
  qed
  then have used: "?s \<in> set (filter (mac_used (mr_ht (ms_rt ?st ! ?i))) [0..<NM_BDG_HASH])"
    using rthash_slot_bound ent by (simp only: mac_used_def set_filter) simp
  have "map (\<lambda>k. sint (word_byte (le_word (rq_addr r)) k)) [0, 1, 2, 3, 4, 5] = octets 6 r"
    using l6 by (simp add: octets_def upt_rec word_byte_le_word eval_nat_numeral)
  then have "List_mac (of_nat ?s) (octets 6 r) (rq_nr_dst r)
      \<in> set (list_lines BDGCTL_ENV_MAC (mac_fill ?st ?s r))"
    using mac_listed_line [of ?s "mr_ht (ms_rt ?st ! ?i)" r] unfolding mac_fill_def ent by simp
  then have "List_mac (of_nat ?s) (octets 6 r) (rq_nr_dst r) \<in> set (concat
      (map (\<lambda>j. list_lines BDGCTL_ENV_MAC (mac_fill ?st j r))
        (filter (mac_used (mr_ht (ms_rt ?st ! ?i))) [0..<NM_BDG_HASH])))"
    using used by (auto simp only: set_concat set_map)
  moreover have "mac_ok ?st r" using wf assms(2) by (simp only: mac_ok_def)
  ultimately show ?thesis using run mac_dev.list_all [of ?st r env BDGCTL_ENV_MAC] by blast
qed

theorem bdgaddif_listed_mac_witness:
  "\<exists>st' out r'. bdgaddif (mac_bdgctl env_ok) BDGCTL_ENV_MAC (snd (mac_static_init 254)) req_add =
      Some (0, st', req_add, [Route_mac [2, 0, 0, 0, 0, 15] 5]) \<and>
    bdglistif (mac_bdgctl env_ok) BDGCTL_ENV_MAC st' req_add = Some (0, st', r', out) \<and>
    List_mac 984 [2, 0, 0, 0, 0, 15] 5 \<in> set out"
proof -
  have "rthash_slot (rq_addr req_add) = 984" by code_simp
  moreover have "octets 6 req_add = [2, 0, 0, 0, 0, 15]" "rq_nr_dst req_add = 5"
    by (simp_all add: octets_def upt_rec req_add_def)
  ultimately show ?thesis
    using bdgaddif_listed_mac [OF wf_mac_init [of 254], of req_add env_ok BDGCTL_ENV_MAC]
    by (fastforce simp: req_add_def wf_req_def MAC_BRIDGES_def pr_route_def BDGCTL_ENV_MAC_def
        BDGCTL_ENV_PORT_def BDGCTL_ENV_IP4_def)
qed

text \<open>Adding a route reports success whatever the kernel answers, because the answer is
  kept in an inner variable that shadows the one returned; a registration reports the
  kernel's answer.\<close>

lemma bdgaddif_hides_errors:
  assumes "dev k BDGIOCADDIF r = Some (ret, k', r')"
    and "dev k BDGIOCREG r = Some (ret2, k2, r2)"
  shows "(\<exists>out. bdgaddif dev bdgenv k r = Some (0, k', r', out)) \<and>
    (\<exists>out. bdgfnreg_user dev bdgenv k r = Some (libc_ret ret2, k2, r2, out))"
  using assms by (simp_all add: bdgaddif_def bdgfnreg_user_def bdgfn_do_def Let_def)

section \<open>Control requests are total and keep the types\<close>

lemma mac_bdgctl_total:
  assumes "wf_mac_rt (ms_rt st)" "wf_req r" "unat (rq_bdg_idx r) < MAC_BRIDGES"
    "unat (rq_nr_arg1 r) < 2 ^ 31" "malloc_ok env"
  shows "\<exists>ret st' r'. mac_bdgctl env st cmd r = Some (ret, st', r') \<and> wf_mac_rt (ms_rt st') \<and> wf_req r'"
proof -
  let ?i = "unat (rq_bdg_idx r)"
  have l: "?i < length (ms_rt st)" "length (mr_ht (ms_rt st ! ?i)) = NM_BDG_HASH"
    using assms(1,3) by (auto simp: wf_mac_rt_def)
  have s: "sint (rq_nr_arg1 r) = int (unat (rq_nr_arg1 r))" by (rule sint_small [OF assms(4)])
  have scan: "mac_bdglist (ms_rt st) (rq_nr_arg1 r) r = Some (case next_used (mac_used (mr_ht (ms_rt st ! ?i))) NM_BDG_HASH
      (unat (rq_nr_arg1 r)) of None \<Rightarrow> (ENOENT, r) | Some j \<Rightarrow> (0, mac_listed (mr_ht (ms_rt st ! ?i)) j r))"
    using mac_bdglist_scan_next [OF l(2), of "unat (rq_nr_arg1 r)" r] l(1)
    by (simp only: mac_bdglist_def s arr_get_Some Option.bind.simps)
  have reg: "\<exists>ret reg. bdgfnreg env (rq_bdg_idx r) Lookup2 = Some (ret, reg)"
    using assms(5) by (simp add: bdgfnreg_def Let_def)
  obtain ret rt where add: "bdgaddif2 (ms_rt st) (addr_mem r) (rq_bdg_idx r) (rq_nr_dst r) = Some (ret, rt)"
    using bdgaddif2_whole [OF assms(1,3)] length_addr_mem [OF assms(2)] by simp
  show ?thesis
    using reg l add bdgaddif2_wf [OF assms(1) add] assms(1,2) wf_mac_update [OF assms(1)]
    by (auto simp: mac_bdgctl_def arr_get_Some arr_set_Some scan mac_listed_def
        wf_req_def split: option.splits)
qed

lemma ip_bdgctl_total:
  assumes "wf_ip_rt (is_rt st)" "wf_req r" "unat (rq_bdg_idx r) < IP_BRIDGES"
    "unat (rq_nr_arg1 r) < 2 ^ 31" "malloc_ok env"
  shows "\<exists>ret st' r'. ip_bdgctl mx env st cmd r = Some (ret, st', r') \<and> wf_ip_rt (is_rt st') \<and> wf_req r'"
proof -
  let ?i = "unat (rq_bdg_idx r)"
  have l: "?i < length (is_rt st)" "length (ir_ht (is_rt st ! ?i)) = IP_BDG_HASH"
    using assms(1,3) by (auto simp: wf_ip_rt_def)
  have s: "sint (rq_nr_arg1 r) = int (unat (rq_nr_arg1 r))" by (rule sint_small [OF assms(4)])
  have scan: "ip_bdglist (is_rt st) (rq_nr_arg1 r) r = Some (case next_used (ip_used (ir_ht (is_rt st ! ?i))) IP_BDG_HASH
      (unat (rq_nr_arg1 r)) of None \<Rightarrow> (ENOENT, r) | Some j \<Rightarrow> (0, ip_listed (ir_ht (is_rt st ! ?i)) j r))"
    using ip_bdglist_scan_next [OF l(2), of "unat (rq_nr_arg1 r)" r] l(1)
    by (simp only: ip_bdglist_def s arr_get_Some Option.bind.simps)
  have reg: "\<exists>ret reg. bdgfnreg env (rq_bdg_idx r) Lookup3 = Some (ret, reg)"
    using assms(5) by (simp add: bdgfnreg_def Let_def)
  obtain ret rt where add: "bdgaddif3 (is_rt st) (addr_mem r) (rq_bdg_idx r) (rq_nr_dst r) = Some (ret, rt)"
    using bdgaddif3_whole [OF assms(1,3)] length_addr_mem [OF assms(2)] by simp
  have "ip_put (is_rt st) (rq_bdg_idx r, addr_mem r) (rq_nr_dst r) = Some rt" by (simp add: ip_put_def add)
  then have "wf_ip_rt rt" by (rule ip_put_wf [OF assms(1)])
  then show ?thesis
    using reg l add assms(1,2) wf_ip_update [OF assms(1)]
    by (auto simp: ip_bdgctl_def arr_get_Some arr_set_Some scan ip_listed_def
        wf_req_def ip_rt_init_def Let_def split: option.splits)
qed

text \<open>C28: In both bridge modules a control request for one of the module's bridges (eight and
  four), with a listing index that is not negative as an \<open>int\<close>, is served without a fault,
  whatever the command; the tables keep their sizes and the request that is handed back is
  again a well-formed one.\<close>
theorem control_keeps_types:
  assumes "wf_mac_rt (ms_rt st)" "wf_ip_rt (is_rt st2)" "wf_req r" "unat (rq_bdg_idx r) < 8"
    "unat (rq_nr_arg1 r) < 2 ^ 31" "malloc_ok env"
  shows "(\<exists>ret st' r'. mac_bdgctl env st cmd r = Some (ret, st', r') \<and> wf_mac_rt (ms_rt st') \<and> wf_req r')
     \<and> (unat (rq_bdg_idx r) < 4 \<longrightarrow>
         (\<exists>ret st' r'. ip_bdgctl mx env st2 cmd r = Some (ret, st', r') \<and> wf_ip_rt (is_rt st') \<and> wf_req r'))"
  using mac_bdgctl_total [OF assms(1,3)] ip_bdgctl_total [OF assms(2,3)] assms(4-6)
  by (simp add: MAC_BRIDGES_def IP_BRIDGES_def)

theorem control_keeps_types_witness:
  "\<exists>ret st' r'. ip_bdgctl 254 env_ok (snd ip_static_init) BDGIOCLIST req_add = Some (ret, st', r') \<and> wf_req r'"
proof -
  have "wf_ip_rt (is_rt (snd ip_static_init))" using ip_refines_init by (simp add: ip_refines_def)
  moreover have "wf_req req_add" "unat (rq_bdg_idx req_add) < 8" "unat (rq_bdg_idx req_add) < 4"
    "unat (rq_nr_arg1 req_add) < 2 ^ 31" "malloc_ok env_ok"
    by (simp_all add: req_add_def wf_req_def env_ok_def)
  ultimately show ?thesis
    using control_keeps_types [OF wf_mac_init [of 254], of "snd ip_static_init" req_add env_ok BDGIOCLIST 254]
    by blast
qed

end
