(* ===== verification/Bridge_Host.thy ===== *)
theory Bridge_Host
  imports Bdgfn_User
begin

text \<open>
  The bridge modules in one kernel: loading and unloading (the functions given to
  \<open>module_init\<close> and \<open>module_exit\<close>), the device nodes that \<open>DEFINE_BDGFN\<close> describes, control
  requests through them, and frames that the switch hands to the lookup function of a
  bridge. A lookup function is code of the module that registered it: also \<open>bdg_learning\<close>,
  which \<open>bdgfn_kern.h\<close> defines anew in every module.
\<close>

section \<open>State and events\<close>

datatype kmodule = Learn_ko | Mac_ko | Ip_ko

text \<open>A registration that netmap has: the bridge, the function and the module with its code, which
  is gone (\<open>None\<close>) once the module is unloaded, also when it is loaded again elsewhere.\<close>

type_synonym registration = "string \<times> kmodule option \<times> lookup_fn"

text \<open>
  What the modules meet: the allocator and \<open>netmap_bdg_ctl\<close> (\<open>kenv\<close>), the number of ports, which
  of the accepted registrations is in force on a bridge, the name of the node that
  \<open>make_dev\<close> makes of a device and \<open>BDGFN_NAME\<close>, and what the switch does to the table of a
  bridge when it serves a frame itself.
\<close>

record host_env =
  hx_kenv :: kenv
  hx_maxports :: u32
  hx_called :: "registration list \<Rightarrow> string \<Rightarrow> (kmodule option \<times> lookup_fn) option"
  hx_make_dev :: "string \<Rightarrow> string \<Rightarrow> string"
  hx_own :: "u8 list \<Rightarrow> u32 \<Rightarrow> nm_bridge \<Rightarrow> nm_bridge"

definition mac_cdevsw :: string where "mac_cdevsw = ''macs''"
definition ip_cdevsw :: string where "ip_cdevsw = ''ips''"
definition MAC_BDGFN_NAME :: string where "MAC_BDGFN_NAME = ''stmac''"
definition IP_BDGFN_NAME :: string where "IP_BDGFN_NAME = ''stip''"

definition mac_node :: "host_env \<Rightarrow> string" where
  "mac_node E = hx_make_dev E mac_cdevsw MAC_BDGFN_NAME"

definition ip_node :: "host_env \<Rightarrow> string" where
  "ip_node E = hx_make_dev E ip_cdevsw IP_BDGFN_NAME"

record host =
  h_loaded :: "kmodule set"
  h_mac :: mac_state
  h_ip :: ip_state
  h_nodes :: "string \<Rightarrow> kmodule option"
  h_regs :: "registration list"
  h_ht :: "string \<Rightarrow> nm_bridge"

definition host_boot :: host where
  "host_boot = \<lparr>h_loaded = {}, h_mac = \<lparr>ms_rt = [], ms_regs = []\<rparr>, h_ip = \<lparr>is_rt = [], is_regs = []\<rparr>,
     h_nodes = Map.empty, h_regs = [], h_ht = \<lambda>_. empty_bridge\<rparr>"

datatype host_op =
    Insmod kmodule int
  | Rmmod kmodule
  | Ioctl string u32 bdgreq
  | Frame string u32 "u8 list"

datatype host_ans = Refused | Done int | Served int bdgreq | To u32 u8 | By_switch

text \<open>The registrations that a call added, those that netmap did not reject.\<close>

definition added :: "(string \<times> lookup_fn) list \<Rightarrow> (string \<times> lookup_fn) list \<Rightarrow> (string \<times> lookup_fn) list" where
  "added old new = take (length new - length old) new"

definition accepted ::
  "host_env \<Rightarrow> kmodule \<Rightarrow> (string \<times> lookup_fn) list \<Rightarrow> registration list" where
  "accepted E m regs =
     map (\<lambda>(name, f). (name, Some m, f)) (filter (\<lambda>(name, f). netmap_bdg_ctl (hx_kenv E) name f = 0) regs)"

definition freed :: "kmodule \<Rightarrow> registration list \<Rightarrow> registration list" where
  "freed m = map (\<lambda>(name, owner, f). (name, if owner = Some m then None else owner, f))"

section \<open>Loading and unloading\<close>

text \<open>\<open>ip-static.c\<close> uses \<open>lookup2\<close>, a symbol of \<open>mac-static.c\<close>: without that module it is not loaded,
  and while it is loaded that module is not unloaded.\<close>

definition learn_load :: "host_env \<Rightarrow> int \<Rightarrow> host \<Rightarrow> (host_ans \<times> host) option" where
  "learn_load E typ h = do {
     (ret, reg) \<leftarrow> mac_lsb_init (hx_kenv E) typ;
     Some (Done ret, h\<lparr>h_regs := accepted E Learn_ko [reg] @ h_regs h\<rparr>)
   }"

definition mac_load :: "host_env \<Rightarrow> host \<Rightarrow> (host_ans \<times> host) option" where
  "mac_load E h =
     (let (ret, st) = mac_static_init (hx_maxports E)
      in Some (Done ret, h\<lparr>h_mac := st, h_nodes := (h_nodes h)(mac_node E \<mapsto> Mac_ko)\<rparr>))"

definition ip_load :: "host_env \<Rightarrow> host \<Rightarrow> (host_ans \<times> host) option" where
  "ip_load E h =
     (let (ret, st) = ip_static_init
      in Some (Done ret, h\<lparr>h_ip := st, h_nodes := (h_nodes h)(ip_node E \<mapsto> Ip_ko)\<rparr>))"

definition host_insmod :: "host_env \<Rightarrow> kmodule \<Rightarrow> int \<Rightarrow> host \<Rightarrow> (host_ans \<times> host) option" where
  "host_insmod E m typ h =
     (if m \<in> h_loaded h \<or> m = Ip_ko \<and> Mac_ko \<notin> h_loaded h then Some (Refused, h)
      else let h = h\<lparr>h_loaded := insert m (h_loaded h)\<rparr>
           in case m of Learn_ko \<Rightarrow> learn_load E typ h | Mac_ko \<Rightarrow> mac_load E h | Ip_ko \<Rightarrow> ip_load E h)"

definition learn_unload :: "host_env \<Rightarrow> host \<Rightarrow> (host_ans \<times> host) option" where
  "learn_unload E h = do {
     reg \<leftarrow> mac_lsb_exit (hx_kenv E);
     Some (Done 0, h\<lparr>h_regs := accepted E Learn_ko [reg] @ h_regs h\<rparr>)
   }"

definition mac_unload :: "host_env \<Rightarrow> host \<Rightarrow> (host_ans \<times> host) option" where
  "mac_unload E h = do {
     st \<leftarrow> mac_static_exit (hx_kenv E) (h_mac h);
     Some (Done 0, h\<lparr>h_nodes := (h_nodes h)(mac_node E := None),
       h_regs := accepted E Mac_ko (added (ms_regs (h_mac h)) (ms_regs st)) @ h_regs h\<rparr>)
   }"

definition ip_unload :: "host_env \<Rightarrow> host \<Rightarrow> (host_ans \<times> host) option" where
  "ip_unload E h = do {
     st \<leftarrow> ip_static_exit (hx_kenv E) (h_ip h);
     Some (Done 0, h\<lparr>h_nodes := (h_nodes h)(ip_node E := None),
       h_regs := accepted E Ip_ko (added (is_regs (h_ip h)) (is_regs st)) @ h_regs h\<rparr>)
   }"

definition host_rmmod :: "host_env \<Rightarrow> kmodule \<Rightarrow> host \<Rightarrow> (host_ans \<times> host) option" where
  "host_rmmod E m h =
     (if m \<notin> h_loaded h \<or> m = Mac_ko \<and> Ip_ko \<in> h_loaded h then Some (Refused, h)
      else do {
        (ans, h) \<leftarrow> (case m of Learn_ko \<Rightarrow> learn_unload E h | Mac_ko \<Rightarrow> mac_unload E h | Ip_ko \<Rightarrow> ip_unload E h);
        Some (ans, h\<lparr>h_loaded := h_loaded h - {m}, h_regs := freed m (h_regs h)\<rparr>)
      })"

lemmas load_defs = host_insmod_def learn_load_def mac_load_def ip_load_def
lemmas unload_defs = host_rmmod_def learn_unload_def mac_unload_def ip_unload_def

section \<open>Requests and frames\<close>

text \<open>The nodes have one operation, \<open>bdgctl\<close> of the module that made them.\<close>

definition bdg_fops :: "host_env \<Rightarrow> kmodule \<Rightarrow> u32 \<Rightarrow> bdgreq \<Rightarrow> host \<Rightarrow> (host_ans \<times> host) option" where
  "bdg_fops E m cmd breq h =
     (case m of
        Learn_ko \<Rightarrow> Some (Refused, h)
      | Mac_ko \<Rightarrow> do {
          (ret, st, breq) \<leftarrow> mac_bdgctl (hx_kenv E) (h_mac h) cmd breq;
          Some (Served ret breq, h\<lparr>h_mac := st,
            h_regs := accepted E m (added (ms_regs (h_mac h)) (ms_regs st)) @ h_regs h\<rparr>)
        }
      | Ip_ko \<Rightarrow> do {
          (ret, st, breq) \<leftarrow> ip_bdgctl (hx_maxports E) (hx_kenv E) (h_ip h) cmd breq;
          Some (Served ret breq, h\<lparr>h_ip := st,
            h_regs := accepted E m (added (is_regs (h_ip h)) (is_regs st)) @ h_regs h\<rparr>)
        })"

definition host_ioctl :: "host_env \<Rightarrow> string \<Rightarrow> u32 \<Rightarrow> bdgreq \<Rightarrow> host \<Rightarrow> (host_ans \<times> host) option" where
  "host_ioctl E node cmd breq h =
     (case h_nodes h node of None \<Rightarrow> Some (Refused, h) | Some m \<Rightarrow> bdg_fops E m cmd breq h)"

text \<open>\<open>nodst\<close> of \<open>learn.c\<close>.\<close>

definition learn_nodst :: "host_env \<Rightarrow> u32" where
  "learn_nodst E = NM_BDG_BROADCAST (hx_maxports E)"

text \<open>A call of a function whose code is gone is a fault.\<close>

definition host_frame :: "host_env \<Rightarrow> string \<Rightarrow> u32 \<Rightarrow> u8 list \<Rightarrow> host \<Rightarrow> (host_ans \<times> host) option" where
  "host_frame E name port buf h =
     (case hx_called E (h_regs h) name of
        None \<Rightarrow> Some (By_switch, h\<lparr>h_ht := (h_ht h)(name := hx_own E buf port (h_ht h name))\<rparr>)
      | Some (None, f) \<Rightarrow> None
      | Some (Some m, f) \<Rightarrow>
          let learn = map_option (\<lambda>(dst, ring, br). (To dst ring, h\<lparr>h_ht := (h_ht h)(name := br)\<rparr>));
              fixed = map_option (\<lambda>(dst, ring). (To dst ring, h))
          in case f of
               Bdg_learning \<Rightarrow> learn (bdg_learning (hx_maxports E) buf port (h_ht h name))
             | Lsb_learning \<Rightarrow> learn (lsb_learning (learn_nodst E) buf port (h_ht h name))
             | Lookup2 \<Rightarrow> fixed (lookup2 (ms_rt (h_mac h)) buf)
             | Lookup3 \<Rightarrow> fixed (lookup3 (hx_maxports E) (ms_rt (h_mac h)) (is_rt (h_ip h)) buf))"

fun host_step :: "host_env \<Rightarrow> host_op \<Rightarrow> host \<Rightarrow> (host_ans \<times> host) option" where
  "host_step E (Insmod m typ) h = host_insmod E m typ h"
| "host_step E (Rmmod m) h = host_rmmod E m h"
| "host_step E (Ioctl node cmd breq) h = host_ioctl E node cmd breq h"
| "host_step E (Frame name port buf) h = host_frame E name port buf h"

definition host_run :: "host_env \<Rightarrow> host \<Rightarrow> host_op list \<Rightarrow> host option" where
  "host_run E = run_all (\<lambda>h op. map_option snd (host_step E op h))"

section \<open>What the modules promise together\<close>

text \<open>
  The abstract state: which function is in force on a bridge and what its table has learned,
  and for each of the two static modules the requests it has served since it was loaded.
\<close>

record host_spec =
  hs_fn :: "string \<Rightarrow> (kmodule option \<times> lookup_fn) option"
  hs_learn :: bool
  hs_mac :: "(u32 \<times> bdgreq) list option"
  hs_ip :: "(u32 \<times> bdgreq) list option"
  hs_tables :: "string \<Rightarrow> nm_bridge"

definition spec_boot :: host_spec where
  "spec_boot = \<lparr>hs_fn = Map.empty, hs_learn = False, hs_mac = None, hs_ip = None, hs_tables = \<lambda>_. empty_bridge\<rparr>"

definition spec_register :: "host_env \<Rightarrow> u32 \<Rightarrow> kmodule \<Rightarrow> lookup_fn \<Rightarrow> host_spec \<Rightarrow> host_spec" where
  "spec_register E idx m f S =
     (if netmap_bdg_ctl (hx_kenv E) (vale_name idx) f = 0 then S\<lparr>hs_fn := (hs_fn S)(vale_name idx \<mapsto> (Some m, f))\<rparr> else S)"

definition spec_ioctl :: "host_env \<Rightarrow> string \<Rightarrow> u32 \<Rightarrow> bdgreq \<Rightarrow> host_spec \<Rightarrow> host_spec" where
  "spec_ioctl E node cmd r S =
     (case (if node = mac_node E then hs_mac S else None, if node = ip_node E then hs_ip S else None) of
        (Some reqs, _) \<Rightarrow>
          (let S = S\<lparr>hs_mac := Some (reqs @ [(cmd, r)])\<rparr>
           in if cmd = BDGIOCREG then spec_register E (rq_bdg_idx r) Mac_ko Lookup2 S else S)
      | (None, Some reqs) \<Rightarrow>
          (let S = S\<lparr>hs_ip := Some (reqs @ [(cmd, r)])\<rparr>
           in if cmd = BDGIOCREG then spec_register E (rq_bdg_idx r) Ip_ko Lookup3 S else S)
      | (None, None) \<Rightarrow> S)"

text \<open>The slot of an address under the two learning functions, and the table of a bridge after a
  frame: the learning functions learn its source, the static ones leave the table alone.\<close>

definition fn_slot :: "lookup_fn \<Rightarrow> u8 list \<Rightarrow> nat" where
  "fn_slot f = (if f = Lsb_learning then lsb_slot else rthash_slot)"

definition spec_table :: "host_env \<Rightarrow> host_spec \<Rightarrow> string \<Rightarrow> u32 \<Rightarrow> u8 list \<Rightarrow> nm_bridge" where
  "spec_table E S name p buf =
     (case hs_fn S name of
        None \<Rightarrow> hx_own E buf p (hs_tables S name)
      | Some (_, f) \<Rightarrow> (if f = Bdg_learning \<or> f = Lsb_learning
                       then learn (fn_slot f) (eth_src buf) p (hs_tables S name) else hs_tables S name))"

fun spec_step :: "host_env \<Rightarrow> host_spec \<Rightarrow> host_op \<Rightarrow> host_spec" where
  "spec_step E S (Insmod Learn_ko typ) =
     (if hs_learn S then S
      else spec_register E 0 Learn_ko (if typ = 0 then Bdg_learning else Lsb_learning) (S\<lparr>hs_learn := True\<rparr>))"
| "spec_step E S (Insmod Mac_ko typ) = (if hs_mac S = None then S\<lparr>hs_mac := Some []\<rparr> else S)"
| "spec_step E S (Insmod Ip_ko typ) =
     (if hs_mac S \<noteq> None \<and> hs_ip S = None then S\<lparr>hs_ip := Some []\<rparr> else S)"
| "spec_step E S (Ioctl node cmd r) = spec_ioctl E node cmd r S"
| "spec_step E S (Frame name p buf) = S\<lparr>hs_tables := (hs_tables S)(name := spec_table E S name p buf)\<rparr>"
| "spec_step E S (Rmmod m) = S"

definition mac_dst :: "u32 \<Rightarrow> (u32 \<times> bdgreq) list \<Rightarrow> u8 list \<Rightarrow> u32" where
  "mac_dst mx reqs buf =
     (if unicast (eth_src buf) then or_noport mx (mac_static_port reqs (eth_src buf))
      else or_noport mx (mac_ctl_port reqs))"

text \<open>What a frame is answered: the static modules decide by their requests alone, the learning
  functions by the table of the bridge, in which the source of the frame is learned first.\<close>

definition spec_answer :: "host_env \<Rightarrow> host_spec \<Rightarrow> string \<Rightarrow> u32 \<Rightarrow> u8 list \<Rightarrow> host_ans" where
  "spec_answer E S name p buf =
     (let mx = hx_maxports E; md = mac_dst mx (the (hs_mac S)) buf
      in case hs_fn S name of
           None \<Rightarrow> By_switch
         | Some (_, Lookup2) \<Rightarrow> To md 0
         | Some (_, Lookup3) \<Rightarrow>
             To (ip_forward (foldl ip_spec_step ip_spec_init (the (hs_ip S))) (NM_BDG_NOPORT mx) md buf) 0
         | Some (_, f) \<Rightarrow>
             To (forward (fn_slot f) (NM_BDG_BROADCAST mx) (eth_dst buf) (spec_table E S name p buf)) 0)"

text \<open>The latest accepted registration is in force, the two devices have nodes of their own, and
  the switch keeps the size of a table.\<close>

definition switch_ok :: "host_env \<Rightarrow> bool" where
  "switch_ok E \<longleftrightarrow> malloc_ok (hx_kenv E) \<and> (\<forall>regs name. hx_called E regs name = map_of regs name)
     \<and> mac_node E \<noteq> ip_node E \<and> (\<forall>buf p br. wf_bridge br \<longrightarrow> wf_bridge (hx_own E buf p br))"

text \<open>Requests that the handlers do not fault on, frames with room for the addresses, no unloading.\<close>

fun op_ok :: "host_env \<Rightarrow> host_op \<Rightarrow> bool" where
  "op_ok E (Insmod m typ) = True"
| "op_ok E (Rmmod m) = False"
| "op_ok E (Ioctl node cmd r) \<longleftrightarrow> wf_req r \<and> unat (rq_nr_arg1 r) < 2 ^ 31
     \<and> unat (rq_bdg_idx r) < (if node = ip_node E then IP_BRIDGES else MAC_BRIDGES)"
| "op_ok E (Frame name port buf) \<longleftrightarrow> 42 \<le> length buf"

definition owns :: "kmodule \<Rightarrow> lookup_fn \<Rightarrow> bool" where
  "owns m f \<longleftrightarrow> (f = Lookup2 \<longrightarrow> m = Mac_ko) \<and> (f = Lookup3 \<longrightarrow> m = Ip_ko)"

definition fns_owned :: "(string \<Rightarrow> (kmodule option \<times> lookup_fn) option) \<Rightarrow> kmodule set \<Rightarrow> bool" where
  "fns_owned fn L \<longleftrightarrow> (\<forall>name owner f. fn name = Some (owner, f) \<longrightarrow> (\<exists>m \<in> L. owner = Some m \<and> owns m f))"

lemma fns_owned_simps [simp]:
  "fns_owned Map.empty L"
  "fns_owned fn L \<Longrightarrow> fns_owned fn (insert m L)"
  "fns_owned fn L \<Longrightarrow> m \<in> L \<Longrightarrow> owns m f \<Longrightarrow> fns_owned (fn(name \<mapsto> (Some m, f))) L"
  by (auto simp: fns_owned_def)

definition spec_nodes :: "host_env \<Rightarrow> 'a option \<Rightarrow> 'b option \<Rightarrow> string \<Rightarrow> kmodule option" where
  "spec_nodes E mac ip node =
     (if node = mac_node E \<and> mac \<noteq> None then Some Mac_ko
      else if node = ip_node E \<and> ip \<noteq> None then Some Ip_ko else None)"

lemma spec_nodes_simps:
  "spec_nodes E None None = Map.empty"
  "mac_node E \<noteq> ip_node E \<Longrightarrow> (spec_nodes E None ip)(mac_node E \<mapsto> Mac_ko) = spec_nodes E (Some x) ip"
  "mac_node E \<noteq> ip_node E \<Longrightarrow> (spec_nodes E mac None)(ip_node E \<mapsto> Ip_ko) = spec_nodes E mac (Some y)"
  by (auto simp: spec_nodes_def fun_eq_iff)

definition host_refines :: "host_env \<Rightarrow> host_spec \<Rightarrow> host \<Rightarrow> bool" where
  "host_refines E S h \<longleftrightarrow>
     map_of (h_regs h) = hs_fn S
   \<and> (Learn_ko \<in> h_loaded h \<longleftrightarrow> hs_learn S) \<and> (Mac_ko \<in> h_loaded h \<longleftrightarrow> hs_mac S \<noteq> None)
   \<and> (Ip_ko \<in> h_loaded h \<longleftrightarrow> hs_ip S \<noteq> None) \<and> (hs_ip S \<noteq> None \<longrightarrow> hs_mac S \<noteq> None)
   \<and> (\<forall>reqs. hs_mac S = Some reqs \<longrightarrow> mac_ports_inv (hx_maxports E) reqs (h_mac h))
   \<and> (\<forall>reqs. hs_ip S = Some reqs \<longrightarrow> ip_refines (foldl ip_spec_step ip_spec_init reqs) (h_ip h))
   \<and> h_nodes h = spec_nodes E (hs_mac S) (hs_ip S)
   \<and> fns_owned (hs_fn S) (h_loaded h)
   \<and> h_ht h = hs_tables S \<and> (\<forall>name. wf_bridge (hs_tables S name))"

lemma refines_boot: "host_refines E spec_boot host_boot"
  by (simp add: host_refines_def spec_boot_def host_boot_def spec_nodes_simps)

lemma bdgfnreg_ok: "malloc_ok env \<Longrightarrow> \<exists>ret. bdgfnreg env idx f = Some (ret, vale_name idx, f)"
  by (simp add: bdgfnreg_def Let_def)

lemma map_of_accepted [simp]:
  "map_of (accepted E m [] @ regs) = map_of regs"
  "map_of (accepted E m [(vale_name idx, f)] @ regs) =
     (if netmap_bdg_ctl (hx_kenv E) (vale_name idx) f = 0 then (map_of regs)(vale_name idx \<mapsto> (Some m, f)) else map_of regs)"
  by (simp_all add: accepted_def)

lemma accepted_Nil [simp]: "accepted E m [] = []"
  by (simp add: accepted_def)

lemma added_simps [simp]: "added xs xs = []" "added xs (x # xs) = [x]"
  by (simp_all add: added_def)

lemma mac_regs:
  assumes "mac_bdgctl env st cmd r = Some (ret, st', r')"
  shows "ms_regs st' = (if cmd = BDGIOCREG then [(vale_name (rq_bdg_idx r), Lookup2)] else []) @ ms_regs st"
  using assms by (auto simp: mac_bdgctl_def bdgfnreg_def Let_def bind_eq_Some_conv split: if_splits)

lemma ip_regs:
  assumes "ip_bdgctl mx env st cmd r = Some (ret, st', r')"
  shows "is_regs st' = (if cmd = BDGIOCREG then [(vale_name (rq_bdg_idx r), Lookup3)] else []) @ is_regs st"
  using assms by (auto simp: ip_bdgctl_def bdgfnreg_def Let_def bind_eq_Some_conv split: if_splits)

lemma register_refines:
  assumes "host_refines E S h" "m \<in> h_loaded h" "owns m f"
  shows "host_refines E (spec_register E idx m f S) (h\<lparr>h_regs := accepted E m [(vale_name idx, f)] @ h_regs h\<rparr>)"
  using assms by (simp add: host_refines_def spec_register_def del: map_of_append)

lemma insmod_refines:
  assumes "switch_ok E" "host_refines E S h"
  shows "\<exists>ans h'. host_insmod E m typ h = Some (ans, h') \<and> host_refines E (spec_step E S (Insmod m typ)) h'"
proof (cases m)
  case Learn_ko
  have reg: "\<exists>ret. bdgfnreg (hx_kenv E) 0 f = Some (ret, vale_name 0, f)" for f
    using assms(1) bdgfnreg_ok by (simp add: switch_ok_def)
  show ?thesis
  proof (cases "hs_learn S")
    case True
    then show ?thesis using assms(2) Learn_ko
      by (intro exI [of _ Refused] exI [of _ h]) (simp add: load_defs host_refines_def)
  next
    case False
    let ?f = "if typ = 0 then Bdg_learning else Lsb_learning"
    let ?h1 = "h\<lparr>h_loaded := insert Learn_ko (h_loaded h)\<rparr>"
    let ?h = "?h1\<lparr>h_regs := accepted E Learn_ko [(vale_name 0, ?f)] @ h_regs ?h1\<rparr>"
    have "(if typ \<noteq> 0 then Lsb_learning else Bdg_learning) = ?f" by simp
    then have "mac_lsb_init (hx_kenv E) typ = Some (0, vale_name 0, ?f)"
      using reg [of ?f] by (auto simp: mac_lsb_init_def simp del: if_not_P)
    then have "host_insmod E m typ h = Some (Done 0, ?h)"
      using False assms(2) Learn_ko by (simp add: load_defs host_refines_def Let_def)
    moreover have "host_refines E (S\<lparr>hs_learn := True\<rparr>) ?h1"
      using assms(2) by (simp add: host_refines_def)
    then have "host_refines E (spec_register E 0 Learn_ko ?f (S\<lparr>hs_learn := True\<rparr>)) ?h"
      by (rule register_refines) (simp_all add: owns_def)
    ultimately show ?thesis using False Learn_ko by auto
  qed
next
  case Mac_ko
  show ?thesis
  proof (cases "hs_mac S = None")
    case False
    then show ?thesis using assms(2) Mac_ko
      by (intro exI [of _ Refused] exI [of _ h]) (auto simp: load_defs host_refines_def)
  next
    case True
    then have "hs_ip S = None" using assms(2) by (auto simp: host_refines_def)
    then show ?thesis using True assms Mac_ko mac_ports_init [of "hx_maxports E"] spec_nodes_simps(2) [of E]
      by (simp add: load_defs host_refines_def switch_ok_def split_def Let_def)
        (simp add: mac_static_init_def)
  qed
next
  case Ip_ko
  show ?thesis
  proof (cases "hs_mac S \<noteq> None \<and> hs_ip S = None")
    case False
    then show ?thesis using assms(2) Ip_ko
      by (intro exI [of _ Refused] exI [of _ h]) (auto simp: load_defs host_refines_def)
  next
    case True
    then show ?thesis using assms Ip_ko ip_refines_init spec_nodes_simps(3) [of E]
      by (simp add: load_defs host_refines_def switch_ok_def split_def Let_def)
        (simp add: ip_static_init_def)
  qed
qed

lemma refines_node:
  assumes "host_refines E S h" "switch_ok E"
  shows "h_nodes h node = Some Mac_ko \<longleftrightarrow> node = mac_node E \<and> hs_mac S \<noteq> None"
    "h_nodes h node = Some Ip_ko \<longleftrightarrow> node = ip_node E \<and> hs_ip S \<noteq> None"
    "h_nodes h node \<noteq> Some Learn_ko"
  using assms by (auto simp: host_refines_def switch_ok_def spec_nodes_def split: if_splits)

lemma spec_nodes_again: "mac \<noteq> None \<Longrightarrow> spec_nodes E mac ip = spec_nodes E (Some x) ip"
  "ip \<noteq> None \<Longrightarrow> spec_nodes E mac ip = spec_nodes E mac (Some y)"
  by (auto simp: spec_nodes_def fun_eq_iff)

lemma mac_ioctl_refines:
  assumes E: "switch_ok E" and ref: "host_refines E S h" and node: "h_nodes h node = Some Mac_ko"
    and ok: "op_ok E (Ioctl node cmd r)"
  shows "\<exists>ans h'. host_ioctl E node cmd r h = Some (ans, h') \<and> host_refines E (spec_ioctl E node cmd r S) h'"
proof -
  obtain reqs where reqs: "hs_mac S = Some reqs" "node = mac_node E"
    using refines_node(1) [OF ref E] node by auto
  have inv: "mac_ports_inv (hx_maxports E) reqs (h_mac h)" using ref reqs(1) by (simp add: host_refines_def)
  have wf: "wf_mac_rt (ms_rt (h_mac h))" using inv by (simp add: mac_ports_inv_def)
  have r: "wf_req r" "unat (rq_nr_arg1 r) < 2 ^ 31" "unat (rq_bdg_idx r) < MAC_BRIDGES"
    using ok E reqs(2) by (auto simp: switch_ok_def)
  obtain ret st' r' where st': "mac_bdgctl (hx_kenv E) (h_mac h) cmd r = Some (ret, st', r')"
    using mac_bdgctl_total [OF wf r(1,3,2)] E unfolding switch_ok_def by blast
  have inv': "mac_ports_inv (hx_maxports E) (reqs @ [(cmd, r)]) st'"
    by (rule mac_ports_step [OF inv r(1) st'])
  let ?h = "h\<lparr>h_mac := st', h_regs := accepted E Mac_ko (added (ms_regs (h_mac h)) (ms_regs st')) @ h_regs h\<rparr>"
  have "host_ioctl E node cmd r h = Some (Served ret r', ?h)"
    using node st' by (simp add: host_ioctl_def bdg_fops_def)
  moreover have "host_refines E (spec_ioctl E node cmd r S) ?h"
  proof -
    let ?S = "S\<lparr>hs_mac := Some (reqs @ [(cmd, r)])\<rparr>" and ?h1 = "h\<lparr>h_mac := st'\<rparr>"
    have ref1: "host_refines E ?S ?h1" using ref reqs(1) inv' spec_nodes_again(1) [of "hs_mac S" E]
      by (simp add: host_refines_def)
    have "Mac_ko \<in> h_loaded ?h1" "owns Mac_ko Lookup2" using ref reqs(1) by (auto simp: host_refines_def owns_def)
    note reg = register_refines [OF ref1 this, of "rq_bdg_idx r"]
    show ?thesis
    proof (cases "cmd = BDGIOCREG")
      case True
      then show ?thesis using reg reqs mac_regs [OF st'] by (simp add: spec_ioctl_def)
    next
      case False
      then show ?thesis using ref1 reqs mac_regs [OF st'] by (simp add: spec_ioctl_def)
    qed
  qed
  ultimately show ?thesis by blast
qed

lemma ip_ioctl_refines:
  assumes E: "switch_ok E" and ref: "host_refines E S h" and node: "h_nodes h node = Some Ip_ko"
    and ok: "op_ok E (Ioctl node cmd r)"
  shows "\<exists>ans h'. host_ioctl E node cmd r h = Some (ans, h') \<and> host_refines E (spec_ioctl E node cmd r S) h'"
proof -
  obtain reqs where reqs: "hs_ip S = Some reqs" "node = ip_node E"
    using refines_node(2) [OF ref E] node by auto
  have other: "node \<noteq> mac_node E" using E reqs(2) by (auto simp: switch_ok_def)
  let ?S = "foldl ip_spec_step ip_spec_init reqs"
  have inv: "ip_refines ?S (h_ip h)" using ref reqs(1) by (simp add: host_refines_def)
  have wf: "wf_ip_rt (is_rt (h_ip h))" using inv by (simp add: ip_refines_def)
  have r: "wf_req r" "unat (rq_nr_arg1 r) < 2 ^ 31" "unat (rq_bdg_idx r) < IP_BRIDGES"
    using ok reqs(2) by auto
  obtain ret st' r' where st': "ip_bdgctl (hx_maxports E) (hx_kenv E) (h_ip h) cmd r = Some (ret, st', r')"
    using ip_bdgctl_total [OF wf r(1,3,2)] E unfolding switch_ok_def by blast
  have inv': "ip_refines (foldl ip_spec_step ip_spec_init (reqs @ [(cmd, r)])) st'"
    using ip_step_refines [OF inv r(1) st'] by simp
  let ?h = "h\<lparr>h_ip := st', h_regs := accepted E Ip_ko (added (is_regs (h_ip h)) (is_regs st')) @ h_regs h\<rparr>"
  have "host_ioctl E node cmd r h = Some (Served ret r', ?h)"
    using node st' by (simp add: host_ioctl_def bdg_fops_def)
  moreover have "host_refines E (spec_ioctl E node cmd r S) ?h"
  proof -
    let ?S' = "S\<lparr>hs_ip := Some (reqs @ [(cmd, r)])\<rparr>" and ?h1 = "h\<lparr>h_ip := st'\<rparr>"
    have ref1: "host_refines E ?S' ?h1" using ref reqs(1) inv' spec_nodes_again(2) [of "hs_ip S" E]
      by (simp add: host_refines_def del: foldl_append)
    have "Ip_ko \<in> h_loaded ?h1" "owns Ip_ko Lookup3" using ref reqs(1) by (auto simp: host_refines_def owns_def)
    note reg = register_refines [OF ref1 this, of "rq_bdg_idx r"]
    show ?thesis
    proof (cases "cmd = BDGIOCREG")
      case True
      then show ?thesis using reg reqs other ip_regs [OF st'] by (simp add: spec_ioctl_def)
    next
      case False
      then show ?thesis using ref1 reqs other ip_regs [OF st'] by (simp add: spec_ioctl_def)
    qed
  qed
  ultimately show ?thesis by blast
qed

lemma ioctl_refines:
  assumes "switch_ok E" "host_refines E S h" "op_ok E (Ioctl node cmd r)"
  shows "\<exists>ans h'. host_ioctl E node cmd r h = Some (ans, h') \<and> host_refines E (spec_ioctl E node cmd r S) h'"
proof (cases "h_nodes h node")
  case None
  then have "spec_ioctl E node cmd r S = S"
    using refines_node(1,2) [OF assms(2,1), of node] by (auto simp: spec_ioctl_def)
  then show ?thesis using None assms(2) by (simp add: host_ioctl_def)
next
  case (Some m)
  then show ?thesis
    using mac_ioctl_refines [OF assms(1,2) _ assms(3)] ip_ioctl_refines [OF assms(1,2) _ assms(3)]
      refines_node(3) [OF assms(2,1), of node] by (cases m) auto
qed

lemma mac_ports_lookup:
  "mac_ports_inv mx reqs st \<Longrightarrow> 12 \<le> length buf \<Longrightarrow> lookup2 (ms_rt st) buf = Some (mac_dst mx reqs buf, 0)"
  using lookup2_get [of "ms_rt st" buf] by (simp add: mac_ports_inv_def mac_dst_def)

lemma frame_refines:
  assumes E: "switch_ok E" and ref: "host_refines E S h" and len: "42 \<le> length buf"
  shows "\<exists>h'. host_frame E name p buf h = Some (spec_answer E S name p buf, h')
     \<and> host_refines E (spec_step E S (Frame name p buf)) h'"
proof (cases "hs_fn S name")
  case None
  then have "hx_called E (h_regs h) name = None" using E ref by (simp add: switch_ok_def host_refines_def)
  moreover have "host_refines E (spec_step E S (Frame name p buf))
      (h\<lparr>h_ht := (h_ht h)(name := hx_own E buf p (h_ht h name))\<rparr>)"
    using E ref None by (simp add: host_refines_def switch_ok_def spec_table_def)
  ultimately show ?thesis using None by (simp add: host_frame_def spec_answer_def)
next
  case (Some x)
  obtain owner f where o: "x = (owner, f)" by (cases x)
  have reg: "fns_owned (hs_fn S) (h_loaded h)" "map_of (h_regs h) name = Some x" "wf_bridge (h_ht h name)"
    using ref Some by (simp_all add: host_refines_def)
  obtain m where m: "owner = Some m" "m \<in> h_loaded h" "owns m f"
    using reg(1) Some o unfolding fns_owned_def by blast
  then have x: "x = (Some m, f)" using o by simp
  have fn: "hx_called E (h_regs h) name = Some (Some m, f)" "m \<in> h_loaded h" "owns m f" "wf_bridge (h_ht h name)"
    using E reg(2,3) m x by (simp_all add: switch_ok_def)
  have len': "12 \<le> length buf" using len by simp
  have table: "h_ht h name = hs_tables S name" using ref by (simp add: host_refines_def)
  have learned: "host_refines E (spec_step E S (Frame name p buf)) (h\<lparr>h_ht := (h_ht h)(name := br)\<rparr>)"
    if "wf_bridge br" "br = spec_table E S name p buf" for br
    using ref that by (simp add: host_refines_def)
  have kept: "host_refines E (spec_step E S (Frame name p buf)) h" if "spec_table E S name p buf = hs_tables S name"
    using ref by (simp add: host_refines_def that)
  show ?thesis
  proof (cases f)
    case Bdg_learning
    have t: "spec_table E S name p buf = learn rthash_slot (eth_src buf) p (h_ht h name)"
      using Some x Bdg_learning table by (simp add: spec_table_def fn_slot_def)
    show ?thesis
      using fn Some x Bdg_learning learned [OF bdg.wf_learn [OF fn(4)] t [symmetric]]
        bdg_learning_whole [OF fn(4) len']
      by (simp add: host_frame_def spec_answer_def t fn_slot_def Let_def)
  next
    case Lsb_learning
    have t: "spec_table E S name p buf = learn lsb_slot (eth_src buf) p (h_ht h name)"
      using Some x Lsb_learning table by (simp add: spec_table_def fn_slot_def)
    show ?thesis
      using fn Some x Lsb_learning learned [OF lsb.wf_learn [OF fn(4)] t [symmetric]]
        lsb_learning_whole [OF fn(4) len']
      by (simp add: host_frame_def spec_answer_def t fn_slot_def learn_nodst_def Let_def)
  next
    case Lookup2
    then have "m = Mac_ko" using fn(3) by (simp add: owns_def)
    then obtain reqs where reqs: "hs_mac S = Some reqs" "mac_ports_inv (hx_maxports E) reqs (h_mac h)"
      using ref fn(2) by (auto simp: host_refines_def)
    moreover have "spec_table E S name p buf = hs_tables S name" using Some x Lookup2 by (simp add: spec_table_def)
    ultimately show ?thesis
      using fn Some x Lookup2 kept mac_ports_lookup [OF reqs(2) len']
      by (simp add: host_frame_def spec_answer_def Let_def)
  next
    case Lookup3
    then have "m = Ip_ko" using fn(3) by (simp add: owns_def)
    then obtain reqs rs where reqs: "hs_mac S = Some reqs" "mac_ports_inv (hx_maxports E) reqs (h_mac h)"
      and rs: "hs_ip S = Some rs" "ip_refines (foldl ip_spec_step ip_spec_init rs) (h_ip h)"
      using ref fn(2) by (auto simp: host_refines_def)
    moreover have "spec_table E S name p buf = hs_tables S name" using Some x Lookup3 by (simp add: spec_table_def)
    ultimately show ?thesis
      using fn Some x Lookup3 kept lookup3_forward [OF rs(2) len mac_ports_lookup [OF reqs(2) len']]
      by (simp add: host_frame_def spec_answer_def Let_def)
  qed
qed

lemma step_refines:
  assumes "switch_ok E" "host_refines E S h" "op_ok E op"
  shows "\<exists>ans h'. host_step E op h = Some (ans, h') \<and> host_refines E (spec_step E S op) h'"
  using assms insmod_refines ioctl_refines frame_refines by (cases op) (simp, simp, fastforce, fastforce)

lemma run_refines:
  "switch_ok E \<Longrightarrow> host_refines E S h \<Longrightarrow> \<forall>op \<in> set ops. op_ok E op \<Longrightarrow>
   \<exists>h'. host_run E h ops = Some h' \<and> host_refines E (foldl (spec_step E) S ops) h'"
proof (induction ops arbitrary: S h)
  case Nil
  then show ?case by (simp add: host_run_def)
next
  case (Cons op ops)
  then obtain ans h1 where "host_step E op h = Some (ans, h1)" "host_refines E (spec_step E S op) h1"
    using step_refines [of E S h op] by auto
  then show ?case using Cons.IH [of "spec_step E S op" h1] Cons.prems by (simp add: host_run_def)
qed

section \<open>Properties\<close>

text \<open>C15: If every request is for a bridge of its module and has no negative listing index, every
  frame has at least 42 octets and no module is unloaded, then the modules work together
  without a fault, in whatever order they are loaded, configured and used, and every frame gets
  the answer of the abstract host: that of the function last registered and accepted for its
  bridge, which the static modules compute from the requests they have served alone, and the
  learning functions from the table of the bridge after the source of the frame was learned.\<close>
theorem host_forwards:
  assumes "switch_ok E" "\<forall>op \<in> set ops. op_ok E op" "42 \<le> length buf"
  shows "\<exists>h h'. host_run E host_boot ops = Some h
     \<and> host_step E (Frame name p buf) h
         = Some (spec_answer E (foldl (spec_step E) spec_boot ops) name p buf, h')"
  using run_refines [OF assms(1) refines_boot assms(2)] frame_refines [OF assms(1) _ assms(3)]
  by (metis host_step.simps(4))

text \<open>The witness loads all three modules, registers bridge 0 with the IP module and gives it a
  route; the frame of the witness in \<open>Ip_Static\<close> goes where that route says.\<close>

definition sample_host :: host_env where
  "sample_host = \<lparr>hx_kenv = env_ok, hx_maxports = 254, hx_called = map_of, hx_make_dev = (\<lambda>dev _. dev),
     hx_own = (\<lambda>_ _ br. br)\<rparr>"

lemma sample_host_ok: "switch_ok sample_host"
  by (simp add: switch_ok_def sample_host_def env_ok_def mac_node_def ip_node_def mac_cdevsw_def ip_cdevsw_def)

definition sample_ops :: "host_op list" where
  "sample_ops = [Insmod Learn_ko 1, Insmod Ip_ko 0, Insmod Mac_ko 0, Insmod Ip_ko 0,
     Ioctl ''ips'' BDGIOCREG ip_req, Ioctl ''ips'' BDGIOCADDIF ip_req]"

lemma sample_ops_spec:
  "spec_answer sample_host (foldl (spec_step sample_host) spec_boot sample_ops) ''vale0:'' 3 ip_frame = To 4 0"
proof -
  let ?S = "foldl (spec_step sample_host) spec_boot sample_ops"
  have n: "mac_node sample_host = ''macs''" "ip_node sample_host = ''ips''" "vale_name 0 = ''vale0:''"
    by (simp_all add: mac_node_def ip_node_def sample_host_def mac_cdevsw_def ip_cdevsw_def vale_name_whole
        fmt_u_def dec_nat.simps)
  have i: "rq_bdg_idx ip_req = 0" "netmap_bdg_ctl (hx_kenv sample_host) name f = 0" "hx_maxports sample_host = 254" for name f
    by (simp_all add: ip_req_def sample_host_def env_ok_def)
  have S: "hs_mac ?S = Some []" "hs_ip ?S = Some [(BDGIOCREG, ip_req), (BDGIOCADDIF, ip_req)]"
    "hs_fn ?S ''vale0:'' = Some (Some Ip_ko, Lookup3)"
    by (simp_all add: sample_ops_def spec_boot_def spec_ioctl_def spec_register_def n i Let_def)
  have "mac_dst 254 [] ip_frame = 255"
    by (simp add: mac_dst_def ip_frame_def unicast_def eth_src_def or_noport_def mac_static_port_def NM_BDG_NOPORT_def)
  then show ?thesis
    using ip_forward_sample by (simp add: spec_answer_def S i Let_def)
qed

theorem host_forwards_witness:
  "\<exists>h h'. host_run sample_host host_boot sample_ops = Some h
     \<and> host_step sample_host (Frame ''vale0:'' 3 ip_frame) h = Some (To 4 0, h')"
proof -
  have ok: "\<forall>op \<in> set sample_ops. op_ok sample_host op"
    by (simp add: sample_ops_def wf_req_def ip_req_def IP_BRIDGES_def MAC_BRIDGES_def)
  have "42 \<le> length ip_frame" by (simp add: ip_frame_def)
  from host_forwards [OF sample_host_ok ok this, of "''vale0:''" 3] show ?thesis
    unfolding sample_ops_spec by blast
qed

lemma map_of_freed:
  "map_of (freed m regs) name =
     map_option (\<lambda>(owner, f). (if owner = Some m then None else owner, f)) (map_of regs name)"
  by (induction regs) (auto simp: freed_def)

lemma frame_freed:
  assumes "switch_ok E" "h_regs h' = freed m regs" "map_of regs name = Some (Some m, f)"
  shows "host_frame E name p buf h' = None"
  using assms by (simp add: host_frame_def switch_ok_def map_of_freed)

lemma rmmod_regs:
  assumes "switch_ok E" "host_rmmod E m h = Some (Done ret, h')"
  shows "h_regs h' = freed m (accepted E m [(vale_name 0, Bdg_learning)] @ h_regs h)"
proof -
  obtain ret where "bdgfnreg (hx_kenv E) 0 Bdg_learning = Some (ret, vale_name 0, Bdg_learning)"
    using assms(1) bdgfnreg_ok unfolding switch_ok_def by blast
  then show ?thesis using assms(2)
    by (auto simp: unload_defs Let_def mac_lsb_exit_def mac_static_exit_def ip_static_exit_def
        split: if_splits kmodule.splits)
qed

text \<open>C16: Unloading a module leaves the switch with a function that is gone: the exit functions
  put \<open>bdg_learning\<close> on bridge 0, which is the copy of the module that is being unloaded, and
  on no other bridge is the module's function taken back. So the next frame of bridge 0, and
  of every other bridge on which the module's function was in force, is a jump into freed
  memory.\<close>
theorem unload_dangles:
  assumes "switch_ok E" "host_step E (Rmmod m) h = Some (Done ret, h')"
    and "netmap_bdg_ctl (hx_kenv E) (vale_name 0) Bdg_learning = 0"
  shows "host_step E (Frame (vale_name 0) p buf) h' = None
     \<and> (\<forall>name f. hx_called E (h_regs h) name = Some (Some m, f) \<longrightarrow> host_step E (Frame name p buf) h' = None)"
proof -
  have regs: "h_regs h' = freed m (accepted E m [(vale_name 0, Bdg_learning)] @ h_regs h)"
    using rmmod_regs [OF assms(1)] assms(2) by simp
  have new: "map_of (accepted E m [(vale_name 0, Bdg_learning)] @ h_regs h) =
      (map_of (h_regs h))(vale_name 0 \<mapsto> (Some m, Bdg_learning))"
    using assms(3) by (simp del: map_of_append)
  have "host_frame E name p buf h' = None"
    if "name = vale_name 0 \<or> map_of (h_regs h) name = Some (Some m, f)" for name f
    by (rule frame_freed [OF assms(1) regs, of _ "if name = vale_name 0 then Bdg_learning else f"])
       (use that new in auto)
  then show ?thesis using assms(1) by (auto simp: switch_ok_def)
qed

theorem unload_dangles_witness:
  "\<exists>h'. host_step sample_host (Rmmod Mac_ko) (snd (the (host_step sample_host (Insmod Mac_ko 0) host_boot)))
       = Some (Done 0, h') \<and> host_step sample_host (Frame (vale_name 0) 3 ip_frame) h' = None"
proof -
  let ?h = "snd (the (host_step sample_host (Insmod Mac_ko 0) host_boot))"
  have "netmap_bdg_ctl (hx_kenv sample_host) (vale_name 0) Bdg_learning = 0"
    by (simp add: sample_host_def env_ok_def)
  moreover have "\<exists>h'. host_step sample_host (Rmmod Mac_ko) ?h = Some (Done 0, h')"
    by (simp add: load_defs unload_defs host_boot_def mac_static_init_def mac_static_exit_def
        bdgfnreg_def sample_host_def env_ok_def Let_def)
  ultimately show ?thesis
    using unload_dangles [OF sample_host_ok, of Mac_ko ?h 0 _ 3 ip_frame] by blast
qed

end
