(* ===== verification/Hash_Test.thy ===== *)
theory Hash_Test
  imports Hashes
begin

text \<open>
  The test program \<open>bdgfn/hashtest.c\<close>: the candidate hashes of an IPv4 address it was
  written to compare, and its \<open>main\<close>, which prints the hash of every address
  \<open>10.1.j.i\<close> of a range. What the program prints is the list of its lines; a fault (a
  missing argument) is \<open>None\<close>.
\<close>

section \<open>The candidate hashes\<close>

definition ip_rthash4 :: "u8 list \<Rightarrow> u32 option" where
  "ip_rthash4 addr = do {
     a3 \<leftarrow> rd8 addr 3;
     a2 \<leftarrow> rd8 addr 2;
     let c = push_bit 8 (ucast a3) OR ucast a2;
     Some (c AND 65535)
   }"

definition ip_rthash3 :: "u8 list \<Rightarrow> u32 option" where
  "ip_rthash3 addr = do {
     a3 \<leftarrow> rd8 addr 3;
     a2 \<leftarrow> rd8 addr 2;
     a1 \<leftarrow> rd8 addr 1;
     a0 \<leftarrow> rd8 addr 0;
     let b = hash_seed + push_bit 16 (ucast a3);
     let b = b + push_bit 8 (ucast a2);
     let b = b + ucast a3;
     let a = hash_seed + push_bit 24 (ucast a2);
     let a = a + push_bit 16 (ucast a1);
     let a = a + push_bit 8 (ucast a0);
     let (a, b, c) = mix (a, b, 0);
     Some (c AND 65535)
   }"

definition ip_rthash2 :: "u8 list \<Rightarrow> u32 option" where
  "ip_rthash2 addr = do {
     a3 \<leftarrow> rd8 addr 3;
     a2 \<leftarrow> rd8 addr 2;
     a1 \<leftarrow> rd8 addr 1;
     a0 \<leftarrow> rd8 addr 0;
     let c = ucast a3 + ucast a2 + ucast a1 + ucast a0;
     Some (c AND 65535)
   }"

definition ip_rthash :: "u8 list \<Rightarrow> u32 option" where
  "ip_rthash addr = do {
     a3 \<leftarrow> rd8 addr 3;
     a2 \<leftarrow> rd8 addr 2;
     a1 \<leftarrow> rd8 addr 1;
     a0 \<leftarrow> rd8 addr 0;
     let b = hash_seed + push_bit 16 (ucast a3);
     let a = hash_seed + ucast a2;
     let a = a + ucast a1;
     let a = a + ucast a0;
     let (a, b, c) = mix (a, b, 0);
     Some (c AND 65535)
   }"

lemma ip_rthash4_iphash2: "ip_rthash4 = iphash2"
  by (simp add: fun_eq_iff ip_rthash4_def iphash2_def)

text \<open>The two hashes that the IP module uses are the candidates \<open>ip_rthash4\<close> and
  \<open>ip_rthash2\<close> of the test program, on every buffer.\<close>
lemma ip_module_hashes: "iphash2 = ip_rthash4 \<and> iphash = ip_rthash2"
  by (simp add: fun_eq_iff ip_rthash4_def iphash2_def ip_rthash2_def iphash_def)

section \<open>The program\<close>

text \<open>
  The two loops of \<open>main\<close>, with the address buffer and the lines printed so far as
  their state; a line is the pair of integers that \<open>printf\<close> is given.
\<close>

type_synonym hash_line = "u8 \<times> u32"

function sweep_inner :: "u32 \<Rightarrow> u32 \<Rightarrow> u8 list \<Rightarrow> hash_line list \<Rightarrow> (u8 list \<times> hash_line list) option" where
  "sweep_inner l4 i saddr out =
     (if i < l4 then
        (case arr_set saddr 3 (ucast i) of
           None \<Rightarrow> None
         | Some saddr \<Rightarrow>
             (case (rd8 saddr 3, ip_rthash4 saddr) of
                (Some a3, Some h) \<Rightarrow> sweep_inner l4 (i + 1) saddr (out @ [(a3, h)])
              | _ \<Rightarrow> None))
      else Some (saddr, out))"
  by pat_completeness auto

text \<open>An index below a bound does not wrap when it is advanced, so both loops end.\<close>

lemma unat_succ_less: "i < (l :: u32) \<Longrightarrow> unat (i + 1) = Suc (unat i)"
  using unat_plus_1 [of i] unat_u32_less [of l] by (simp add: word_less_nat_alt)

termination sweep_inner
  by (relation "measure (\<lambda>(l4, i, _). unat l4 - unat i)")
     (auto simp: unat_succ_less word_less_nat_alt diff_less_mono2)

declare sweep_inner.simps [simp del]

function sweep_outer :: "u32 \<Rightarrow> u32 \<Rightarrow> u32 \<Rightarrow> u8 list \<Rightarrow> hash_line list \<Rightarrow> (u8 list \<times> hash_line list) option" where
  "sweep_outer l3 l4 j saddr out =
     (if j < l3 then
        (case arr_set saddr 2 (ucast j) of
           None \<Rightarrow> None
         | Some saddr \<Rightarrow>
             (case sweep_inner l4 1 saddr out of
                None \<Rightarrow> None
              | Some (saddr, out) \<Rightarrow> sweep_outer l3 l4 (j + 1) saddr out))
      else Some (saddr, out))"
  by pat_completeness auto

termination sweep_outer
  by (relation "measure (\<lambda>(l3, l4, j, _). unat l3 - unat j)")
     (auto simp: unat_succ_less word_less_nat_alt diff_less_mono2)

declare sweep_outer.simps [simp del]

text \<open>
  \<open>atoi\<close>: blanks, a sign, and digits up to the first other character; the value is that of
  \<open>strtol\<close>, which stays within a 64-bit \<open>long\<close>, cut to an int.
\<close>

definition strtol_int :: "bool \<Rightarrow> nat \<Rightarrow> u32" where
  "strtol_int neg n = of_int (if neg then max (- (2 ^ 63)) (- int n) else min (2 ^ 63 - 1) (int n))"

lemma strtol_int_small: "n < 2 ^ 63 \<Longrightarrow> strtol_int False n = of_nat n"
  by (subgoal_tac "min (2 ^ 63 - 1) (int n) = int n") (simp_all add: strtol_int_def)

definition atoi :: "string \<Rightarrow> u32" where
  "atoi s = (case dropWhile is_blank s of
       [] \<Rightarrow> 0
     | c # cs \<Rightarrow> if c = CHR ''-'' then strtol_int True (undec (digits_of cs))
                else if c = CHR ''+'' then strtol_int False (undec (digits_of cs))
                else strtol_int False (undec (digits_of (c # cs))))"

definition hash_print :: "hash_line \<Rightarrow> string" where
  "hash_print l = dec_nat (unat (fst l)) @ '' '' @ dec_nat (unat (snd l)) @ [CHR 0x0A]"

definition hashtest_lines :: "u32 \<Rightarrow> u32 \<Rightarrow> hash_line list option" where
  "hashtest_lines l3 l4 = map_option snd (sweep_outer l3 l4 1 [10, 1, 200, 1] [])"

definition hashtest_main :: "string list \<Rightarrow> (int \<times> string list) option" where
  "hashtest_main argv = do {
     a1 \<leftarrow> arr_get argv 1;
     a2 \<leftarrow> arr_get argv 2;
     out \<leftarrow> hashtest_lines (atoi a1) (atoi a2);
     Some (0, map hash_print out)
   }"

text \<open>The line for \<open>10.1.j.i\<close>, and the lists the loops print.\<close>

definition hash_at :: "nat \<Rightarrow> nat \<Rightarrow> hash_line" where
  "hash_at j i = (of_nat i, (push_bit 8 (ucast (of_nat i :: u8)) OR ucast (of_nat j :: u8)) AND 65535)"

lemma ip_rthash4_hash_at:
  "length s = 4 \<Longrightarrow> s ! 2 = of_nat j \<Longrightarrow> s ! 3 = of_nat i \<Longrightarrow> ip_rthash4 s = Some (snd (hash_at j i))"
  by (simp add: ip_rthash4_def rd8_Some hash_at_def)

lemma ucast_of_nat_u8: "ucast (of_nat i :: u32) = (of_nat i :: u8)"
proof -
  have "i mod 4294967296 mod 256 = i mod 256" by (rule mod_mod_cancel) simp
  then show ?thesis
    by (simp add: word_unat_eq_iff unsigned_ucast_eq unat_of_nat take_bit_eq_mod)
qed

lemma index_u32: "i < unat (l :: u32) \<Longrightarrow> (of_nat i :: u32) < l"
  using unat_of_nat_le [of i l] by (simp add: word_less_nat_alt)

lemma index_u32_end: "unat (l :: u32) \<le> i \<Longrightarrow> i \<le> unat l \<Longrightarrow> \<not> (of_nat i :: u32) < l"
  using unat_of_nat_le [of i l] by (simp add: word_less_nat_alt)

lemma sweep_inner_lines:
  assumes "length saddr = 4" "saddr ! 2 = of_nat j" "i \<le> unat l4"
  shows "\<exists>s. sweep_inner l4 (of_nat i) saddr out = Some (s, out @ map (hash_at j) [i..<unat l4])
    \<and> length s = 4"
  using assms
proof (induction "unat l4 - i" arbitrary: i saddr out)
  case 0
  then show ?case by (simp add: sweep_inner.simps index_u32_end)
next
  case (Suc k)
  then have i: "i < unat l4" "k = unat l4 - Suc i" by simp_all
  let ?s = "saddr[3 := of_nat i]"
  have s: "length ?s = 4" "?s ! 2 = of_nat j" "?s ! 3 = of_nat i" "Suc i \<le> unat l4"
    using Suc.prems i by simp_all
  have step: "sweep_inner l4 (of_nat i) saddr out
      = sweep_inner l4 (of_nat (Suc i)) ?s (out @ [hash_at j i])"
    using s Suc.prems index_u32 [OF i(1)] ucast_of_nat_u8 ip_rthash4_hash_at [OF s(1-3)]
    by (simp add: sweep_inner.simps [of l4 "of_nat i"] arr_set_Some rd8_Some hash_at_def add.commute)
  show ?case
    using Suc.hyps(1) [OF i(2) s(1,2,4), of "out @ [hash_at j i]"] i
    unfolding step by (simp add: upt_conv_Cons)
qed

lemma sweep_outer_lines:
  assumes "length saddr = 4" "j \<le> unat l3" "1 \<le> unat l4"
  shows "\<exists>s. sweep_outer l3 l4 (of_nat j) saddr out =
      Some (s, out @ concat (map (\<lambda>j. map (hash_at j) [1..<unat l4]) [j..<unat l3]))"
  using assms
proof (induction "unat l3 - j" arbitrary: j saddr out)
  case 0
  then show ?case by (simp add: sweep_outer.simps index_u32_end)
next
  case (Suc k)
  then have j: "j < unat l3" "k = unat l3 - Suc j" by simp_all
  let ?s = "saddr[2 := of_nat j]"
  have s: "length ?s = 4" "?s ! 2 = of_nat j" "Suc j \<le> unat l3" using Suc.prems j by simp_all
  obtain s' where s': "length s' = 4"
    "sweep_inner l4 (of_nat 1) ?s out = Some (s', out @ map (hash_at j) [1..<unat l4])"
    using sweep_inner_lines [OF s(1,2) Suc.prems(3)] by blast
  have step: "sweep_outer l3 l4 (of_nat j) saddr out
      = sweep_outer l3 l4 (of_nat (Suc j)) s' (out @ map (hash_at j) [1..<unat l4])"
    using s' Suc.prems index_u32 [OF j(1)] ucast_of_nat_u8
    by (simp add: sweep_outer.simps [of l3 l4 "of_nat j"] arr_set_Some add.commute)
  show ?case
    using Suc.hyps(1) [OF j(2) s'(1) s(3) Suc.prems(3), of "out @ map (hash_at j) [1..<unat l4]"] j
    unfolding step by (simp add: upt_conv_Cons)
qed

lemma hash_at_inject:
  assumes "snd (hash_at j i) = snd (hash_at j' i')"
    "i \<in> {1..256}" "j \<in> {1..256}" "i' \<in> {1..256}" "j' \<in> {1..256}"
  shows "i = i' \<and> j = j'"
proof -
  have "map_option unat (iphash2 [0, 0, of_nat j, of_nat i])
      = Some (unat (of_nat i :: u8) * 256 + unat (of_nat j :: u8))" for i j
    using iphash2_eq [of "[0, 0, of_nat j, of_nat i]"] by simp
  then have u: "unat (snd (hash_at j i)) = unat (of_nat i :: u8) * 256 + unat (of_nat j :: u8)" for i j
    by (simp add: iphash2_def rd8_Some hash_at_def)
  have "unat (of_nat j :: u8) = unat (of_nat j' :: u8) \<and> unat (of_nat i :: u8) = unat (of_nat i' :: u8)"
    using octet_pair_eq [OF unat_u8_less unat_u8_less] arg_cong [OF assms(1), of unat]
    unfolding u by blast
  then have "i mod 256 = i' mod 256" "j mod 256 = j' mod 256" by (simp_all add: unat_of_nat)
  moreover have "i = i'" if "i mod 256 = i' mod 256" "i \<in> {1..256}" "i' \<in> {1..256}" for i i' :: nat
    using that by (cases "i = 256"; cases "i' = 256") auto
  ultimately show ?thesis using assms(2-5) by blast
qed

lemma hash_at_distinct:
  assumes "unat l3 \<le> 257" "unat (l4 :: u32) \<le> 257"
  shows "distinct (map snd (concat (map (\<lambda>j. map (hash_at j) [1..<unat l4]) [1..<unat (l3 :: u32)])))"
proof -
  have "distinct (concat (map (\<lambda>j. map (\<lambda>i. (j, i)) [1..<unat l4]) [1..<unat l3]))"
    using distinct_product [of "[1..<unat l3]" "[1..<unat l4]"]
    by (simp add: product_concat_map)
  moreover have "inj_on (\<lambda>(j, i). snd (hash_at j i)) ({1..256} \<times> {1..256})"
    by (auto intro!: inj_onI dest: hash_at_inject)
  ultimately have "distinct (map (\<lambda>(j, i). snd (hash_at j i))
      (concat (map (\<lambda>j. map (\<lambda>i. (j, i)) [1..<unat l4]) [1..<unat l3])))"
    using assms by (subst distinct_map) (auto elim!: inj_on_subset)
  moreover have "map (\<lambda>(j, i). snd (hash_at j i)) (concat (map (\<lambda>j. map (\<lambda>i. (j, i)) [1..<unat l4]) [1..<unat l3]))
     = map snd (concat (map (\<lambda>j. map (hash_at j) [1..<unat l4]) [1..<unat l3]))"
    by (simp add: map_concat comp_def)
  ultimately show ?thesis by simp
qed

text \<open>C35: For bounds up to 257 the program prints one line for each address \<open>10.1.j.i\<close> with
  \<open>j\<close> and \<open>i\<close> from 1 to just below the bounds, and no two lines have the same hash.\<close>
theorem hashtest_no_collision:
  assumes "l3 \<le> 257" "l4 \<le> 257" "1 \<le> l3" "1 \<le> l4"
  shows "\<exists>out. hashtest_lines l3 l4 = Some out \<and> distinct (map snd out)
     \<and> length out = (unat l3 - 1) * (unat l4 - 1)
     \<and> map fst out = concat (replicate (unat l3 - 1) (map of_nat [1..<unat l4]))"
proof -
  have u: "unat l3 \<le> 257" "unat l4 \<le> 257" "1 \<le> unat l3" "1 \<le> unat l4"
    using assms by (simp_all add: word_le_nat_alt)
  let ?out = "concat (map (\<lambda>j. map (hash_at j) [1..<unat l4]) [1..<unat l3])"
  have "hashtest_lines l3 l4 = Some ?out"
    using sweep_outer_lines [of "[10, 1, 200, 1]" 1 l3 l4 "[]"] u
    by (auto simp: hashtest_lines_def)
  moreover have "length ?out = (unat l3 - 1) * (unat l4 - 1)"
    by (simp add: length_concat comp_def sum_list_triv)
  moreover have "map fst ?out = concat (replicate (unat l3 - 1) (map of_nat [1..<unat l4]))"
    by (simp add: map_concat comp_def hash_at_def map_replicate_const)
  ultimately show ?thesis using hash_at_distinct [OF u(1,2)] by blast
qed

theorem hashtest_no_collision_witness:
  "hashtest_lines 3 3 = Some [(1, 257), (2, 513), (1, 258), (2, 514)]
   \<and> (\<exists>out. hashtest_lines 3 3 = Some out \<and> distinct (map snd out))"
proof
  show "hashtest_lines 3 3 = Some [(1, 257), (2, 513), (1, 258), (2, 514)]" by code_simp
  show "\<exists>out. hashtest_lines 3 3 = Some out \<and> distinct (map snd out)"
    using hashtest_no_collision [of 3 3] by (auto simp: word_le_nat_alt)
qed

end
