(* ===== verification/Bdgfnctl.thy ===== *)
theory Bdgfnctl
  imports Bdgfn_User Hash_Test
begin

text \<open>
  The control tool \<open>bdgfn/bdgfnctl.c\<close>: the options that fill a request, the table of commands
  and \<open>main\<close>. The request is memory: the \<open>int\<close> values of an address are written over the
  octets one byte apart, so they reach into what follows. The options come from
  \<open>getopt_long\<close> of the C library, which is a parameter, as are the device that is opened and
  what \<open>malloc\<close> leaves in the request; \<open>malloc\<close> is taken to succeed. A number that an option
  reads stays within a 64-bit \<open>long\<close> and is then cut to an \<open>int\<close>.
\<close>

section \<open>Numbers and addresses\<close>

definition is_hex :: "char \<Rightarrow> bool" where
  "is_hex c = (let n = (of_char c :: nat) in is_digit c \<or> 65 \<le> n \<and> n \<le> 70 \<or> 97 \<le> n \<and> n \<le> 102)"

definition hex_val :: "char \<Rightarrow> nat" where
  "hex_val c = (let n = of_char c in if is_digit c then n - 48 else if n \<le> 70 then n - 55 else n - 87)"

definition unhex :: "string \<Rightarrow> nat" where
  "unhex s = foldl (\<lambda>a c. 16 * a + hex_val c) 0 s"

text \<open>A conversion of \<open>sscanf\<close>: the value and what follows, or nothing when no digit is there.\<close>

definition scan_sign :: "string \<Rightarrow> bool \<times> string" where
  "scan_sign s = (case s of
       c # cs \<Rightarrow> if c = CHR ''-'' then (True, cs) else if c = CHR ''+'' then (False, cs) else (False, s)
     | [] \<Rightarrow> (False, s))"

definition strtoul_int :: "bool \<Rightarrow> nat \<Rightarrow> u32" where
  "strtoul_int neg n = (if 2 ^ 64 \<le> n then - 1 else if neg then - of_nat n else of_nat n)"

definition scan_d :: "string \<Rightarrow> (u32 \<times> string) option" where
  "scan_d s = (let (neg, s) = scan_sign (dropWhile is_blank s); ds = takeWhile is_digit s
     in if ds = [] then None else Some (strtol_int neg (undec ds), dropWhile is_digit s))"

text \<open>\<open>%0x\<close>: a field width of zero is no limit in glibc; \<open>0x\<close> in front of a digit is skipped.\<close>

definition skip_0x :: "string \<Rightarrow> string" where
  "skip_0x s = (case s of
       z # x # c # cs \<Rightarrow> if z = CHR ''0'' \<and> (x = CHR ''x'' \<or> x = CHR ''X'') \<and> is_hex c then c # cs else s
     | _ \<Rightarrow> s)"

definition scan_x :: "string \<Rightarrow> (u32 \<times> string) option" where
  "scan_x s = (let (neg, s) = scan_sign (dropWhile is_blank s); s = skip_0x s; ds = takeWhile is_hex s
     in if ds = [] then None else Some (strtoul_int neg (unhex ds), dropWhile is_hex s))"

text \<open>\<open>n\<close> conversions with a separator between them; the values converted before the first
  that fails are stored.\<close>

fun scan_fields :: "(string \<Rightarrow> (u32 \<times> string) option) \<Rightarrow> char \<Rightarrow> nat \<Rightarrow> string \<Rightarrow> u32 list" where
  "scan_fields cv sep 0 s = []"
| "scan_fields cv sep (Suc n) s =
     (case cv s of
        None \<Rightarrow> []
      | Some (v, rest) \<Rightarrow> v # (case rest of
            c # cs \<Rightarrow> if c = sep then scan_fields cv sep n cs else []
          | [] \<Rightarrow> []))"

text \<open>An \<open>int\<close> written at \<open>&breq->addr[k]\<close>, on the bytes of the address, of the padding and of
  the port behind it.\<close>

definition int_bytes :: "u32 \<Rightarrow> u8 list" where
  "int_bytes w = map (word_byte (ucast w)) [0, 1, 2, 3]"

definition store_int :: "nat \<Rightarrow> u32 \<Rightarrow> bdgreq \<Rightarrow> bdgreq" where
  "store_int k v r =
     (let m = overwrite (addr_mem r @ int_bytes (rq_bdg_port r)) k (int_bytes v)
      in r\<lparr>rq_addr := take 6 m, rq_pad := take 2 (drop 6 m), rq_bdg_port := ucast (le_word (drop 8 m))\<rparr>)"

fun store_ints :: "nat \<Rightarrow> u32 list \<Rightarrow> bdgreq \<Rightarrow> bdgreq" where
  "store_ints k [] r = r"
| "store_ints k (v # vs) r = store_ints (Suc k) vs (store_int k v r)"

section \<open>The options\<close>

datatype ctl_msg =
    Lib ctl_line
  | Bad_option char "string option"
  | No_ipv6
  | Port_is int
  | Noterror
  | Ok_done
  | Unknown_cmd "string option"

text \<open>The request being filled and the globals \<open>bdgenv\<close> and \<open>vport\<close>.\<close>

record ctl_opts =
  co_breq :: bdgreq
  co_bdgenv :: u32
  co_vport :: "string option"

text \<open>One round of the loop of \<open>parse_options\<close>; a number without an argument is a fault.\<close>

definition parse_option :: "char \<times> string option \<Rightarrow> ctl_opts \<Rightarrow> (ctl_opts \<times> ctl_msg list) option" where
  "parse_option opt co = (case opt of (ch, optarg) \<Rightarrow>
     if ch = CHR ''b'' then
       map_option (\<lambda>s. (co\<lparr>co_breq := (co_breq co)\<lparr>rq_bdg_idx := atoi s\<rparr>\<rparr>, [])) optarg
     else if ch = CHR ''p'' then
       map_option (\<lambda>s. (co\<lparr>co_breq := (co_breq co)\<lparr>rq_bdg_port := atoi s\<rparr>\<rparr>, [])) optarg
     else if ch = CHR ''d'' then
       map_option (\<lambda>s. (co\<lparr>co_breq := (co_breq co)\<lparr>rq_nr_dst := atoi s\<rparr>\<rparr>, [])) optarg
     else if ch = CHR ''m'' then
       map_option (\<lambda>s. (co\<lparr>co_breq := store_ints 0 (scan_fields scan_x (CHR '':'') 6 s) (co_breq co),
                           co_bdgenv := co_bdgenv co OR BDGCTL_ENV_MAC\<rparr>, [])) optarg
     else if ch = CHR ''4'' then
       map_option (\<lambda>s. (co\<lparr>co_breq := store_ints 0 (scan_fields scan_d (CHR ''.'') 4 s) (co_breq co),
                           co_bdgenv := co_bdgenv co OR BDGCTL_ENV_IP4\<rparr>, [])) optarg
     else if ch = CHR ''6'' then Some (co, [No_ipv6])
     else if ch = CHR ''V'' then Some (co\<lparr>co_vport := optarg\<rparr>, [])
     else Some (co, [Bad_option ch optarg]))"

fun parse_options :: "(char \<times> string option) list \<Rightarrow> ctl_opts \<Rightarrow> (ctl_opts \<times> ctl_msg list) option" where
  "parse_options [] co = Some (co, [])"
| "parse_options (opt # opts) co = do {
     (co, out) \<leftarrow> parse_option opt co;
     (co, out') \<leftarrow> parse_options opts co;
     Some (co, out @ out')
   }"

section \<open>Commands and main\<close>

datatype ctl_fn = Fn_addif | Fn_delif | Fn_listif | Fn_regfn | Fn_port

definition commands :: "(string \<times> ctl_fn) list" where
  "commands = [(''addif'', Fn_addif), (''delif'', Fn_delif), (''listif'', Fn_listif),
     (''regfn'', Fn_regfn), (''port'', Fn_port)]"

text \<open>
  What the program runs in: whether \<open>/dev/<name>\<close> opens and what it serves, netmap's device
  for the port command, \<open>getopt_long\<close> over its own static state, and the contents of the
  memory a request gets. \<open>getopt_long\<close> answers the options and the arguments in the order in
  which it leaves them.
\<close>

record ('k, 'o) ctl_env =
  ce_open :: "string \<Rightarrow> bool"
  ce_dev :: "'k device"
  ce_netmap :: bool
  ce_info :: "string \<Rightarrow> u16"
  ce_getopt :: "'o \<Rightarrow> string list \<Rightarrow> (char \<times> string option) list \<times> string list \<times> 'o"
  ce_malloc :: bdgreq

text \<open>The file descriptor that \<open>bdgfninit\<close> leaves: \<open>-1\<close> answers every request with an error.\<close>

definition bdgfninit :: "('k, 'o) ctl_env \<Rightarrow> string \<Rightarrow> 'k device" where
  "bdgfninit E path = (if ce_open E path then ce_dev E else (\<lambda>k cmd r. Some (-9, k, r)))"

definition bdgfnctlport :: "('k, 'o) ctl_env \<Rightarrow> string option \<Rightarrow> int \<times> ctl_msg list" where
  "bdgfnctlport E vport = (0, [Port_is (bdgport (ce_netmap E) (ce_info E) vport)])"

definition call_fn ::
  "('k, 'o) ctl_env \<Rightarrow> 'k device \<Rightarrow> ctl_fn \<Rightarrow> 'k \<Rightarrow> ctl_opts \<Rightarrow> (int \<times> 'k \<times> bdgreq \<times> ctl_msg list) option" where
  "call_fn E dev fn k co =
     (let lib = map_option (\<lambda>(ret, k, r, out). (ret, k, r, map Lib out)); r = co_breq co in
      case fn of
        Fn_addif \<Rightarrow> lib (bdgaddif dev (co_bdgenv co) k r)
      | Fn_delif \<Rightarrow> Some (case bdgdelif k r of (ret, k, r) \<Rightarrow> (ret, k, r, []))
      | Fn_listif \<Rightarrow> lib (bdglistif dev (co_bdgenv co) k r)
      | Fn_regfn \<Rightarrow> lib (bdgfnreg_user dev (co_bdgenv co) k r)
      | Fn_port \<Rightarrow> Some (case bdgfnctlport E (co_vport co) of (ret, out) \<Rightarrow> (ret, k, r, out)))"

record ('k, 'o) ctl_run =
  cr_kernel :: 'k
  cr_getopt :: 'o
  cr_bdgenv :: u32
  cr_vport :: "string option"
  cr_ret :: int
  cr_out :: "ctl_msg list"

text \<open>The call of a command with the arguments behind it, which the options are taken from and
  which are permuted by that.\<close>

definition ctl_call ::
  "('k, 'o) ctl_env \<Rightarrow> string \<Rightarrow> ctl_fn \<Rightarrow> string list \<Rightarrow> ('k, 'o) ctl_run
     \<Rightarrow> (('k, 'o) ctl_run \<times> string list) option" where
  "ctl_call E path fn argv s = do {
     let dev = bdgfninit E path;
     let (opts, argv, o') = ce_getopt E (cr_getopt s) argv;
     (co, msgs) \<leftarrow> parse_options opts
       \<lparr>co_breq = ce_malloc E, co_bdgenv = cr_bdgenv s, co_vport = cr_vport s\<rparr>;
     (ret, k, r, out) \<leftarrow> call_fn E dev fn (cr_kernel s) co;
     Some (\<lparr>cr_kernel = k, cr_getopt = o', cr_bdgenv = co_bdgenv co, cr_vport = co_vport co, cr_ret = ret,
            cr_out = cr_out s @ msgs @ out @ [if ret \<noteq> 0 then Noterror else Ok_done]\<rparr>, argv)
   }"

text \<open>
  The loop over the commands: it goes on after the command that matched, now comparing with
  the next argument. Comparing with the null pointer at the end of the arguments ends the
  program by a signal, which is \<open>Inl\<close> with what has been done so far.
\<close>

fun ctl_loop ::
  "('k, 'o) ctl_env \<Rightarrow> string \<Rightarrow> (string \<times> ctl_fn) list \<Rightarrow> string list \<Rightarrow> ('k, 'o) ctl_run
     \<Rightarrow> (('k, 'o) ctl_run + ('k, 'o) ctl_run \<times> string list) option" where
  "ctl_loop E path [] argv s = Some (Inr (s, argv))"
| "ctl_loop E path ((name, fn) # cmds) argv s =
     (case argv of
        [] \<Rightarrow> Some (Inl s)
      | arg # argv' \<Rightarrow>
          if name \<noteq> arg then ctl_loop E path cmds argv s
          else do {
            (s, argv') \<leftarrow> ctl_call E path fn argv' s;
            ctl_loop E path cmds argv' s
          })"

text \<open>The result of \<open>main\<close> is its exit status, \<open>None\<close> for the signal, with the last state.\<close>

definition ctl_main :: "('k, 'o) ctl_env \<Rightarrow> string list \<Rightarrow> 'k \<Rightarrow> 'o \<Rightarrow> (int option \<times> ('k, 'o) ctl_run) option" where
  "ctl_main E argv k g =
     (let name = (case arr_get argv 1 of None \<Rightarrow> ''(null)'' | Some d \<Rightarrow> d);
          s = \<lparr>cr_kernel = k, cr_getopt = g, cr_bdgenv = 0, cr_vport = None, cr_ret = -1, cr_out = []\<rparr>
      in map_option (\<lambda>res. case res of
             Inl s \<Rightarrow> (None, s)
           | Inr (s, rest) \<Rightarrow> (Some 0,
               if cr_ret s < 0 then s\<lparr>cr_out := cr_out s @ [Unknown_cmd (arr_get rest 0)]\<rparr> else s))
           (ctl_loop E (''/dev/'' @ name) commands (drop 2 argv) s))"

section \<open>The request as memory\<close>

lemma word_byte_u32: "k < 4 \<Longrightarrow> word_byte (ucast (ucast w :: u32)) k = word_byte w k"
  by (rule bit_word_eqI) (auto simp: word_byte_def bit_ucast_iff bit_drop_bit_eq)

lemma length_int_bytes [simp]: "length (int_bytes w) = 4"
  by (simp add: int_bytes_def)

lemma int_bytes_le_word:
  assumes "length bs = 4"
  shows "int_bytes (ucast (le_word bs)) = bs"
proof (rule nth_equalityI)
  show "length (int_bytes (ucast (le_word bs))) = length bs" using assms by simp
  fix i assume "i < length (int_bytes (ucast (le_word bs)))"
  then have i: "i < 4" by simp
  have "int_bytes (ucast (le_word bs)) ! i = word_byte (ucast (ucast (le_word bs) :: u32)) i"
    using i by (auto simp: int_bytes_def less_Suc_eq numeral_eq_Suc)
  then show "int_bytes (ucast (le_word bs)) ! i = bs ! i"
    using i assms by (simp add: word_byte_u32 word_byte_le_word)
qed

lemma nth_int_bytes: "i < 4 \<Longrightarrow> int_bytes w ! i = word_byte (ucast w) i"
  by (auto simp: int_bytes_def less_Suc_eq numeral_eq_Suc)

lemma le_word_int_bytes: "ucast (le_word (int_bytes w)) = w"
proof (rule bit_word_eqI)
  fix n assume n: "n < LENGTH(32)"
  then have j: "n div 8 < 4" by simp
  have e: "8 * (n div 8) + n mod 8 = n" by simp
  have "bit (int_bytes w ! (n div 8)) (n mod 8) \<longleftrightarrow> bit w (8 * (n div 8) + n mod 8)"
    using n by (simp only: nth_int_bytes [OF j])
      (auto simp: word_byte_def bit_ucast_iff bit_drop_bit_eq)
  then show "bit (ucast (le_word (int_bytes w)) :: u32) n = bit w n"
    using n j unfolding e by (simp add: bit_ucast_iff bit_le_word)
qed

definition req_mem :: "bdgreq \<Rightarrow> u8 list" where
  "req_mem r = addr_mem r @ int_bytes (rq_bdg_port r)"

text \<open>The fields behind the port are out of reach.\<close>

definition same_rest :: "bdgreq \<Rightarrow> bdgreq \<Rightarrow> bool" where
  "same_rest r r' \<longleftrightarrow> rq_bdg_idx r' = rq_bdg_idx r \<and> rq_nr_dst r' = rq_nr_dst r \<and> rq_nr_arg1 r' = rq_nr_arg1 r"

lemma length_req_mem: "wf_req r \<Longrightarrow> length (req_mem r) = 12"
  by (simp add: req_mem_def length_addr_mem)

lemma store_int_mem:
  assumes "wf_req r" "k \<le> 8"
  shows "req_mem (store_int k v r) = overwrite (req_mem r) k (int_bytes v)"
    "wf_req (store_int k v r)" "same_rest r (store_int k v r)"
proof -
  define m where "m = overwrite (req_mem r) k (int_bytes v)"
  have l: "length m = 12"
    using assms by (simp add: m_def length_overwrite length_req_mem)
  have s: "store_int k v r = r\<lparr>rq_addr := take 6 m, rq_pad := take 2 (drop 6 m), rq_bdg_port := ucast (le_word (drop 8 m))\<rparr>"
    by (simp add: store_int_def m_def req_mem_def Let_def)
  have "take 6 m @ take 2 (drop 6 m) = take 8 m"
    using take_add [of 6 2 m] by simp
  then have "take 6 m @ take 2 (drop 6 m) @ drop 8 m = m" by (metis append.assoc append_take_drop_id)
  then have "req_mem (store_int k v r) = m"
    using l by (simp add: s req_mem_def addr_mem_def int_bytes_le_word)
  then show "req_mem (store_int k v r) = overwrite (req_mem r) k (int_bytes v)" by (simp only: m_def)
  show "wf_req (store_int k v r)" "same_rest r (store_int k v r)"
    using l by (simp_all add: s wf_req_def same_rest_def)
qed

lemma req_mem_fields:
  assumes "wf_req r"
  shows "rq_addr r = take 6 (req_mem r)" "rq_pad r = take 2 (drop 6 (req_mem r))"
    "rq_bdg_port r = ucast (le_word (drop 8 (req_mem r)))"
  using assms by (simp_all add: wf_req_def req_mem_def addr_mem_def le_word_int_bytes)

lemma store_ints_mem:
  "wf_req r \<Longrightarrow> k + length vs \<le> 9 \<Longrightarrow> k \<le> 8 \<Longrightarrow>
     wf_req (store_ints k vs r) \<and> same_rest r (store_ints k vs r)
   \<and> req_mem (store_ints k vs r) =
       fold (\<lambda>(i, v) m. overwrite m i (int_bytes v)) (zip [k..<k + length vs] vs) (req_mem r)"
proof (induction vs arbitrary: k r)
  case Nil
  then show ?case by (simp add: same_rest_def)
next
  case (Cons v vs)
  note s = store_int_mem [OF Cons.prems(1,3), of v]
  show ?case
  proof (cases vs)
    case Nil
    then show ?thesis using s by simp
  next
    case (Cons w ws)
    then have "Suc k + length vs \<le> 9" "Suc k \<le> 8" using Cons.prems(2) by simp_all
    note ih = Cons.IH [OF s(2) this]
    have "k + length (v # vs) = Suc k + length vs" "k < Suc k + length vs" by simp_all
    then have "[k..<k + length (v # vs)] = k # [Suc k..<Suc k + length vs]"
      by (simp only: upt_conv_Cons)
    then have "fold (\<lambda>(i, v) m. overwrite m i (int_bytes v)) (zip [k..<k + length (v # vs)] (v # vs)) (req_mem r)
        = req_mem (store_ints (Suc k) vs (store_int k v r))"
      using ih s(1) by (simp only: zip_Cons_Cons fold_simps prod.case)
    then show ?thesis using ih s(3) by (simp add: same_rest_def)
  qed
qed

section \<open>Reading an address that was printed\<close>

fun field_text :: "(u8 \<Rightarrow> string) \<Rightarrow> char \<Rightarrow> u8 list \<Rightarrow> string" where
  "field_text enc sep [] = []"
| "field_text enc sep [b] = enc b"
| "field_text enc sep (b # c # bs) = enc b @ sep # field_text enc sep (c # bs)"

text \<open>A conversion that reads back what a printer of octets wrote, up to the separator.\<close>

locale field_syntax =
  fixes cv :: "string \<Rightarrow> (u32 \<times> string) option" and enc :: "u8 \<Rightarrow> string" and sep :: char
  assumes scan_end: "cv (enc b) = Some (ucast b, [])"
    and scan_sep: "cv (enc b @ sep # cs) = Some (ucast b, sep # cs)"
begin

lemma scan_text: "length bs \<le> n \<Longrightarrow> bs \<noteq> [] \<Longrightarrow> scan_fields cv sep n (field_text enc sep bs) = map ucast bs"
proof (induction bs arbitrary: n rule: induct_list012)
  case (2 b)
  then show ?case by (cases n) (simp_all add: scan_end)
next
  case (3 b c bs)
  then obtain m where "n = Suc m" "length (c # bs) \<le> m" by (cases n) auto
  then show ?case using 3 by (simp add: scan_sep)
qed simp

end

definition hex_char :: "nat \<Rightarrow> char" where
  "hex_char d = (if d < 10 then digit_char d else char_of (87 + d))"

definition hex2 :: "u8 \<Rightarrow> string" where
  "hex2 b = [hex_char (unat b div 16), hex_char (unat b mod 16)]"

lemma hex_char_facts:
  assumes "d < 16"
  shows "is_hex (hex_char d)" "hex_val (hex_char d) = d" "\<not> is_blank (hex_char d)"
    "hex_char d \<noteq> CHR ''-''" "hex_char d \<noteq> CHR ''+''" "hex_char d \<noteq> CHR ''x''" "hex_char d \<noteq> CHR ''X''"
proof -
  have n: "of_char (hex_char d) = (if d < 10 then 48 + d else 87 + d :: nat)"
    using assms by (simp add: hex_char_def of_digit_char)
  have ne: "hex_char d \<noteq> c" if "of_char c \<noteq> (of_char (hex_char d) :: nat)" for c using that by auto
  show "is_hex (hex_char d)" "hex_val (hex_char d) = d" "\<not> is_blank (hex_char d)"
    using assms by (auto simp: is_hex_def hex_val_def is_blank_def is_digit_def n Let_def)
  show "hex_char d \<noteq> CHR ''-''" "hex_char d \<noteq> CHR ''+''" "hex_char d \<noteq> CHR ''x''" "hex_char d \<noteq> CHR ''X''"
    using assms by (auto intro!: ne simp: n split: if_splits)
qed

lemma scan_x_hex2:
  assumes "rest = [] \<or> \<not> is_hex (hd rest)"
  shows "scan_x (hex2 b @ rest) = Some (ucast b, rest)"
proof -
  have d: "unat b div 16 < 16" "unat b mod 16 < 16" using unat_u8_less [of b] by simp_all
  note h = hex_char_facts [OF d(1)] hex_char_facts [OF d(2)]
  let ?s = "hex2 b @ rest"
  have b: "dropWhile is_blank ?s = ?s" "scan_sign ?s = (False, ?s)" "skip_0x ?s = ?s"
    using h by (cases rest; simp add: hex2_def scan_sign_def skip_0x_def)+
  have t: "takeWhile is_hex ?s = hex2 b" "dropWhile is_hex ?s = rest"
    using h assms by (cases rest; simp add: hex2_def)+
  have "unhex (hex2 b) = unat b" using h by (simp add: unhex_def hex2_def)
  then have "strtoul_int False (unhex (hex2 b)) = ucast b"
    using unat_u8_less [of b] by (simp add: strtoul_int_def unsigned_ucast_eq)
  then show ?thesis using b t by (simp add: scan_x_def hex2_def)
qed

interpretation mac_syntax: field_syntax scan_x hex2 "CHR '':''"
proof
  have "\<not> is_hex (CHR '':'')" by code_simp
  then show "scan_x (hex2 b @ CHR '':'' # cs) = Some (ucast b, CHR '':'' # cs)" for b cs
    by (intro scan_x_hex2) simp
  show "scan_x (hex2 b) = Some (ucast b, [])" for b using scan_x_hex2 [of "[]" b] by simp
qed

lemma scan_d_dec_nat:
  assumes "rest = [] \<or> \<not> is_digit (hd rest)"
  shows "scan_d (dec_nat (unat b) @ rest) = Some (ucast (b :: u8), rest)"
proof -
  let ?ds = "dec_nat (unat b)"
  obtain c cs where c: "?ds = c # cs" "is_digit c"
    using dec_nat_digits [of "unat b"] by (cases ?ds) auto
  have "\<not> is_blank c" "c \<noteq> CHR ''-''" "c \<noteq> CHR ''+''"
    using is_digit_no_blank [OF c(2)] by simp_all
  then have b: "dropWhile is_blank (?ds @ rest) = ?ds @ rest" "scan_sign (?ds @ rest) = (False, ?ds @ rest)"
    by (simp_all add: c(1) scan_sign_def)
  have "takeWhile is_digit rest = []" "dropWhile is_digit rest = rest" using assms by (cases rest; simp)+
  then have t: "takeWhile is_digit (?ds @ rest) = ?ds" "dropWhile is_digit (?ds @ rest) = rest"
    using dec_nat_digits [of "unat b"] by (simp_all add: takeWhile_append2 dropWhile_append2)
  show ?thesis unfolding scan_d_def b prod.case Let_def t
    using unat_u8_less [of b] by (simp add: strtol_int_small undec_dec_nat unsigned_ucast_eq)
qed

interpretation ip4_syntax: field_syntax scan_d "\<lambda>b. dec_nat (unat b)" "CHR ''.''"
proof
  have "\<not> is_digit (CHR ''.'')" by (simp add: is_digit_def)
  then show "scan_d (dec_nat (unat b) @ CHR ''.'' # cs) = Some (ucast b, CHR ''.'' # cs)" for b :: u8 and cs
    by (intro scan_d_dec_nat) simp
  show "scan_d (dec_nat (unat b)) = Some (ucast b, [])" for b :: u8
    using scan_d_dec_nat [of "[]" b] by simp
qed

section \<open>What the address options leave in the request\<close>

lemma int_bytes_octet: "int_bytes (ucast (b :: u8)) = [b, 0, 0, 0]"
proof -
  have "word_byte (ucast (ucast b :: u32)) k = (if k = 0 then b else 0)" if "k < 4" for k
    using that by (intro bit_word_eqI) (auto simp: word_byte_def bit_ucast_iff bit_drop_bit_eq dest: bit_imp_le_length)
  then show ?thesis by (simp add: int_bytes_def)
qed

lemma fold_octets:
  "k + length os + 3 \<le> length m \<Longrightarrow>
     fold (\<lambda>(i, v) m. overwrite m i (int_bytes v)) (zip [k..<k + length os] (map ucast os)) m
       = take k m @ os @ (if os = [] then drop k m else [0, 0, 0] @ drop (k + length os + 3) m)"
proof (induction os arbitrary: k m)
  case Nil
  then show ?case by simp
next
  case (Cons b os)
  let ?m = "overwrite m k [b, 0, 0, 0]"
  have "drop (Suc (Suc (Suc (Suc k)))) m = drop (k + 4) m"
    by (rule arg_cong [of _ _ "\<lambda>i. drop i m"]) simp
  then have m: "?m = take k m @ b # [0, 0, 0] @ drop (k + 4) m" "length ?m = length m"
    using Cons.prems by (simp_all add: overwrite_def)
  have "[k..<k + length (b # os)] = k # [Suc k..<Suc k + length os]"
    by (simp only: upt_conv_Cons list.size) simp
  then have "fold (\<lambda>(i, v) m. overwrite m i (int_bytes v)) (zip [k..<k + length (b # os)] (map ucast (b # os))) m
      = fold (\<lambda>(i, v) m. overwrite m i (int_bytes v)) (zip [Suc k..<Suc k + length os] (map ucast os)) ?m"
    by (simp only: list.map zip_Cons_Cons fold_simps prod.case int_bytes_octet)
  also have "\<dots> = take (Suc k) ?m @ os @ (if os = [] then drop (Suc k) ?m else [0, 0, 0] @ drop (Suc k + length os + 3) ?m)"
    using Cons.prems m(2) by (intro Cons.IH) simp
  also have "take (Suc k) ?m = take k m @ [b]" using Cons.prems by (simp add: m(1))
  also have "drop (Suc k) ?m = [0, 0, 0] @ drop (k + 4) m"
  proof -
    have "drop (k + 4) m = drop (Suc (Suc (Suc (Suc k)))) m"
      by (rule arg_cong [of _ _ "\<lambda>i. drop i m"]) simp
    then show ?thesis using Cons.prems by (simp add: m(1))
  qed
  also have "os \<noteq> [] \<Longrightarrow> drop (Suc k + length os + 3) ?m = drop (k + length os + 4) m"
  proof -
    let ?p = "take k m @ [b, 0, 0, 0]"
    have p: "?m = ?p @ drop (k + 4) m" "length ?p = k + 4" using m(1) Cons.prems by simp_all
    have "Suc k + length os + 3 = length ?p + length os" by (simp only: p(2))
    then have "drop (Suc k + length os + 3) ?m = drop (length os) (drop (k + 4) m)"
      unfolding p(1) by (simp only: drop_append) simp
    then show ?thesis by (simp add: ac_simps)
  qed
  finally show ?case by (cases os) (simp_all add: ac_simps int_bytes_octet m(1))
qed

lemma store_octets:
  assumes "wf_req r" "os \<noteq> []" "length os \<le> 6"
  shows "wf_req (store_ints 0 (map ucast os) r)" "same_rest r (store_ints 0 (map ucast os) r)"
    "req_mem (store_ints 0 (map ucast os) r) = os @ [0, 0, 0] @ drop (length os + 3) (req_mem r)"
  using store_ints_mem [OF assms(1), of 0 "map ucast os"] fold_octets [of 0 os "req_mem r"] assms length_req_mem
  by simp_all

lemma low_byte_cleared:
  "ucast (le_word (0 # drop 1 (int_bytes p))) = p AND NOT 0xff"
proof (rule bit_word_eqI)
  fix n assume n: "n < LENGTH(32)"
  have f: "(0xff :: u32) = mask 8" by (simp add: mask_eq_exp_minus_1)
  show "bit (ucast (le_word (0 # drop 1 (int_bytes p))) :: u32) n = bit (p AND NOT 0xff) n"
  proof (cases "n div 8")
    case 0
    then have "n < 8" by simp
    then show ?thesis using n unfolding f
      by (simp add: bit_ucast_iff bit_and_iff bit_not_iff bit_mask_iff bit_or_iff bit_push_bit_iff)
  next
    case (Suc j)
    then have j: "Suc j < 4" using n by simp
    have e: "8 * Suc j + n mod 8 = n" using Suc by (metis mult_div_mod_eq)
    have "8 \<le> n" using Suc by (cases "n < 8") simp_all
    have "bit (int_bytes p ! Suc j) (n mod 8) \<longleftrightarrow> bit p (8 * Suc j + n mod 8)"
      using n j by (simp only: nth_int_bytes [OF j]) (auto simp: word_byte_def bit_ucast_iff bit_drop_bit_eq)
    then have "bit (int_bytes p ! Suc j) (n mod 8) \<longleftrightarrow> bit p n" by (simp only: e)
    then show ?thesis using n j Suc \<open>8 \<le> n\<close> unfolding f
      by (simp add: bit_ucast_iff bit_le_word bit_and_iff bit_not_iff bit_mask_iff del: le_word.simps)
  qed
qed

lemma store_mac:
  assumes "wf_req r" "length os = 6"
  shows "store_ints 0 (map ucast os) r = r\<lparr>rq_addr := os, rq_pad := [0, 0], rq_bdg_port := rq_bdg_port r AND NOT 0xff\<rparr>"
proof -
  let ?r = "store_ints 0 (map ucast os) r"
  have "os \<noteq> []" "length os \<le> 6" using assms(2) by auto
  note s = store_octets [OF assms(1) this]
  have d: "drop 9 (req_mem r) = drop 1 (int_bytes (rq_bdg_port r))"
    using assms(1) by (simp add: req_mem_def length_addr_mem)
  have "rq_addr ?r = os" "rq_pad ?r = [0, 0]" "rq_bdg_port ?r = rq_bdg_port r AND NOT 0xff"
    using req_mem_fields [OF s(1)] assms(2) low_byte_cleared [of "rq_bdg_port r"]
    by (simp_all add: s(3) d)
  then show ?thesis using s(2) by (simp add: same_rest_def bdgreq.equality)
qed

lemma store_ip4:
  assumes "wf_req r" "length os = 4"
  shows "store_ints 0 (map ucast os) r = r\<lparr>rq_addr := os @ [0, 0], rq_pad := [0, rq_pad r ! 1]\<rparr>"
proof -
  let ?r = "store_ints 0 (map ucast os) r"
  have "os \<noteq> []" "length os \<le> 6" using assms(2) by auto
  note s = store_octets [OF assms(1) this]
  have p: "length (rq_addr r) = 6" "length (rq_pad r) = 2" using assms(1) by (simp_all add: wf_req_def)
  then have "drop 7 (addr_mem r) = [rq_pad r ! 1]"
    by (cases "rq_pad r"; cases "tl (rq_pad r)") (auto simp: addr_mem_def)
  then have d: "drop 7 (req_mem r) = rq_pad r ! 1 # int_bytes (rq_bdg_port r)"
    using assms(1) by (simp add: req_mem_def length_addr_mem)
  have "rq_addr ?r = os @ [0, 0]" "rq_pad ?r = [0, rq_pad r ! 1]" "rq_bdg_port ?r = rq_bdg_port r"
    using req_mem_fields [OF s(1)] assms(2) by (simp_all add: s(3) d le_word_int_bytes)
  then show ?thesis using s(2) by (simp add: same_rest_def bdgreq.equality)
qed

text \<open>C40: The address options read back what was printed: the hexadecimal octets of a MAC address
  and the decimal octets of an IPv4 address arrive in the request. Because each octet is stored
  as an \<open>int\<close>, a MAC address also clears the padding and the low byte of the port, so that an
  earlier port option is spoiled.\<close>
theorem address_options:
  assumes "wf_req (co_breq co)" "length os = 6" "length qs = 4"
  shows "parse_option (CHR ''m'', Some (field_text hex2 (CHR '':'') os)) co =
      Some (co\<lparr>co_breq := (co_breq co)\<lparr>rq_addr := os, rq_pad := [0, 0],
                             rq_bdg_port := rq_bdg_port (co_breq co) AND NOT 0xff\<rparr>,
               co_bdgenv := co_bdgenv co OR BDGCTL_ENV_MAC\<rparr>, [])
   \<and> parse_option (CHR ''4'', Some (field_text (\<lambda>b. dec_nat (unat b)) (CHR ''.'') qs)) co =
      Some (co\<lparr>co_breq := (co_breq co)\<lparr>rq_addr := qs @ [0, 0], rq_pad := [0, rq_pad (co_breq co) ! 1]\<rparr>,
               co_bdgenv := co_bdgenv co OR BDGCTL_ENV_IP4\<rparr>, [])"
proof -
  have "os \<noteq> []" "qs \<noteq> []" using assms(2,3) by auto
  then have "scan_fields scan_x (CHR '':'') 6 (field_text hex2 (CHR '':'') os) = map ucast os"
    "scan_fields scan_d (CHR ''.'') 4 (field_text (\<lambda>b. dec_nat (unat b)) (CHR ''.'') qs) = map ucast qs"
    using mac_syntax.scan_text [of os 6] ip4_syntax.scan_text [of qs 4] assms(2,3) by simp_all
  then show ?thesis
    using store_mac [OF assms(1,2)] store_ip4 [OF assms(1,3)] by (simp add: parse_option_def)
qed

theorem address_options_witness:
  "map_option (rq_bdg_port \<circ> co_breq \<circ> fst) (parse_option (CHR ''m'', Some (field_text hex2 (CHR '':'') [2, 0, 0, 0, 0, 15]))
     \<lparr>co_breq = req_add\<lparr>rq_bdg_port := 0x105\<rparr>, co_bdgenv = 0, co_vport = None\<rparr>) = Some 0x100"
proof -
  have "wf_req (co_breq \<lparr>co_breq = req_add\<lparr>rq_bdg_port := 0x105\<rparr>, co_bdgenv = 0, co_vport = None\<rparr>)"
    by (simp add: wf_req_def req_add_def)
  then show ?thesis
    using address_options [of "\<lparr>co_breq = req_add\<lparr>rq_bdg_port := 0x105\<rparr>, co_bdgenv = 0, co_vport = None\<rparr>"
        "[2, 0, 0, 0, 0, 15]" "[10, 0, 0, 1]"] by simp
qed

section \<open>What the program does\<close>

lemma ctl_loop_end: "cmds \<noteq> [] \<Longrightarrow> ctl_loop E path cmds [] s = Some (Inl s)"
  by (cases cmds) auto

lemma ctl_loop_skip:
  "arg \<notin> fst ` set cmds \<Longrightarrow> ctl_loop E path cmds (arg # argv) s = Some (Inr (s, arg # argv))"
  by (induction cmds) auto

lemma ctl_loop_call:
  "name \<notin> fst ` set before \<Longrightarrow>
     ctl_loop E path (before @ (name, fn) # after) (name # argv) s =
       Option.bind (ctl_call E path fn argv s) (\<lambda>(s, argv). ctl_loop E path after argv s)"
  by (induction before) auto

text \<open>Only the last command has nothing behind it in the table.\<close>

lemma commands_split:
  assumes "(name, fn) \<in> set commands"
  obtains before after where "commands = before @ (name, fn) # after" "name \<notin> fst ` set before"
    "after = [] \<longleftrightarrow> fn = Fn_port"
proof -
  have "(\<exists>before after. commands = before @ (name, fn) # after \<and> name \<notin> fst ` set before
      \<and> (after = [] \<longleftrightarrow> fn = Fn_port))"
    using assms unfolding commands_def by (auto simp: Cons_eq_append_conv)
  then show thesis using that by blast
qed

definition ctl_start :: "'k \<Rightarrow> 'o \<Rightarrow> ('k, 'o) ctl_run" where
  "ctl_start k g = \<lparr>cr_kernel = k, cr_getopt = g, cr_bdgenv = 0, cr_vport = None, cr_ret = -1, cr_out = []\<rparr>"

text \<open>A command given without options is carried out, and then every command but the last of
  the table ends in a comparison with the null pointer: the program is killed. The last one, and
  only that one, ends with status 0.\<close>

lemma ctl_without_options:
  assumes "(name, fn) \<in> set commands"
    and "ctl_call E (''/dev/'' @ d) fn [] (ctl_start k g) = Some (s, [])"
  shows "\<exists>s'. ctl_main E [prog, d, name] k g = Some (if fn = Fn_port then Some 0 else None, s')
     \<and> cr_kernel s' = cr_kernel s \<and> (\<exists>more. cr_out s' = cr_out s @ more)"
proof -
  obtain before after where c: "commands = before @ (name, fn) # after" "name \<notin> fst ` set before"
    "after = [] \<longleftrightarrow> fn = Fn_port"
    using commands_split [OF assms(1)] by blast
  have "ctl_loop E (''/dev/'' @ d) commands [name] (ctl_start k g) = ctl_loop E (''/dev/'' @ d) after [] s"
    unfolding c(1) ctl_loop_call [OF c(2)] using assms(2) by simp
  then have "ctl_loop E (''/dev/'' @ d) commands [name] (ctl_start k g) =
      Some (if fn = Fn_port then Inr (s, []) else Inl s)"
    using c(3) ctl_loop_end [of after] by (cases after) auto
  then show ?thesis by (simp add: ctl_main_def ctl_start_def arr_get_def)
qed

lemma atoi_0: "atoi ''0'' = 0"
  by (simp add: atoi_def is_blank_def digits_of_def is_digit_def undec_def strtol_int_small)

lemma mac_ioctl_add:
  assumes "wf_mac_rt (ms_rt st)" "wf_req r" "rq_bdg_idx r = 0"
  shows "\<exists>st'. bdgaddif (mac_bdgctl env) bdgenv st r = Some (0, st', r, pr_route bdgenv r)
     \<and> wf_mac_rt (ms_rt st')
     \<and> (\<forall>buf. 12 \<le> length buf \<and> unicast (eth_src buf) \<longrightarrow> lookup2 (ms_rt st') buf =
          (if rthash_slot (eth_src buf) = rthash_slot (rq_addr r) then Some (rq_nr_dst r, 0)
           else lookup2 (ms_rt st) buf))"
proof -
  have i: "unat (rq_bdg_idx r) < MAC_BRIDGES" using assms(3) by (simp add: MAC_BRIDGES_def)
  have l: "8 \<le> length (addr_mem r)" using length_addr_mem [OF assms(2)] by simp
  obtain rt where add: "bdgaddif2 (ms_rt st) (addr_mem r) (rq_bdg_idx r) (rq_nr_dst r) = Some (0, rt)"
    using bdgaddif2_whole [OF assms(1) i l] by blast
  have wf: "wf_mac_rt rt" by (rule bdgaddif2_wf [OF assms(1) add])
  have put: "mac_put (ms_rt st) (rq_bdg_idx r, addr_mem r) (rq_nr_dst r) = Some rt"
    using add by (simp add: mac_put_def)
  have get: "mac_get rt (rthash_slot m) = (if rthash_slot m = rthash_slot (rq_addr r)
      then mac_entry (rq_bdg_idx r, addr_mem r) (rq_nr_dst r) else mac_get (ms_rt st) (rthash_slot m))" for m
    using mac_get_put [OF assms(1) put, of "rthash_slot m"] mac_get_bridge0 [OF assms(2), of "rq_bdg_idx r" m]
      assms(3) by auto
  have "lookup2 rt buf = (if rthash_slot (eth_src buf) = rthash_slot (rq_addr r) then Some (rq_nr_dst r, 0)
      else lookup2 (ms_rt st) buf)" if "12 \<le> length buf" "unicast (eth_src buf)" for buf
    using lookup2_get [OF wf that(1)] lookup2_get [OF assms(1) that(1)] that(2)
    by (simp add: get mac_entry_def)
  moreover have "bdgaddif (mac_bdgctl env) bdgenv st r = Some (0, st\<lparr>ms_rt := rt\<rparr>, r, pr_route bdgenv r)"
    using add by (simp add: bdgaddif_def bdgfn_do_def mac_bdgctl_def)
  ultimately show ?thesis using wf by (intro exI [of _ "st\<lparr>ms_rt := rt\<rparr>"]) simp
qed

text \<open>C17: Running the tool to add an address on bridge 0 of a loaded MAC module makes the kernel
  forward every frame with a unicast source in this address's slot to the given port, and
  changes nothing for frames with another unicast source, if an argument that is no command
  stands between the command and the options: \<open>getopt_long\<close> takes it for the program's name and
  skips it. Frames with a multicast source are not spoken of.\<close>
theorem ctl_addif_forwards:
  assumes "ce_open E (''/dev/'' @ d)" "ce_dev E = mac_bdgctl env" "wf_req (ce_malloc E)"
    and "wf_mac_rt (ms_rt st)" "length mac = 6" "x \<notin> fst ` set commands"
    and "ce_getopt E g (x # args) = ([(CHR ''b'', Some ''0''),
           (CHR ''m'', Some (field_text hex2 (CHR '':'') mac)), (CHR ''d'', Some port)], x # args', g')"
  shows "\<exists>s. ctl_main E (prog # d # ''addif'' # x # args) st g = Some (Some 0, s)
     \<and> wf_mac_rt (ms_rt (cr_kernel s))
     \<and> (\<forall>buf. 12 \<le> length buf \<and> unicast (eth_src buf) \<longrightarrow> lookup2 (ms_rt (cr_kernel s)) buf =
          (if rthash_slot (eth_src buf) = rthash_slot mac then Some (atoi port, 0)
           else lookup2 (ms_rt st) buf))"
proof -
  let ?malloc = "(ce_malloc E)\<lparr>rq_bdg_idx := 0\<rparr>"
  let ?r = "?malloc\<lparr>rq_addr := mac, rq_pad := [0, 0], rq_bdg_port := rq_bdg_port ?malloc AND NOT 0xff, rq_nr_dst := atoi port\<rparr>"
  let ?opts = "[(CHR ''b'', Some ''0''), (CHR ''m'', Some (field_text hex2 (CHR '':'') mac)), (CHR ''d'', Some port)]"
  have ne: "mac \<noteq> []" using assms(5) by auto
  have scan: "scan_fields scan_x (CHR '':'') 6 (field_text hex2 (CHR '':'') mac) = map ucast mac"
    using mac_syntax.scan_text [of mac 6] assms(5) ne by simp
  have wf: "wf_req ?malloc" "wf_req ?r" using assms(3,5) by (simp_all add: wf_req_def)
  have stored: "store_ints 0 (map ucast mac) ?malloc =
      ?malloc\<lparr>rq_addr := mac, rq_pad := [0, 0], rq_bdg_port := rq_bdg_port ?malloc AND NOT 0xff\<rparr>"
    by (rule store_mac [OF wf(1) assms(5)])
  have parse: "parse_options ?opts \<lparr>co_breq = ce_malloc E, co_bdgenv = 0, co_vport = None\<rparr> =
      Some (\<lparr>co_breq = ?r, co_bdgenv = BDGCTL_ENV_MAC, co_vport = None\<rparr>, [])"
    by (simp add: parse_option_def scan atoi_0 stored)
  obtain st' where st': "bdgaddif (mac_bdgctl env) BDGCTL_ENV_MAC st ?r = Some (0, st', ?r, pr_route BDGCTL_ENV_MAC ?r)"
    "wf_mac_rt (ms_rt st')"
    "\<forall>buf. 12 \<le> length buf \<and> unicast (eth_src buf) \<longrightarrow> lookup2 (ms_rt st') buf =
          (if rthash_slot (eth_src buf) = rthash_slot mac then Some (atoi port, 0) else lookup2 (ms_rt st) buf)"
    using mac_ioctl_add [OF assms(4) wf(2), of env BDGCTL_ENV_MAC] by auto
  obtain s where s: "ctl_call E (''/dev/'' @ d) Fn_addif (x # args) (ctl_start st g) = Some (s, x # args')"
    "cr_kernel s = st'" "cr_ret s = 0"
    using assms(1,2,7) st'(1)
    by (simp add: ctl_call_def ctl_start_def call_fn_def bdgfninit_def parse del: parse_options.simps)
  have "commands = [] @ (''addif'', Fn_addif) # tl commands" "x \<notin> fst ` set (tl commands)"
    using assms(6) by (simp_all add: commands_def)
  then have "ctl_loop E (''/dev/'' @ d) commands (''addif'' # x # args) (ctl_start st g) = Some (Inr (s, x # args'))"
    using ctl_loop_call [of "''addif''" "[]" E "''/dev/'' @ d" Fn_addif "tl commands" "x # args" "ctl_start st g"]
      ctl_loop_skip [of x "tl commands" E "''/dev/'' @ d" args' s] s(1) by simp
  then have "ctl_main E (prog # d # ''addif'' # x # args) st g = Some (Some 0, s)"
    using s(3) by (simp add: ctl_main_def ctl_start_def arr_get_def)
  then show ?thesis using st'(2,3) s(2) by blast
qed

text \<open>
  A run of the tool: a getopt for options of one letter with a value behind each, which skips
  the first argument and the arguments that are no options, on arguments that need no
  permuting; the device of the MAC module; and a request whose memory was zero.
\<close>

fun short_opts :: "string list \<Rightarrow> (char \<times> string option) list" where
  "short_opts (arg # val # rest) =
     (case arg of
        [dash, c] \<Rightarrow> if dash = CHR ''-'' then (c, Some val) # short_opts rest else short_opts (val # rest)
      | _ \<Rightarrow> short_opts (val # rest))"
| "short_opts _ = []"

definition sample_ctl :: "(mac_state, unit) ctl_env" where
  "sample_ctl = \<lparr>ce_open = \<lambda>_. True, ce_dev = mac_bdgctl env_ok, ce_netmap = False, ce_info = \<lambda>_. 0,
     ce_getopt = \<lambda>_ argv. (short_opts (tl argv), argv, ()), ce_malloc = \<lparr>rq_addr = [0, 0, 0, 0, 0, 0], rq_pad = [0, 0],
       rq_bdg_port = 0, rq_bdg_idx = 0, rq_nr_dst = 0, rq_nr_arg1 = 0\<rparr>\<rparr>"

definition sample_args :: "string list" where
  "sample_args = [''-b'', ''0'', ''-m'', ''02:00:00:00:00:0f'', ''-d'', ''5'']"

theorem ctl_addif_forwards_witness:
  "\<exists>s. ctl_main sample_ctl (''ctl'' # ''mac'' # ''addif'' # ''vale0:'' # sample_args)
       (snd (mac_static_init 254)) () = Some (Some 0, s)
     \<and> lookup2 (ms_rt (cr_kernel s)) ([2, 0, 0, 0, 0, 10] @ [2, 0, 0, 0, 0, 15]) = Some (5, 0)"
proof -
  let ?mac = "[2, 0, 0, 0, 0, 15] :: u8 list" and ?buf = "[2, 0, 0, 0, 0, 10] @ [2, 0, 0, 0, 0, 15] :: u8 list"
  have t: "field_text hex2 (CHR '':'') ?mac = ''02:00:00:00:00:0f''" by code_simp
  have a: "ce_open sample_ctl (''/dev/'' @ ''mac'')" "ce_dev sample_ctl = mac_bdgctl env_ok" "wf_req (ce_malloc sample_ctl)"
    "length ?mac = 6" "''vale0:'' \<notin> fst ` set commands"
    "ce_getopt sample_ctl () (''vale0:'' # sample_args) = ([(CHR ''b'', Some ''0''),
       (CHR ''m'', Some (field_text hex2 (CHR '':'') ?mac)), (CHR ''d'', Some ''5'')], ''vale0:'' # sample_args, ())"
    unfolding t by (simp_all add: sample_ctl_def sample_args_def wf_req_def commands_def)
  have "atoi ''5'' = 5" by (simp add: atoi_def is_blank_def digits_of_def is_digit_def undec_def strtol_int_small)
  moreover have "12 \<le> length ?buf" "unicast (eth_src ?buf)" "eth_src ?buf = ?mac"
    by (simp_all add: eth_src_def unicast_def)
  ultimately show ?thesis
    using ctl_addif_forwards [OF a(1-3) wf_mac_init a(4-6), of "''ctl''" 254] by fastforce
qed

end
