(* ===== verification/Ring_Memory.thy ===== *)
theory Ring_Memory
  imports Xn_Prelude
begin

text \<open>
  What the two drivers share: byte memory that \<open>memcpy\<close> reads and writes, the index
  arithmetic of a ring of \<open>n\<close> slots, and the contract of an array of packet cells (a ring
  together with the buffers of its slots), in which storing a packet changes one cell.
  From the contract follows what a driver that fills consecutive cells of one ring with
  packets of another relies on.
\<close>

section \<open>Byte memory\<close>

text \<open>An access that leaves the memory is a fault.\<close>

definition rd_bytes :: "u8 list \<Rightarrow> nat \<Rightarrow> nat \<Rightarrow> u8 list option" where
  "rd_bytes m off len = (if off + len \<le> length m then Some (take len (drop off m)) else None)"

definition wr_bytes :: "u8 list \<Rightarrow> nat \<Rightarrow> u8 list \<Rightarrow> u8 list option" where
  "wr_bytes m off bs =
     (if off + length bs \<le> length m then Some (take off m @ bs @ drop (off + length bs) m) else None)"

lemma rd_bytes_Some [c_loads]:
  "off + len \<le> length m \<Longrightarrow> rd_bytes m off len = Some (take len (drop off m))"
  by (simp add: rd_bytes_def)

lemma rd_bytes_conv:
  "rd_bytes m off len = Some p \<longleftrightarrow> off + len \<le> length m \<and> p = take len (drop off m)"
  by (auto simp: rd_bytes_def)

lemma wr_bytes_conv:
  "wr_bytes m off bs = Some m' \<longleftrightarrow>
     off + length bs \<le> length m \<and> m' = take off m @ bs @ drop (off + length bs) m"
  by (auto simp: wr_bytes_def)

lemma rd_bytes_length: "rd_bytes m off len = Some p \<Longrightarrow> length p = len"
  by (auto simp: rd_bytes_conv)

lemma wr_bytes_length: "wr_bytes m off bs = Some m' \<Longrightarrow> length m' = length m"
  by (auto simp: wr_bytes_conv)

lemma wr_bytes_total: "off + length bs \<le> length m \<Longrightarrow> \<exists>m'. wr_bytes m off bs = Some m'"
  by (simp add: wr_bytes_def)

lemma rd_wr_same: "wr_bytes m off bs = Some m' \<Longrightarrow> rd_bytes m' off (length bs) = Some bs"
  by (auto simp: wr_bytes_conv rd_bytes_def)

lemma rd_wr_other:
  assumes "wr_bytes m off bs = Some m'" "o2 + len \<le> off \<or> off + length bs \<le> o2"
  shows "rd_bytes m' o2 len = rd_bytes m o2 len"
proof (rule disjE [OF assms(2)])
  assume le: "o2 + len \<le> off"
  have w: "off + length bs \<le> length m" "m' = take off m @ bs @ drop (off + length bs) m"
    using assms(1) by (simp_all add: wr_bytes_conv)
  have "drop o2 m' = drop o2 (take off m) @ bs @ drop (off + length bs) m"
    using w le by simp
  moreover have "length (drop o2 (take off m)) = off - o2" using w by simp
  ultimately have "take len (drop o2 m') = take len (drop o2 (take off m))" using le by simp
  also have "\<dots> = take len (drop o2 m)" using le by (simp add: drop_take min_def)
  finally show ?thesis using w by (simp add: rd_bytes_def)
next
  assume "off + length bs \<le> o2"
  then have "o2 = off + (length bs + (o2 - off - length bs))" by simp
  then obtain d where "o2 = off + (length bs + d)" by blast
  then show ?thesis using assms(1)
    by (auto simp: wr_bytes_conv rd_bytes_def ac_simps)
qed

section \<open>Indices of a ring\<close>

text \<open>The index \<open>k\<close> places after \<open>i\<close>, the way from \<open>i\<close> to \<open>j\<close>, and the \<open>k\<close> indices from \<open>i\<close>.\<close>

definition ring_add :: "nat \<Rightarrow> nat \<Rightarrow> nat \<Rightarrow> nat" where
  "ring_add n i k = (i + k) mod n"

definition ring_dist :: "nat \<Rightarrow> nat \<Rightarrow> nat \<Rightarrow> nat" where
  "ring_dist n i j = (if i \<le> j then j - i else j + n - i)"

definition ring_seq :: "nat \<Rightarrow> nat \<Rightarrow> nat \<Rightarrow> nat list" where
  "ring_seq n i k = map (ring_add n i) [0..<k]"

definition ring_succ :: "nat \<Rightarrow> nat \<Rightarrow> nat" where
  "ring_succ n i = (if i + 1 = n then 0 else i + 1)"

lemma ring_add_0 [simp]: "i < n \<Longrightarrow> ring_add n i 0 = i"
  by (simp add: ring_add_def)

lemma ring_add_less: "0 < n \<Longrightarrow> ring_add n i k < n"
  by (simp add: ring_add_def)

lemma ring_add_lt: "i < n \<Longrightarrow> ring_add n i k < n"
  by (simp add: ring_add_def)

lemma ring_succ_less: "i < n \<Longrightarrow> ring_succ n i < n"
  by (auto simp: ring_succ_def)

lemma ring_succ_add: "i < n \<Longrightarrow> ring_succ n i = ring_add n i 1"
  by (auto simp: ring_succ_def ring_add_def)

lemma ring_add_add: "ring_add n (ring_add n i a) b = ring_add n i (a + b)"
  by (simp add: ring_add_def mod_add_left_eq add.assoc)

lemma ring_add_Suc: "i < n \<Longrightarrow> ring_add n i (Suc k) = ring_add n (ring_succ n i) k"
  by (simp add: ring_succ_add ring_add_add)

lemma ring_add_Suc': "0 < n \<Longrightarrow> ring_add n i (Suc k) = ring_succ n (ring_add n i k)"
  by (simp add: ring_succ_add ring_add_less ring_add_add)

lemma ring_seq_0 [simp]: "ring_seq n i 0 = []"
  by (simp add: ring_seq_def)

lemma length_ring_seq [simp]: "length (ring_seq n i k) = k"
  by (simp add: ring_seq_def)

lemma ring_seq_Suc: "i < n \<Longrightarrow> ring_seq n i (Suc k) = i # ring_seq n (ring_succ n i) k"
  by (simp add: ring_seq_def ring_add_Suc upt_conv_Cons comp_def flip: map_Suc_upt del: upt_Suc)

lemma ring_seq_snoc: "ring_seq n i (Suc k) = ring_seq n i k @ [ring_add n i k]"
  by (simp add: ring_seq_def)

lemma ring_seq_append:
  "ring_seq n i (a + b) = ring_seq n i a @ ring_seq n (ring_add n i a) b"
  by (induction b) (simp_all add: ring_seq_snoc ring_add_add flip: add.assoc)

lemma drop_ring_seq: "drop k (ring_seq n i (k + l)) = ring_seq n (ring_add n i k) l"
  by (simp add: ring_seq_append)

lemma take_ring_seq: "take k (ring_seq n i (k + l)) = ring_seq n i k"
  by (simp add: ring_seq_append)

lemma set_ring_seq_less: "0 < n \<Longrightarrow> x \<in> set (ring_seq n i k) \<Longrightarrow> x < n"
  by (auto simp: ring_seq_def ring_add_less)

lemma ring_dist_same [simp]: "ring_dist n i i = 0"
  by (simp add: ring_dist_def)

lemma ring_dist_less: "i < n \<Longrightarrow> j < n \<Longrightarrow> ring_dist n i j < n"
  by (auto simp: ring_dist_def)

lemma ring_dist_step: "i < n \<Longrightarrow> j < n \<Longrightarrow> i \<noteq> j \<Longrightarrow> ring_dist n i j = Suc (ring_dist n (ring_succ n i) j)"
  by (auto simp: ring_dist_def ring_succ_def)

lemma ring_dist_0: "i < n \<Longrightarrow> j < n \<Longrightarrow> ring_dist n i j = 0 \<longleftrightarrow> i = j"
  by (auto simp: ring_dist_def)

lemma ring_add_dist: "i < n \<Longrightarrow> j < n \<Longrightarrow> ring_add n i (ring_dist n i j) = j"
  by (auto simp: ring_dist_def ring_add_def)

lemma ring_dist_add: "i < n \<Longrightarrow> k < n \<Longrightarrow> ring_dist n i (ring_add n i k) = k"
  by (cases "i + k < n") (auto simp: ring_dist_def ring_add_def mod_if)

lemma ring_add_inject: "i < n \<Longrightarrow> a < n \<Longrightarrow> b < n \<Longrightarrow> ring_add n i a = ring_add n i b \<longleftrightarrow> a = b"
  by (metis ring_dist_add)

lemma distinct_ring_seq: "i < n \<Longrightarrow> k \<le> n \<Longrightarrow> distinct (ring_seq n i k)"
  by (auto simp: ring_seq_def distinct_map ring_add_inject intro!: inj_onI)

lemma ring_seq_head_notin:
  assumes "i < n" "k < n"
  shows "i \<notin> set (ring_seq n (ring_succ n i) k)"
proof -
  have "distinct (ring_seq n i (Suc k))" using assms by (intro distinct_ring_seq) simp_all
  then show ?thesis using assms(1) by (simp add: ring_seq_Suc)
qed

lemma ring_seq_less: "i < n \<Longrightarrow> x \<in> set (ring_seq n i k) \<Longrightarrow> x < n"
  by (rule set_ring_seq_less) simp_all

text \<open>The free places of a ring that keeps one slot unused, and the rest of the way.\<close>

lemma ring_dist_pred:
  "i < n \<Longrightarrow> j < n \<Longrightarrow> ring_dist n j (ring_add n i (n - 1)) = n - 1 - ring_dist n i j"
  by (cases "i = 0") (auto simp: ring_dist_def ring_add_def mod_if)

lemma ring_dist_advance:
  assumes "i < n" "j < n" "q \<le> ring_dist n i j"
  shows "ring_dist n (ring_add n i q) j = ring_dist n i j - q"
proof -
  have "j = ring_add n (ring_add n i q) (ring_dist n i j - q)"
    using assms ring_add_dist [OF assms(1,2)] by (simp add: ring_add_add)
  moreover have "ring_add n i q < n" "ring_dist n i j - q < n"
    using assms ring_dist_less [OF assms(1,2)] by (simp_all add: ring_add_less)
  ultimately show ?thesis by (metis ring_dist_add)
qed

lemma ring_dist_trans:
  assumes "i < n" "j < n" "ring_dist n i j + k < n"
  shows "ring_dist n i (ring_add n j k) = ring_dist n i j + k"
proof -
  have "ring_add n j k = ring_add n i (ring_dist n i j + k)"
    using ring_add_dist [OF assms(1,2)] ring_add_add [of n i "ring_dist n i j" k] by simp
  then show ?thesis using assms by (simp add: ring_dist_add)
qed

section \<open>The contract of an array of packet cells\<close>

text \<open>Storing packets in consecutive cells, around the ring.\<close>

fun fill :: "('m \<Rightarrow> nat \<Rightarrow> 'p \<Rightarrow> 'm option) \<Rightarrow> nat \<Rightarrow> 'm \<Rightarrow> nat \<Rightarrow> 'p list \<Rightarrow> 'm option" where
  "fill put n m i [] = Some m"
| "fill put n m i (p # ps) =
     (case put m i p of None \<Rightarrow> None | Some m' \<Rightarrow> fill put n m' (ring_succ n i) ps)"

locale packet_cells =
  fixes put :: "'m \<Rightarrow> nat \<Rightarrow> 'p \<Rightarrow> 'm option"
    and get :: "'m \<Rightarrow> nat \<Rightarrow> 'p option"
    and wf :: "'m \<Rightarrow> bool"
    and cells :: "'m \<Rightarrow> nat"
    and fits :: "'p \<Rightarrow> bool"
  assumes put_total: "wf m \<Longrightarrow> i < cells m \<Longrightarrow> fits p \<Longrightarrow> \<exists>m'. put m i p = Some m'"
    and put_wf: "wf m \<Longrightarrow> fits p \<Longrightarrow> put m i p = Some m' \<Longrightarrow> wf m' \<and> cells m' = cells m"
    and get_put: "wf m \<Longrightarrow> i < cells m \<Longrightarrow> j < cells m \<Longrightarrow> fits p \<Longrightarrow> put m i p = Some m' \<Longrightarrow>
        get m' j = (if j = i then Some p else get m j)"
begin

lemma fill_total:
  "wf m \<Longrightarrow> cells m = n \<Longrightarrow> i < n \<Longrightarrow> \<forall>p \<in> set ps. fits p \<Longrightarrow>
     \<exists>m'. fill put n m i ps = Some m' \<and> wf m' \<and> cells m' = n"
proof (induction ps arbitrary: m i)
  case Nil
  then show ?case by simp
next
  case (Cons p ps)
  then obtain u where u: "put m i p = Some u" using put_total by fastforce
  then have "wf u" "cells u = n" using put_wf [OF Cons.prems(1) _ u] Cons.prems by simp_all
  then show ?case using Cons.IH [of u "ring_succ n i"] Cons.prems u by (simp add: ring_succ_less)
qed

lemma fill_frame:
  "wf m \<Longrightarrow> cells m = n \<Longrightarrow> i < n \<Longrightarrow> \<forall>p \<in> set ps. fits p \<Longrightarrow> fill put n m i ps = Some m' \<Longrightarrow>
     j < n \<Longrightarrow> j \<notin> set (ring_seq n i (length ps)) \<Longrightarrow> get m' j = get m j"
proof (induction ps arbitrary: m i)
  case Nil
  then show ?case by simp
next
  case (Cons p ps)
  from Cons.prems(5) obtain u where u: "put m i p = Some u"
    and rest: "fill put n u (ring_succ n i) ps = Some m'"
    by (auto split: option.splits)
  have j: "j \<noteq> i" "j \<notin> set (ring_seq n (ring_succ n i) (length ps))"
    using Cons.prems(3,7) by (simp_all add: ring_seq_Suc)
  have "wf u" "cells u = n" using put_wf [OF Cons.prems(1) _ u] Cons.prems(2,4) by simp_all
  then have "get m' j = get u j"
    using Cons.IH [of u "ring_succ n i"] rest j Cons.prems by (simp add: ring_succ_less)
  then show ?case using get_put [OF Cons.prems(1) _ _ _ u, of j] j Cons.prems by simp
qed

lemma fill_get:
  "wf m \<Longrightarrow> cells m = n \<Longrightarrow> i < n \<Longrightarrow> \<forall>p \<in> set ps. fits p \<Longrightarrow> fill put n m i ps = Some m' \<Longrightarrow>
     length ps \<le> n \<Longrightarrow> map (get m') (ring_seq n i (length ps)) = map Some ps"
proof (induction ps arbitrary: m i)
  case Nil
  then show ?case by simp
next
  case (Cons p ps)
  from Cons.prems(5) obtain u where u: "put m i p = Some u"
    and rest: "fill put n u (ring_succ n i) ps = Some m'"
    by (auto split: option.splits)
  have wu: "wf u" "cells u = n" using put_wf [OF Cons.prems(1) _ u] Cons.prems(2,4) by simp_all
  have "i \<notin> set (ring_seq n (ring_succ n i) (length ps))"
    using Cons.prems by (intro ring_seq_head_notin) simp_all
  then have "get m' i = get u i"
    using fill_frame [OF wu _ _ rest] Cons.prems by (simp add: ring_succ_less)
  then have "get m' i = Some p"
    using get_put [OF Cons.prems(1) _ _ _ u, of i] Cons.prems by simp
  moreover have "map (get m') (ring_seq n (ring_succ n i) (length ps)) = map Some ps"
    using Cons.IH [OF wu _ _ rest] Cons.prems by (simp add: ring_succ_less)
  ultimately show ?case using Cons.prems by (simp add: ring_seq_Suc)
qed

text \<open>Filling from the end of a run of cells appends to what the run holds.\<close>

lemma fill_append:
  assumes "wf m" "cells m = n" "hw < n" "\<forall>p \<in> set ps. fits p" "d + length ps \<le> n"
    and f: "fill put n m (ring_add n hw d) ps = Some m'"
  shows "map (get m') (ring_seq n hw (d + length ps)) = map (get m) (ring_seq n hw d) @ map Some ps"
proof -
  let ?i = "ring_add n hw d"
  have i: "?i < n" using assms by (simp add: ring_add_less)
  have dis: "distinct (ring_seq n hw d @ ring_seq n ?i (length ps))"
    using distinct_ring_seq [OF assms(3,5)] by (simp add: ring_seq_append)
  have "map (get m') (ring_seq n hw d) = map (get m) (ring_seq n hw d)"
  proof (rule map_cong [OF refl])
    fix j assume j: "j \<in> set (ring_seq n hw d)"
    then have "j < n" using assms(3) by (auto dest: set_ring_seq_less [rotated])
    then show "get m' j = get m j"
      using fill_frame [OF assms(1,2) i assms(4) f] j dis by auto
  qed
  then show ?thesis
    using fill_get [OF assms(1,2) i assms(4) f] assms(5) by (simp add: ring_seq_append)
qed

end

end
