(* ===== verification/Netmap_If.thy ===== *)
theory Netmap_If
  imports Ring_Memory
begin

text \<open>
  What the two Xen drivers see of netmap and of the Linux kernel. The netmap headers are a
  git submodule and not part of the repository, so the inline functions, macros and
  constants the drivers use are the fields of the parameter \<open>netmap_api\<close>; the records hold
  the fields of netmap's slots, rings and krings that the drivers read or write.
  \<open>api_ok\<close> states the documented behaviour that the theorems rely on: slot numbers advance
  and go back around the ring, a ring is empty when its cursor reached its tail, the buffer
  of a slot depends on its index alone, and the prologue and finalizers of a sync leave the
  slots and the kernel's own indices alone.
\<close>

section \<open>Slots, rings and krings\<close>

record nslot =
  s_buf_idx :: u32
  s_len :: u16
  s_flags :: u16
  s_ptr :: u64

record nring =
  num_slots :: u32
  r_head :: u32
  r_cur :: u32
  r_tail :: u32
  r_slots :: "nslot list"

record kring =
  nkr_num_slots :: u32
  nr_hwcur :: u32
  nr_hwtail :: u32
  nr_rhead :: u32
  nr_kflags :: u32
  nr_busy :: bool
  nkr_slot_flags :: u16
  k_ring :: nring

text \<open>Buffer addresses are offsets from \<open>netmap_buffer_base\<close>, which is the bad buffer.\<close>

record netmap_api =
  nm_next :: "u32 \<Rightarrow> u32 \<Rightarrow> u32"
  nm_prev :: "u32 \<Rightarrow> u32 \<Rightarrow> u32"
  nm_ring_empty :: "nring \<Rightarrow> bool"
  nm_kr_txempty :: "kring \<Rightarrow> bool"
  netmap_idx_k2n :: "kring \<Rightarrow> u32 \<Rightarrow> u32"
  netmap_idx_n2k :: "kring \<Rightarrow> u32 \<Rightarrow> u32"
  NMB :: "nslot \<Rightarrow> nat"
  nm_rxsync_prologue :: "kring \<Rightarrow> u32 \<times> kring"
  nm_rxsync_finalize :: "kring \<Rightarrow> kring"
  nm_txsync_finalize :: "kring \<Rightarrow> kring"
  netmap_ring_reinit :: "kring \<Rightarrow> int \<times> kring"
  netmap_no_pendintr :: bool
  NAF_FORCE_READ :: u32
  NAF_FORCE_RECLAIM :: u32
  NKR_PENDINTR :: u32
  NS_BUF_CHANGED :: u16
  NS_REPORT :: u16

definition kring_same :: "kring \<Rightarrow> kring \<Rightarrow> bool" where
  "kring_same k k' \<longleftrightarrow> nkr_num_slots k' = nkr_num_slots k \<and> nr_hwcur k' = nr_hwcur k
     \<and> nr_hwtail k' = nr_hwtail k \<and> nr_kflags k' = nr_kflags k
     \<and> nkr_slot_flags k' = nkr_slot_flags k \<and> r_slots (k_ring k') = r_slots (k_ring k)"

definition api_ok :: "netmap_api \<Rightarrow> bool" where
  "api_ok A \<longleftrightarrow>
     (\<forall>i lim. i \<le> lim \<longrightarrow> nm_next A i lim = (if i = lim then 0 else i + 1))
   \<and> (\<forall>i lim. i \<le> lim \<longrightarrow> nm_prev A i lim = (if i = 0 then lim else i - 1))
   \<and> (\<forall>r. nm_ring_empty A r \<longleftrightarrow> r_cur r = r_tail r)
   \<and> (\<forall>s l f. NMB A (s\<lparr>s_len := l, s_flags := f\<rparr>) = NMB A s)
   \<and> (\<forall>k. kring_same k (snd (nm_rxsync_prologue A k)))
   \<and> (\<forall>k. kring_same k (nm_rxsync_finalize A k))
   \<and> (\<forall>k. kring_same k (nm_txsync_finalize A k))"

lemma api_nm_next: "api_ok A \<Longrightarrow> i \<le> lim \<Longrightarrow> nm_next A i lim = (if i = lim then 0 else i + 1)"
  and api_nm_prev: "api_ok A \<Longrightarrow> i \<le> lim \<Longrightarrow> nm_prev A i lim = (if i = 0 then lim else i - 1)"
  and api_ring_empty: "api_ok A \<Longrightarrow> nm_ring_empty A r \<longleftrightarrow> r_cur r = r_tail r"
  and api_NMB: "api_ok A \<Longrightarrow> NMB A (s\<lparr>s_len := l, s_flags := f\<rparr>) = NMB A s"
  and api_prologue: "api_ok A \<Longrightarrow> kring_same k (snd (nm_rxsync_prologue A k))"
  and api_rx_finalize: "api_ok A \<Longrightarrow> kring_same k (nm_rxsync_finalize A k)"
  and api_tx_finalize: "api_ok A \<Longrightarrow> kring_same k (nm_txsync_finalize A k)"
  by (simp_all add: api_ok_def)

text \<open>The documented behaviour, as a concrete instance: two-kilobyte buffers in one area.\<close>

definition sample_api :: netmap_api where
  "sample_api = \<lparr>nm_next = \<lambda>i lim. if i = lim then 0 else i + 1,
     nm_prev = \<lambda>i lim. if i = 0 then lim else i - 1,
     nm_ring_empty = \<lambda>r. r_cur r = r_tail r,
     nm_kr_txempty = \<lambda>k. nr_hwcur k = nr_hwtail k,
     netmap_idx_k2n = \<lambda>k i. i, netmap_idx_n2k = \<lambda>k i. i,
     NMB = \<lambda>s. 2048 * unat (s_buf_idx s),
     nm_rxsync_prologue = \<lambda>k. (r_head (k_ring k), k\<lparr>nr_rhead := r_head (k_ring k)\<rparr>),
     nm_rxsync_finalize = \<lambda>k. k\<lparr>k_ring := (k_ring k)\<lparr>r_tail := nr_hwtail k\<rparr>\<rparr>,
     nm_txsync_finalize = \<lambda>k. k\<lparr>k_ring := (k_ring k)\<lparr>r_tail := nr_hwtail k\<rparr>\<rparr>,
     netmap_ring_reinit = \<lambda>k. (1, k),
     netmap_no_pendintr = True,
     NAF_FORCE_READ = 1, NAF_FORCE_RECLAIM = 2, NKR_PENDINTR = 1,
     NS_BUF_CHANGED = 1, NS_REPORT = 2\<rparr>"

lemma sample_api_ok: "api_ok sample_api"
  by (simp add: api_ok_def sample_api_def kring_same_def)

section \<open>Slot numbers as indices of a ring\<close>

lemma unat_ring_next:
  assumes "i < n"
  shows "unat (if i = n - 1 then 0 else i + 1 :: u32) = ring_succ (unat n) (unat i)"
proof -
  have lt: "unat i < unat n" using assms by (simp add: word_less_nat_alt)
  then have n0: "n \<noteq> 0" by auto
  then have n1: "unat (n - 1) = unat n - 1" by (simp add: unat_minus_one)
  show ?thesis
  proof (cases "i = n - 1")
    case True
    then show ?thesis using n1 lt by (simp add: ring_succ_def)
  next
    case False
    then have "unat i \<noteq> unat n - 1" using n1 by (metis word_unat_eq_iff)
    then have "unat i + 1 < unat n" using lt by simp
    then show ?thesis
      using False unat_plus_1 [of i] unat_u32_less [of n] by (simp add: ring_succ_def)
  qed
qed

lemma unat_ring_prev:
  assumes "i < n"
  shows "unat (if i = 0 then n - 1 else i - 1 :: u32) = ring_add (unat n) (unat i) (unat n - 1)"
proof -
  have lt: "unat i < unat n" using assms by (simp add: word_less_nat_alt)
  then have n0: "n \<noteq> 0" by auto
  show ?thesis
  proof (cases "i = 0")
    case True
    then show ?thesis using lt n0 by (simp add: unat_minus_one ring_add_def)
  next
    case False
    then have "unat i \<noteq> 0" by (metis unat_0 word_unat_eq_iff)
    then have eq: "unat i + (unat n - 1) = (unat i - 1) + unat n" using lt by simp
    have "unat i - 1 < unat n" using lt by simp
    then have "ring_add (unat n) (unat i) (unat n - 1) = unat i - 1"
      unfolding ring_add_def eq by (simp only: mod_add_self2 mod_less)
    then show ?thesis using False by (simp only: if_False unat_minus_one not_False_eq_True)
  qed
qed

lemma less_le_lim: "i < n \<Longrightarrow> i \<le> n - (1 :: u32)"
proof -
  assume "i < n"
  then have lt: "unat i < unat n" by (simp add: word_less_nat_alt)
  then have "n \<noteq> 0" by auto
  then have "unat (n - 1) = unat n - 1" by (rule unat_minus_one)
  then show ?thesis using lt by (simp add: word_le_nat_alt)
qed

lemma nm_next_succ:
  "api_ok A \<Longrightarrow> i < n \<Longrightarrow> unat (nm_next A i (n - 1)) = ring_succ (unat n) (unat i)"
  by (simp add: api_nm_next less_le_lim unat_ring_next)

lemma nm_prev_pred:
  "api_ok A \<Longrightarrow> i < n \<Longrightarrow> unat (nm_prev A i (n - 1)) = ring_add (unat n) (unat i) (unat n - 1)"
  by (simp add: api_nm_prev less_le_lim unat_ring_prev)

section \<open>Packet cells\<close>

text \<open>
  A cell is a slot of a ring together with its buffer in the memory of the buffers; where
  that buffer is depends on the ring: \<open>addr i s\<close> is \<open>NMB\<close> of the slot in a netmap ring, and
  the \<open>i\<close>-th area of 2048 bytes in the area that the two domains share. A packet is stored
  by a copy to the buffer and an update \<open>upd\<close> of the slot after its length.
\<close>

type_synonym cells = "nslot list \<times> u8 list"

definition BUF_SIZE :: nat where
  "BUF_SIZE = 2048"

definition cell_fits :: "u8 list \<Rightarrow> bool" where
  "cell_fits p \<longleftrightarrow> length p \<le> BUF_SIZE"

definition cell_get :: "(nat \<Rightarrow> nslot \<Rightarrow> nat) \<Rightarrow> cells \<Rightarrow> nat \<Rightarrow> u8 list option" where
  "cell_get addr c i = do {
     s \<leftarrow> arr_get (fst c) i;
     rd_bytes (snd c) (addr i s) (unat (s_len s))
   }"

definition cell_put :: "(nat \<Rightarrow> nslot \<Rightarrow> nat) \<Rightarrow> (nslot \<Rightarrow> nslot) \<Rightarrow> cells \<Rightarrow> nat \<Rightarrow> u8 list \<Rightarrow> cells option" where
  "cell_put addr upd c i p = do {
     s \<leftarrow> arr_get (fst c) i;
     m \<leftarrow> wr_bytes (snd c) (addr i s) p;
     Some ((fst c)[i := upd (s\<lparr>s_len := of_nat (length p)\<rparr>)], m)
   }"

definition cells_apart :: "(nat \<Rightarrow> nslot \<Rightarrow> nat) \<Rightarrow> cells \<Rightarrow> bool" where
  "cells_apart addr c \<longleftrightarrow>
     (\<forall>i < length (fst c). addr i (fst c ! i) + BUF_SIZE \<le> length (snd c)
        \<and> (\<forall>j < length (fst c). i = j \<or> addr i (fst c ! i) + BUF_SIZE \<le> addr j (fst c ! j)
              \<or> addr j (fst c ! j) + BUF_SIZE \<le> addr i (fst c ! i)))"

definition upd_ok :: "(nat \<Rightarrow> nslot \<Rightarrow> nat) \<Rightarrow> (nslot \<Rightarrow> nslot) \<Rightarrow> bool" where
  "upd_ok addr upd \<longleftrightarrow> (\<forall>s l i. addr i (upd (s\<lparr>s_len := l\<rparr>)) = addr i s \<and> s_len (upd s) = s_len s)"

definition wf_cells :: "(nat \<Rightarrow> nslot \<Rightarrow> nat) \<Rightarrow> (nslot \<Rightarrow> nslot) \<Rightarrow> cells \<Rightarrow> bool" where
  "wf_cells addr upd c \<longleftrightarrow> upd_ok addr upd \<and> cells_apart addr c"

definition cells_count :: "cells \<Rightarrow> nat" where
  "cells_count c = length (fst c)"

lemma cell_fits_u16: "cell_fits p \<Longrightarrow> unat (of_nat (length p) :: u16) = length p"
  by (simp add: cell_fits_def BUF_SIZE_def unat_of_nat)

lemma upd_okD: "upd_ok addr upd \<Longrightarrow> addr i (upd (s\<lparr>s_len := l\<rparr>)) = addr i s \<and> s_len (upd s) = s_len s"
  by (simp add: upd_ok_def)

lemma cells_apart_bound:
  "cells_apart addr c \<Longrightarrow> i < length (fst c) \<Longrightarrow> addr i (fst c ! i) + BUF_SIZE \<le> length (snd c)"
  by (simp add: cells_apart_def)

lemma cells_apartD:
  "cells_apart addr c \<Longrightarrow> i < length (fst c) \<Longrightarrow> j < length (fst c) \<Longrightarrow> i \<noteq> j \<Longrightarrow>
     addr j (fst c ! j) + BUF_SIZE \<le> addr i (fst c ! i)
     \<or> addr i (fst c ! i) + BUF_SIZE \<le> addr j (fst c ! j)"
  unfolding cells_apart_def by blast

lemma cell_put_conv:
  "cell_put addr upd c i p = Some c' \<longleftrightarrow> i < length (fst c)
     \<and> (\<exists>m. wr_bytes (snd c) (addr i (fst c ! i)) p = Some m
          \<and> c' = ((fst c)[i := upd ((fst c ! i)\<lparr>s_len := of_nat (length p)\<rparr>)], m))"
  by (auto simp: cell_put_def bind_eq_Some_conv arr_get_conv)

text \<open>A packet in a cell is at most as long as the area of the cell.\<close>

definition lens_ok :: "cells \<Rightarrow> bool" where
  "lens_ok c \<longleftrightarrow> (\<forall>s \<in> set (fst c). unat (s_len s) \<le> BUF_SIZE)"

lemma cell_get_Some:
  assumes "cells_apart addr c" "lens_ok c" "i < length (fst c)"
  shows "\<exists>p. cell_get addr c i = Some p \<and> cell_fits p \<and> length p = unat (s_len (fst c ! i))"
proof -
  have l: "unat (s_len (fst c ! i)) \<le> BUF_SIZE" using assms by (simp add: lens_ok_def)
  then have "addr i (fst c ! i) + unat (s_len (fst c ! i)) \<le> length (snd c)"
    using cells_apart_bound [OF assms(1,3)] by linarith
  then show ?thesis using l assms(3)
    by (auto simp: cell_get_def arr_get_Some rd_bytes_def cell_fits_def)
qed

lemma cell_put_addr:
  assumes "upd_ok addr upd" "cell_put addr upd c i p = Some c'" "j < length (fst c)"
  shows "addr j (fst c' ! j) = addr j (fst c ! j)"
  using assms upd_okD [OF assms(1)] by (auto simp: cell_put_conv nth_list_update)

lemma cell_put_length:
  "cell_put addr upd c i p = Some c' \<Longrightarrow>
     length (fst c') = length (fst c) \<and> length (snd c') = length (snd c)"
  by (auto simp: cell_put_conv dest: wr_bytes_length)

lemma cell_put_apart:
  "wf_cells addr upd c \<Longrightarrow> cell_put addr upd c i p = Some c' \<Longrightarrow> wf_cells addr upd c'"
  using cell_put_addr [of addr upd c i p c'] cell_put_length [of addr upd c i p c']
  by (simp add: wf_cells_def cells_apart_def)

lemma cell_put_lens:
  assumes "wf_cells addr upd c" "lens_ok c" "cell_fits p" "cell_put addr upd c i p = Some c'"
  shows "lens_ok c'"
proof -
  have "unat (s_len (upd ((fst c ! i)\<lparr>s_len := of_nat (length p)\<rparr>))) \<le> BUF_SIZE"
    using assms(1,3) upd_okD [of addr upd] cell_fits_u16 [of p]
    by (simp add: wf_cells_def cell_fits_def)
  then show ?thesis using assms(2,4)
    by (auto simp: lens_ok_def cell_put_conv dest!: set_update_subset_insert [THEN subsetD])
qed

lemma cell_get_put:
  assumes wf: "wf_cells addr upd c" and l: "lens_ok c" and fit: "cell_fits p"
    and put: "cell_put addr upd c i p = Some c'" and j: "j < length (fst c)"
  shows "cell_get addr c' j = (if j = i then Some p else cell_get addr c j)"
proof -
  have i: "i < length (fst c)" using put by (simp add: cell_put_conv)
  obtain m where m: "wr_bytes (snd c) (addr i (fst c ! i)) p = Some m"
    and c': "c' = ((fst c)[i := upd ((fst c ! i)\<lparr>s_len := of_nat (length p)\<rparr>)], m)"
    using put by (auto simp: cell_put_conv)
  have u: "upd_ok addr upd" and ap: "cells_apart addr c" using wf by (simp_all add: wf_cells_def)
  show ?thesis
  proof (cases "j = i")
    case True
    then show ?thesis
      using i rd_wr_same [OF m] upd_okD [OF u] cell_fits_u16 [OF fit]
      by (simp add: c' cell_get_def arr_get_Some)
  next
    case False
    have "unat (s_len (fst c ! j)) \<le> BUF_SIZE" using l j by (simp add: lens_ok_def)
    then have "addr j (fst c ! j) + unat (s_len (fst c ! j)) \<le> addr i (fst c ! i)
        \<or> addr i (fst c ! i) + length p \<le> addr j (fst c ! j)"
      using cells_apartD [OF ap i j] False fit by (auto simp: cell_fits_def)
    then have "rd_bytes m (addr j (fst c ! j)) (unat (s_len (fst c ! j)))
        = rd_bytes (snd c) (addr j (fst c ! j)) (unat (s_len (fst c ! j)))"
      by (rule rd_wr_other [OF m])
    then show ?thesis using False i j by (simp add: c' cell_get_def arr_get_Some)
  qed
qed

interpretation nmc: packet_cells "cell_put addr upd" "cell_get addr" "\<lambda>c. wf_cells addr upd c \<and> lens_ok c"
    cells_count cell_fits for addr upd
proof unfold_locales
  fix c i p
  assume "wf_cells addr upd c \<and> lens_ok c" "i < cells_count c" "cell_fits p"
  then have "addr i (fst c ! i) + length p \<le> length (snd c)" "i < length (fst c)"
    using cells_apart_bound [of addr c i]
    by (auto simp: wf_cells_def cells_count_def cell_fits_def)
  then show "\<exists>c'. cell_put addr upd c i p = Some c'"
    by (auto simp: cell_put_def arr_get_Some wr_bytes_def)
next
  fix c i p c'
  assume "wf_cells addr upd c \<and> lens_ok c" "cell_fits p" "cell_put addr upd c i p = Some c'"
  then show "(wf_cells addr upd c' \<and> lens_ok c') \<and> cells_count c' = cells_count c"
    by (auto simp: cells_count_def dest: cell_put_apart cell_put_lens cell_put_length)
next
  fix c i j p c'
  assume "wf_cells addr upd c \<and> lens_ok c" "i < cells_count c" "j < cells_count c"
    "cell_fits p" "cell_put addr upd c i p = Some c'"
  then show "cell_get addr c' j = (if j = i then Some p else cell_get addr c j)"
    using cell_get_put [of addr upd c p i c' j] by (simp add: cells_count_def)
qed

end
