(* ===== verification/Netfront_Rings.thy ===== *)
theory Netfront_Rings
  imports Netmap_If
begin

text \<open>
  The packet path of the front end, \<open>LINUX/netfront_netmap_linux.h\<close>: the state the
  handlers share (\<open>struct netmap_info\<close> with its control block \<open>struct netfront_csb\<close>), the
  transfer of a packet to the transmit ring, the two sync methods of the adapter and the
  interrupt handlers. The shared rings and their buffer areas are part of the state, a
  notification of the other domain is an event appended to \<open>nf_notified\<close>, and a fault (an
  access outside a ring or a buffer area) is \<open>None\<close>.
\<close>

section \<open>State\<close>

datatype irq = Tx_irq | Rx_irq

text \<open>\<open>notify_remote_via_irq\<close> on an event channel, and \<open>netmap_rx_irq\<close> for the waiters of a ring.\<close>

datatype nf_event = Notify irq | Wake irq

record netfront_csb =
  txcur :: u16
  txhead :: u16
  guest_need_txkick :: u8
  guest_need_rxkick :: u8
  host_need_rxkick :: u8
  host_need_txkick :: u8

text \<open>\<open>nf_mem\<close> is the memory of the netmap buffers, \<open>nf_carrier\<close> is \<open>netif_carrier_ok\<close>.\<close>

record netmap_info =
  ni_tx_rings :: nring
  ni_rx_rings :: nring
  ni_stat :: netfront_csb
  ni_tx_bufs :: "u8 list"
  ni_rx_bufs :: "u8 list"
  nf_mem :: "u8 list"
  nf_carrier :: bool
  nf_native :: bool
  nf_events :: "nf_event list"

definition NETFRONT_BUF_SIZE :: u32 where
  "NETFRONT_BUF_SIZE = 2048"

definition NETFRONT_BUF :: "u32 \<Rightarrow> nat" where
  "NETFRONT_BUF index = unat (index * NETFRONT_BUF_SIZE)"

definition NETFRONT_TDH :: "netmap_info \<Rightarrow> u32" where
  "NETFRONT_TDH np = ucast (txhead (ni_stat np))"

definition NETMAP_RING_NEXT :: "nring \<Rightarrow> u32 \<Rightarrow> u32" where
  "NETMAP_RING_NEXT r i = (if i + 1 = num_slots r then 0 else i + 1)"

definition nm_ring_space :: "nring \<Rightarrow> u32" where
  "nm_ring_space r =
     (let ret = r_tail r - r_cur r
      in if sint ret < 0 then ret + num_slots r else ret)"

definition notify :: "irq \<Rightarrow> netmap_info \<Rightarrow> netmap_info" where
  "notify e np = np\<lparr>nf_events := nf_events np @ [Notify e]\<rparr>"

definition wake :: "irq \<Rightarrow> netmap_info \<Rightarrow> netmap_info" where
  "wake e np = np\<lparr>nf_events := nf_events np @ [Wake e]\<rparr>"

section \<open>Transmission\<close>

text \<open>
  \<open>netfront_netmap_xmit\<close>: the packet is the memory from \<open>buf\<close> on, its result 0 or 1. The
  payload goes to the buffer of \<open>ring->cur\<close>, the length to the slot \<open>stat->txcur\<close>.
\<close>

definition netfront_netmap_xmit ::
  "netmap_api \<Rightarrow> netmap_info \<Rightarrow> u8 list \<Rightarrow> u32 \<Rightarrow> (int \<times> netmap_info) option" where
  "netfront_netmap_xmit A np buf len =
     (let ring = ni_tx_rings np;
          stat = ni_stat np;
          cur = ucast (txcur stat);
          p = NETFRONT_BUF (r_cur ring)
      in if nm_ring_empty A ring then Some (0, np)
         else do {
           pkt \<leftarrow> rd_bytes buf 0 (unat len);
           bufs \<leftarrow> wr_bytes (ni_tx_bufs np) p pkt;
           slot \<leftarrow> arr_get (r_slots ring) (unat cur);
           let ring = ring\<lparr>r_slots := (r_slots ring)[unat cur := slot\<lparr>s_len := ucast len\<rparr>]\<rparr>;
           let cur = NETMAP_RING_NEXT ring cur;
           let stat = stat\<lparr>txcur := ucast cur, txhead := ucast cur\<rparr>;
           let np = np\<lparr>ni_tx_rings := ring, ni_tx_bufs := bufs, ni_stat := stat\<rparr>;
           Some (1,
             if host_need_txkick stat \<noteq> 0 then
               notify Tx_irq (np\<lparr>ni_tx_rings := ring\<lparr>r_head := ucast (txcur stat), r_cur := ucast (txcur stat)\<rparr>,
                                 ni_stat := stat\<lparr>guest_need_txkick := 1, host_need_txkick := 0\<rparr>\<rparr>)
             else np)
         })"

text \<open>
  The sending loop of \<open>netfront_netmap_txsync\<close>, from \<open>nm_i\<close> to the first slot that could
  not be sent; it need not end when \<open>head\<close> is not an index of the ring.
\<close>

partial_function (option) tx_send ::
  "netmap_api \<Rightarrow> u32 \<Rightarrow> u32 \<Rightarrow> u32 \<Rightarrow> nring \<Rightarrow> netmap_info \<Rightarrow> (u32 \<times> nring \<times> netmap_info) option" where
  "tx_send A lim head nm_i ring np =
     (if nm_i = head then Some (nm_i, ring, np)
      else do {
        slot \<leftarrow> arr_get (r_slots ring) (unat nm_i);
        let len = ucast (s_len slot);
        (sent, np) \<leftarrow> netfront_netmap_xmit A np (drop (NMB A slot) (nf_mem np)) len;
        if sent = 0 then Some (nm_i, ring, np)
        else tx_send A lim head (nm_next A nm_i lim)
               (ring\<lparr>r_slots := (r_slots ring)[unat nm_i :=
                   slot\<lparr>s_flags := s_flags slot AND NOT (NS_REPORT A OR NS_BUF_CHANGED A)\<rparr>]\<rparr>) np
      })"

text \<open>Whether completed slots are reclaimed, and the reclaim itself.\<close>

definition reclaim_tx :: "netmap_api \<Rightarrow> netmap_info \<Rightarrow> kring \<Rightarrow> u32 \<Rightarrow> bool" where
  "reclaim_tx A np kring flags =
     (if guest_need_txkick (ni_stat np) \<noteq> 0 then False
      else if flags AND NAF_FORCE_RECLAIM A \<noteq> 0 then True
      else if \<not> nm_kr_txempty A kring then False
      else True)"

definition tx_reclaim :: "netmap_api \<Rightarrow> netmap_info \<Rightarrow> kring \<Rightarrow> kring" where
  "tx_reclaim A np kring =
     (let lim = nkr_num_slots kring - 1;
          nic_i = NETFRONT_TDH np;
          nic_i = (if nkr_num_slots kring \<le> nic_i then nic_i - nkr_num_slots kring else nic_i)
      in kring\<lparr>nr_hwtail := nm_prev A (netmap_idx_n2k A kring nic_i) lim\<rparr>)"

definition netfront_netmap_txsync ::
  "netmap_api \<Rightarrow> netmap_info \<Rightarrow> kring \<Rightarrow> u32 \<Rightarrow> (int \<times> kring \<times> netmap_info) option" where
  "netfront_netmap_txsync A np kring flags =
     (let lim = nkr_num_slots kring - 1; head = nr_rhead kring
      in if \<not> nf_carrier np then Some (0, nm_txsync_finalize A kring, np)
         else do {
           (kring, np) \<leftarrow> (let nm_i = nr_hwcur kring
              in if nm_i \<noteq> head then do {
                   (nm_i, ring, np) \<leftarrow> tx_send A lim head nm_i (k_ring kring) np;
                   Some (kring\<lparr>k_ring := ring, nr_hwcur := nm_i\<rparr>, np)
                 } else Some (kring, np));
           let kring = (if reclaim_tx A np kring flags then tx_reclaim A np kring else kring);
           Some (0, nm_txsync_finalize A kring, np)
         })"

section \<open>Reception\<close>

text \<open>
  The import loop of \<open>netfront_netmap_rxsync\<close>. It ends with the slots imported, or at a
  slot whose buffer is the bad buffer. Every further round takes one from \<open>j\<close>, so it ends;
  \<open>n\<close> is counted by the body and again by the loop header.
\<close>

datatype import_result =
    Bad_buffer nring "u8 list"
  | Imported nring "u8 list" u32 u32 u32

function rx_import ::
  "netmap_api \<Rightarrow> netmap_info \<Rightarrow> u32 \<Rightarrow> u32 \<Rightarrow> u16 \<Rightarrow> nring \<Rightarrow> u8 list \<Rightarrow> u32 \<Rightarrow> u32 \<Rightarrow> u32 \<Rightarrow> u32
     \<Rightarrow> import_result option" where
  "rx_import A np lim stop_i slot_flags ring mem nm_i n cur j =
     (if nm_i = stop_i then Some (Imported ring mem nm_i n cur)
      else case arr_get (r_slots ring) (unat nm_i) of None \<Rightarrow> None | Some slot \<Rightarrow>
        (if NMB A slot = 0 then Some (Bad_buffer ring mem)
         else if host_need_rxkick (ni_stat np) = 0 \<or> j = 0 then Some (Imported ring mem nm_i n cur)
         else case arr_get (r_slots (ni_rx_rings np)) (unat cur) of None \<Rightarrow> None | Some nf_slot \<Rightarrow>
          (case rd_bytes (ni_rx_bufs np) (NETFRONT_BUF cur) (unat (s_len nf_slot)) of
             None \<Rightarrow> None
           | Some pkt \<Rightarrow>
              (case wr_bytes mem (NMB A slot) pkt of None \<Rightarrow> None | Some mem \<Rightarrow>
                 rx_import A np lim stop_i slot_flags
                   (ring\<lparr>r_slots := (r_slots ring)[unat nm_i :=
                       slot\<lparr>s_len := s_len nf_slot, s_flags := slot_flags\<rparr>]\<rparr>)
                   mem (nm_next A nm_i lim) (n + 1 + 1) (NETMAP_RING_NEXT (ni_rx_rings np) cur)
                   (j - 1)))))"
  by pat_completeness auto

termination rx_import
  by (relation "measure (\<lambda>(A, np, lim, stop_i, fl, ring, mem, nm_i, n, cur, j). unat j)")
     (auto simp: unat_minus_one unat_gt_0)

declare rx_import.simps [simp del]

text \<open>The loop over the slots that the user has released.\<close>

partial_function (option) rx_release :: "netmap_api \<Rightarrow> u32 \<Rightarrow> u32 \<Rightarrow> u32 \<Rightarrow> nring \<Rightarrow> nring option" where
  "rx_release A lim head nm_i ring =
     (if nm_i = head then Some ring
      else do {
        slot \<leftarrow> arr_get (r_slots ring) (unat nm_i);
        rx_release A lim head (nm_next A nm_i lim)
          (ring\<lparr>r_slots := (r_slots ring)[unat nm_i :=
              slot\<lparr>s_flags := s_flags slot AND NOT (NS_BUF_CHANGED A)\<rparr>]\<rparr>)
      })"

text \<open>The result of the first part: the code returns early on a bad buffer.\<close>

definition rx_first_part ::
  "netmap_api \<Rightarrow> netmap_info \<Rightarrow> kring \<Rightarrow> (bool \<times> kring \<times> netmap_info) option" where
  "rx_first_part A np kring =
     (let lim = nkr_num_slots kring - 1;
          stop_i = nm_prev A (nr_hwcur kring) lim;
          nfr = ni_rx_rings np;
          stat = ni_stat np
      in do {
        r \<leftarrow> rx_import A np lim stop_i (nkr_slot_flags kring) (k_ring kring) (nf_mem np)
              (nr_hwtail kring) 0 (r_cur nfr) (nm_ring_space nfr);
        case r of
          Bad_buffer ring mem \<Rightarrow> Some (False, kring\<lparr>k_ring := ring\<rparr>, np\<lparr>nf_mem := mem\<rparr>)
        | Imported ring mem nm_i n cur \<Rightarrow>
            (let kring = kring\<lparr>k_ring := ring\<rparr>;
                 np = np\<lparr>nf_mem := mem\<rparr>;
                 kring = (if n \<noteq> 0 then kring\<lparr>nr_hwtail := nm_i\<rparr> else kring);
                 np = (if host_need_rxkick stat \<noteq> 0 then
                         (let np = (if n \<noteq> 0
                                    then np\<lparr>ni_rx_rings := nfr\<lparr>r_head := cur, r_cur := cur\<rparr>\<rparr> else np)
                          in notify Rx_irq (np\<lparr>ni_stat := stat\<lparr>host_need_rxkick := 0\<rparr>\<rparr>))
                       else np)
             in Some (True, kring\<lparr>nr_kflags := nr_kflags kring AND NOT (NKR_PENDINTR A)\<rparr>, np))
      })"

definition netfront_netmap_rxsync ::
  "netmap_api \<Rightarrow> netmap_info \<Rightarrow> kring \<Rightarrow> u32 \<Rightarrow> (int \<times> kring \<times> netmap_info) option" where
  "netfront_netmap_rxsync A np kring flags =
     (let lim = nkr_num_slots kring - 1;
          (head, kring) = nm_rxsync_prologue A kring;
          force_update = flags AND NAF_FORCE_READ A \<noteq> 0 \<or> nr_kflags kring AND NKR_PENDINTR A \<noteq> 0
      in if lim < head then
           (let (r, kring) = netmap_ring_reinit A kring in Some (r, kring, np))
         else do {
           (ok, kring, np) \<leftarrow> (if netmap_no_pendintr A \<or> force_update
                              then rx_first_part A np kring else Some (True, kring, np));
           if \<not> ok then (let (r, kring) = netmap_ring_reinit A kring in Some (r, kring, np))
           else do {
             kring \<leftarrow> (let nm_i = nr_hwcur kring
                in if nm_i \<noteq> head then do {
                     ring \<leftarrow> rx_release A lim head nm_i (k_ring kring);
                     Some (kring\<lparr>k_ring := ring, nr_hwcur := head\<rparr>)
                   } else Some kring);
             Some (0, nm_rxsync_finalize A kring, np)
           }
         })"

section \<open>Interrupts and the adapter\<close>

definition netfront_tx_interrupt :: "netmap_info \<Rightarrow> netmap_info" where
  "netfront_tx_interrupt np =
     (if nf_carrier np
      then wake Tx_irq (np\<lparr>ni_stat := (ni_stat np)\<lparr>host_need_txkick := 1, guest_need_txkick := 0\<rparr>\<rparr>) else np)"

definition netfront_rx_interrupt :: "netmap_info \<Rightarrow> netmap_info" where
  "netfront_rx_interrupt np =
     (if nf_carrier np
      then wake Rx_irq (np\<lparr>ni_stat := (ni_stat np)\<lparr>host_need_rxkick := 1, guest_need_rxkick := 0\<rparr>\<rparr>) else np)"

text \<open>
  \<open>netfront_netmap_reg\<close>: \<open>!(ifp)->flags & IFF_UP\<close> parses as \<open>(!(ifp)->flags) & IFF_UP\<close>; an
  adapter that is null has been read before it is tested. \<open>flags\<close> are those of the
  interface, \<open>IFF_UP\<close> the bit of the kernel.
\<close>

definition c_not :: "u32 \<Rightarrow> u32" where
  "c_not w = (if w = 0 then 1 else 0)"

definition netfront_netmap_reg ::
  "u32 \<Rightarrow> u32 option \<Rightarrow> int \<Rightarrow> netmap_info \<Rightarrow> (int \<times> netmap_info) option" where
  "netfront_netmap_reg IFF_UP na onoff np = do {
     flags \<leftarrow> na;
     if c_not flags AND IFF_UP \<noteq> 0 then Some (EINVAL, np)
     else Some (0, np\<lparr>nf_native := onoff \<noteq> 0, nf_carrier := onoff \<noteq> 0\<rparr>)
   }"

text \<open>The adapter given to \<open>netmap_attach\<close>, which the code builds on the stack.\<close>

record front_adapter =
  na_num_tx_desc :: u32
  na_num_rx_desc :: u32
  na_num_tx_rings :: u32
  na_num_rx_rings :: u32
  na_nm_register :: "u32 option \<Rightarrow> int \<Rightarrow> netmap_info \<Rightarrow> (int \<times> netmap_info) option"
  na_nm_txsync :: "netmap_info \<Rightarrow> kring \<Rightarrow> u32 \<Rightarrow> (int \<times> kring \<times> netmap_info) option"
  na_nm_rxsync :: "netmap_info \<Rightarrow> kring \<Rightarrow> u32 \<Rightarrow> (int \<times> kring \<times> netmap_info) option"

definition netfront_netmap_attach ::
  "netmap_api \<Rightarrow> u32 \<Rightarrow> bool \<Rightarrow> netmap_info \<Rightarrow> (front_adapter \<times> netmap_info) option" where
  "netfront_netmap_attach A IFF_UP attached priv =
     (if attached then None
      else Some (\<lparr>na_num_tx_desc = num_slots (ni_tx_rings priv),
                  na_num_rx_desc = num_slots (ni_rx_rings priv),
                  na_num_tx_rings = 1, na_num_rx_rings = 1,
                  na_nm_register = netfront_netmap_reg IFF_UP,
                  na_nm_txsync = netfront_netmap_txsync A,
                  na_nm_rxsync = netfront_netmap_rxsync A\<rparr>,
                 notify Tx_irq (notify Rx_irq priv)))"

section \<open>Index arithmetic of the front end\<close>

lemma sint_neg_iff: "sint (w :: u32) < 0 \<longleftrightarrow> 2147483648 \<le> unat w"
proof -
  have "sint w < 0 \<longleftrightarrow> bit w 31"
    using bit_last_iff [of w] by simp
  also have "\<dots> \<longleftrightarrow> bit (unat w) 31"
    by (simp add: bit_unsigned_iff)
  also have "\<dots> \<longleftrightarrow> odd (unat w div 2 ^ 31)"
    by (rule bit_iff_odd)
  also have "\<dots> \<longleftrightarrow> 2147483648 \<le> unat w"
  proof -
    have "unat w div 2147483648 < 2" using unat_u32_less [of w] by (simp add: div_less_iff_less_mult)
    then have "unat w div 2147483648 = 0 \<or> unat w div 2147483648 = 1" by linarith
    then show ?thesis by (auto simp: div_eq_0_iff)
  qed
  finally show ?thesis .
qed

lemma NETMAP_RING_NEXT_succ:
  "i < num_slots r \<Longrightarrow> unat (NETMAP_RING_NEXT r i) = ring_succ (unat (num_slots r)) (unat i)"
proof -
  assume "i < num_slots r"
  then have "unat i < unat (num_slots r)" by (simp add: word_less_nat_alt)
  then have "unat (i + 1) = unat i + 1"
    using unat_plus_1 [of i] unat_u32_less [of "num_slots r"] by simp
  then show ?thesis by (simp add: NETMAP_RING_NEXT_def ring_succ_def word_unat_eq_iff)
qed

lemma nm_ring_space_dist:
  assumes "r_cur r < num_slots r" "r_tail r < num_slots r" "num_slots r \<le> 0x80000000"
  shows "unat (nm_ring_space r) = ring_dist (unat (num_slots r)) (unat (r_cur r)) (unat (r_tail r))"
proof -
  let ?c = "r_cur r" and ?t = "r_tail r" and ?n = "num_slots r"
  have lt: "unat ?c < unat ?n" "unat ?t < unat ?n" "unat ?n \<le> 2147483648"
    using assms by (simp_all add: word_less_nat_alt word_le_nat_alt)
  show ?thesis
  proof (cases "?c \<le> ?t")
    case True
    then have d: "unat (?t - ?c) = unat ?t - unat ?c" by (rule unat_sub)
    then have "\<not> sint (?t - ?c) < 0" using lt by (simp add: sint_neg_iff)
    then show ?thesis using True d
      by (simp add: nm_ring_space_def ring_dist_def word_le_nat_alt)
  next
    case False
    then have le: "?t \<le> ?c" by simp
    then have e: "unat (?c - ?t) = unat ?c - unat ?t" by (rule unat_sub)
    have le': "?c - ?t \<le> ?n" using e lt by (simp add: word_le_nat_alt)
    have "unat (?t - ?c) = unat ?t + 4294967296 - unat ?c"
      using False by (simp add: unat_sub_if' word_le_nat_alt)
    then have "sint (?t - ?c) < 0" using lt by (simp add: sint_neg_iff)
    moreover have "unat (?t - ?c + ?n) = unat ?n - (unat ?c - unat ?t)"
      using unat_sub [OF le'] e by (simp add: algebra_simps)
    moreover have "\<not> unat ?c \<le> unat ?t" using False by (simp add: word_le_nat_alt)
    ultimately show ?thesis using lt
      by (simp add: nm_ring_space_def ring_dist_def)
  qed
qed
section \<open>Reception as a queue\<close>

text \<open>The cells of a netmap ring, and those of the ring and buffers shared with the back end.\<close>

definition nm_addr :: "netmap_api \<Rightarrow> nat \<Rightarrow> nslot \<Rightarrow> nat" where
  "nm_addr A i s = NMB A s"

definition sh_addr :: "nat \<Rightarrow> nslot \<Rightarrow> nat" where
  "sh_addr i s = NETFRONT_BUF (of_nat i)"

definition set_flags :: "u16 \<Rightarrow> nslot \<Rightarrow> nslot" where
  "set_flags fl s = s\<lparr>s_flags := fl\<rparr>"

definition rx_cells :: "netmap_info \<Rightarrow> cells" where
  "rx_cells np = (r_slots (ni_rx_rings np), ni_rx_bufs np)"

definition tx_cells :: "netmap_info \<Rightarrow> cells" where
  "tx_cells np = (r_slots (ni_tx_rings np), ni_tx_bufs np)"

definition wf_ring :: "nring \<Rightarrow> bool" where
  "wf_ring r \<longleftrightarrow> unat (num_slots r) = length (r_slots r) \<and> num_slots r \<le> 0x100000
     \<and> r_head r < num_slots r \<and> r_cur r < num_slots r \<and> r_tail r < num_slots r"

text \<open>Every buffer of a netmap ring is a good one, apart from the others.\<close>

definition wf_nm_cells :: "netmap_api \<Rightarrow> cells \<Rightarrow> bool" where
  "wf_nm_cells A c \<longleftrightarrow> cells_apart (nm_addr A) c \<and> lens_ok c
     \<and> (\<forall>i < length (fst c). nm_addr A i (fst c ! i) \<noteq> 0)"

lemma upd_ok_set_flags: "api_ok A \<Longrightarrow> upd_ok (nm_addr A) (set_flags fl)"
proof -
  assume ok: "api_ok A"
  have "NMB A (s\<lparr>s_len := l, s_flags := fl\<rparr>) = NMB A s" for s l by (rule api_NMB [OF ok])
  then show ?thesis by (simp add: upd_ok_def nm_addr_def set_flags_def)
qed

lemma wf_nm_cells_put:
  assumes "api_ok A" "wf_nm_cells A c" "cell_fits p" "cell_put (nm_addr A) (set_flags fl) c i p = Some c'"
  shows "wf_nm_cells A c'"
proof -
  have wf: "wf_cells (nm_addr A) (set_flags fl) c"
    using assms(1,2) upd_ok_set_flags by (simp add: wf_cells_def wf_nm_cells_def)
  have "\<forall>i < length (fst c'). nm_addr A i (fst c' ! i) \<noteq> 0"
    using assms(2) cell_put_addr [OF upd_ok_set_flags [OF assms(1)] assms(4)]
      cell_put_length [OF assms(4)]
    by (simp add: wf_nm_cells_def)
  then show ?thesis
    using cell_put_apart [OF wf assms(4)] cell_put_lens [OF wf _ assms(3,4)] assms(2)
    by (simp add: wf_cells_def wf_nm_cells_def)
qed

lemma wf_nm_cells_wf:
  "api_ok A \<Longrightarrow> wf_nm_cells A c \<Longrightarrow> wf_cells (nm_addr A) (set_flags fl) c \<and> lens_ok c"
  using upd_ok_set_flags by (simp add: wf_cells_def wf_nm_cells_def)

text \<open>The cells of a netmap ring keep their good buffers when packets are stored.\<close>

interpretation rxc: packet_cells "cell_put (nm_addr A) (set_flags fl)" "cell_get (nm_addr A)"
    "\<lambda>c. api_ok A \<and> wf_nm_cells A c" cells_count cell_fits for A fl
proof unfold_locales
  fix c i p assume "api_ok A \<and> wf_nm_cells A c" "i < cells_count c" "cell_fits p"
  then show "\<exists>c'. cell_put (nm_addr A) (set_flags fl) c i p = Some c'"
    using nmc.put_total wf_nm_cells_wf by blast
next
  fix c i p c'
  assume "api_ok A \<and> wf_nm_cells A c" "cell_fits p" "cell_put (nm_addr A) (set_flags fl) c i p = Some c'"
  then show "(api_ok A \<and> wf_nm_cells A c') \<and> cells_count c' = cells_count c"
    using wf_nm_cells_put [of A c p fl i c'] cell_put_length [of "nm_addr A" "set_flags fl" c i p c']
    by (simp add: cells_count_def)
next
  fix c i j p c'
  assume "api_ok A \<and> wf_nm_cells A c" "i < cells_count c" "j < cells_count c" "cell_fits p"
    "cell_put (nm_addr A) (set_flags fl) c i p = Some c'"
  then show "cell_get (nm_addr A) c' j = (if j = i then Some p else cell_get (nm_addr A) c j)"
    using nmc.get_put [of "nm_addr A" "set_flags fl" c i j p c'] wf_nm_cells_wf by blast
qed

text \<open>One round of the import loop stores the next packet of the shared ring.\<close>

lemma rx_import_step:
  assumes A: "api_ok A" and wf: "wf_nm_cells A (r_slots ring, mem)"
    and i: "unat nm_i < length (r_slots ring)" and cur: "unat cur < length (fst (rx_cells np))"
    and sh: "cells_apart sh_addr (rx_cells np)" "lens_ok (rx_cells np)"
    and go: "nm_i \<noteq> stop_i" "host_need_rxkick (ni_stat np) \<noteq> 0" "j \<noteq> 0"
  obtains p ss' mem' where "cell_get sh_addr (rx_cells np) (unat cur) = Some p" "cell_fits p"
    "cell_put (nm_addr A) (set_flags fl) (r_slots ring, mem) (unat nm_i) p = Some (ss', mem')"
    "rx_import A np lim stop_i fl ring mem nm_i n cur j =
       rx_import A np lim stop_i fl (ring\<lparr>r_slots := ss'\<rparr>) mem' (nm_next A nm_i lim) (n + 1 + 1)
         (NETMAP_RING_NEXT (ni_rx_rings np) cur) (j - 1)"
proof -
  obtain p where p: "cell_get sh_addr (rx_cells np) (unat cur) = Some p" "cell_fits p"
    "length p = unat (s_len (fst (rx_cells np) ! unat cur))"
    using cell_get_Some [OF sh cur] by blast
  let ?s = "r_slots ring ! unat nm_i" and ?t = "r_slots (ni_rx_rings np) ! unat cur"
  have rd: "rd_bytes (ni_rx_bufs np) (NETFRONT_BUF cur) (unat (s_len ?t)) = Some p"
    using p(1) cur by (simp add: cell_get_def arr_get_Some rx_cells_def sh_addr_def)
  have wf': "wf_cells (nm_addr A) (set_flags fl) (r_slots ring, mem)" "lens_ok (r_slots ring, mem)"
    using wf upd_ok_set_flags [OF A] by (simp_all add: wf_cells_def wf_nm_cells_def)
  obtain c' where c': "cell_put (nm_addr A) (set_flags fl) (r_slots ring, mem) (unat nm_i) p = Some c'"
    using nmc.put_total [of "nm_addr A" "set_flags fl" "(r_slots ring, mem)" "unat nm_i" p]
      wf' i p(2) by (auto simp: cells_count_def)
  obtain ss' mem' where ss': "c' = (ss', mem')" by (cases c')
  have wr: "wr_bytes mem (NMB A ?s) p = Some mem'"
    and ss: "ss' = (r_slots ring)[unat nm_i := ?s\<lparr>s_len := s_len ?t, s_flags := fl\<rparr>]"
    using c' p(3) by (auto simp: ss' cell_put_conv nm_addr_def set_flags_def rx_cells_def)
  have nz: "NMB A ?s \<noteq> 0" using wf i by (simp add: wf_nm_cells_def nm_addr_def)
  have "rx_import A np lim stop_i fl ring mem nm_i n cur j =
       rx_import A np lim stop_i fl (ring\<lparr>r_slots := ss'\<rparr>) mem' (nm_next A nm_i lim) (n + 1 + 1)
         (NETMAP_RING_NEXT (ni_rx_rings np) cur) (j - 1)"
    using go i cur rd wr nz
    by (subst rx_import.simps) (simp add: arr_get_Some rx_cells_def ss)
  with p(1,2) c' show thesis by (intro that) (simp_all add: ss')
qed

text \<open>
  The packets the import loop reads, and the loop as a filling of consecutive cells of the
  netmap ring by the first \<open>k\<close> of them, where \<open>k\<close> is bounded by the free cells and by the
  packets that are there.
\<close>

definition rx_packets :: "netmap_info \<Rightarrow> nat \<Rightarrow> nat \<Rightarrow> u8 list list" where
  "rx_packets np cur k =
     map (\<lambda>i. the (cell_get sh_addr (rx_cells np) i)) (ring_seq (cells_count (rx_cells np)) cur k)"

lemma length_rx_packets [simp]: "length (rx_packets np cur k) = k"
  by (simp add: rx_packets_def)

lemma rx_packets_fit:
  assumes "cells_apart sh_addr (rx_cells np)" "lens_ok (rx_cells np)" "cur < cells_count (rx_cells np)"
  shows "\<forall>p \<in> set (rx_packets np cur k). cell_fits p"
proof
  fix p assume "p \<in> set (rx_packets np cur k)"
  then obtain i where i: "i \<in> set (ring_seq (cells_count (rx_cells np)) cur k)"
    and p: "p = the (cell_get sh_addr (rx_cells np) i)"
    by (auto simp: rx_packets_def)
  have "i < length (fst (rx_cells np))"
    using ring_seq_less [OF assms(3) i] by (simp add: cells_count_def)
  then show "cell_fits p" using cell_get_Some [OF assms(1,2)] p by fastforce
qed

lemma rx_import_stops:
  assumes "nm_i = stop_i \<or> (unat nm_i < length (r_slots ring)
      \<and> NMB A (r_slots ring ! unat nm_i) \<noteq> 0 \<and> (j = 0 \<or> host_need_rxkick (ni_stat np) = 0))"
  shows "rx_import A np lim stop_i fl ring mem nm_i n cur j = Some (Imported ring mem nm_i n cur)"
  using assms by (subst rx_import.simps) (auto simp: arr_get_Some)

lemma rx_import_fill:
  assumes A: "api_ok A" and sh: "cells_apart sh_addr (rx_cells np)" "lens_ok (rx_cells np)"
    and M: "unat (num_slots (ni_rx_rings np)) = cells_count (rx_cells np)"
    and kick: "host_need_rxkick (ni_stat np) \<noteq> 0"
  shows "wf_nm_cells A (r_slots ring, mem) \<Longrightarrow> unat N = length (r_slots ring) \<Longrightarrow>
     nm_i < N \<Longrightarrow> stop_i < N \<Longrightarrow> cur < num_slots (ni_rx_rings np) \<Longrightarrow>
     k = min (ring_dist (unat N) (unat nm_i) (unat stop_i)) (unat j) \<Longrightarrow>
     \<exists>ss' mem' nm_i' cur'.
       rx_import A np (N - 1) stop_i fl ring mem nm_i n cur j =
         Some (Imported (ring\<lparr>r_slots := ss'\<rparr>) mem' nm_i' (n + 2 * of_nat k) cur')
     \<and> fill (cell_put (nm_addr A) (set_flags fl)) (unat N) (r_slots ring, mem) (unat nm_i)
         (rx_packets np (unat cur) k) = Some (ss', mem')
     \<and> unat nm_i' = ring_add (unat N) (unat nm_i) k \<and> nm_i' < N
     \<and> unat cur' = ring_add (cells_count (rx_cells np)) (unat cur) k
     \<and> cur' < num_slots (ni_rx_rings np)"
proof (induction k arbitrary: ring mem nm_i n cur j)
  case 0
  have i: "unat nm_i < unat N" "unat stop_i < unat N" "unat cur < cells_count (rx_cells np)"
    using 0 M by (simp_all add: word_less_nat_alt)
  have "ring_dist (unat N) (unat nm_i) (unat stop_i) = 0 \<or> unat j = 0" using 0 by (simp add: min_def split: if_splits)
  then have "nm_i = stop_i \<or> j = 0" using i by (simp add: ring_dist_0 word_unat_eq_iff)
  then have "rx_import A np (N - 1) stop_i fl ring mem nm_i n cur j = Some (Imported ring mem nm_i n cur)"
    using 0 i by (intro rx_import_stops) (auto simp: wf_nm_cells_def nm_addr_def)
  then show ?case using 0 i by (intro exI [of _ "r_slots ring"]) (simp add: rx_packets_def)
next
  case (Suc k)
  let ?n = "unat N" and ?m = "cells_count (rx_cells np)"
  have i: "unat nm_i < ?n" "unat stop_i < ?n" "unat cur < ?m"
    using Suc.prems M by (simp_all add: word_less_nat_alt)
  have pos: "ring_dist ?n (unat nm_i) (unat stop_i) \<noteq> 0" "unat j \<noteq> 0"
    using Suc.prems(6) by (simp_all add: min_def split: if_splits)
  then have go: "nm_i \<noteq> stop_i" "j \<noteq> 0" using i by (auto simp: ring_dist_0)
  have il: "unat nm_i < length (r_slots ring)" and cl: "unat cur < length (fst (rx_cells np))"
    using i Suc.prems(2) by (simp_all add: cells_count_def)
  obtain p ss mem1 where p: "cell_get sh_addr (rx_cells np) (unat cur) = Some p" "cell_fits p"
    and put: "cell_put (nm_addr A) (set_flags fl) (r_slots ring, mem) (unat nm_i) p = Some (ss, mem1)"
    and step: "rx_import A np (N - 1) stop_i fl ring mem nm_i n cur j =
       rx_import A np (N - 1) stop_i fl (ring\<lparr>r_slots := ss\<rparr>) mem1 (nm_next A nm_i (N - 1)) (n + 1 + 1)
         (NETMAP_RING_NEXT (ni_rx_rings np) cur) (j - 1)"
    by (rule rx_import_step [OF A Suc.prems(1) il cl sh go(1) kick go(2)])
  let ?i = "nm_next A nm_i (N - 1)" and ?c = "NETMAP_RING_NEXT (ni_rx_rings np) cur"
  have i': "unat ?i = ring_succ ?n (unat nm_i)" by (rule nm_next_succ [OF A Suc.prems(3)])
  have c': "unat ?c = ring_succ ?m (unat cur)"
    using NETMAP_RING_NEXT_succ [OF Suc.prems(5)] M by simp
  have lt: "?i < N" "?c < num_slots (ni_rx_rings np)"
    using i i' c' ring_succ_less [of "unat nm_i" ?n] ring_succ_less [of "unat cur" ?m] M
    by (simp_all add: word_less_nat_alt)
  have j': "unat (j - 1) = unat j - 1" using go by (simp add: unat_minus_one)
  have "ring_dist ?n (unat nm_i) (unat stop_i) = Suc (ring_dist ?n (unat ?i) (unat stop_i))"
    using i go i' ring_dist_step [of "unat nm_i" ?n "unat stop_i"] by (simp add: word_unat_eq_iff)
  then have k: "k = min (ring_dist ?n (unat ?i) (unat stop_i)) (unat (j - 1))"
    using Suc.prems(6) pos j' by linarith
  have "wf_nm_cells A (ss, mem1)" by (rule wf_nm_cells_put [OF A Suc.prems(1) p(2) put])
  then have wf': "wf_nm_cells A (r_slots (ring\<lparr>r_slots := ss\<rparr>), mem1)" by simp
  have len': "?n = length (r_slots (ring\<lparr>r_slots := ss\<rparr>))"
    using cell_put_length [OF put] Suc.prems(2) by simp
  obtain ss' mem' nm_i' cur' where ih:
      "rx_import A np (N - 1) stop_i fl (ring\<lparr>r_slots := ss\<rparr>) mem1 ?i (n + 1 + 1) ?c (j - 1) =
         Some (Imported (ring\<lparr>r_slots := ss\<rparr>\<lparr>r_slots := ss'\<rparr>) mem' nm_i' (n + 1 + 1 + 2 * of_nat k) cur')"
      "fill (cell_put (nm_addr A) (set_flags fl)) ?n (ss, mem1) (unat ?i) (rx_packets np (unat ?c) k)
         = Some (ss', mem')"
      "unat nm_i' = ring_add ?n (unat ?i) k" "nm_i' < N"
      "unat cur' = ring_add ?m (unat ?c) k" "cur' < num_slots (ni_rx_rings np)"
    using Suc.IH [OF wf' len' lt(1) Suc.prems(4) lt(2) k, of "n + 1 + 1"] by auto
  have pk: "rx_packets np (unat cur) (Suc k) = p # rx_packets np (unat ?c) k"
    using i p c' by (simp add: rx_packets_def ring_seq_Suc)
  have cnt: "n + 1 + 1 + 2 * of_nat k = n + 2 * of_nat (Suc k)" by simp
  show ?case
    using ih put i unfolding step pk cnt
    by (intro exI [of _ ss'] exI [of _ mem'] exI [of _ nm_i'] exI [of _ cur'])
       (simp add: i' c' ring_add_Suc)
qed

lemma rx_release_done: "rx_release A lim head head ring = Some ring"
  by (subst rx_release.simps) simp

text \<open>The release of slots clears one flag of each released slot and changes nothing else.\<close>

definition clear_changed :: "netmap_api \<Rightarrow> nslot \<Rightarrow> nslot" where
  "clear_changed A s = s\<lparr>s_flags := s_flags s AND NOT (NS_BUF_CHANGED A)\<rparr>"

lemma rx_release_slots:
  assumes A: "api_ok A"
  shows "unat N = length (r_slots ring) \<Longrightarrow> nm_i < N \<Longrightarrow> head < N \<Longrightarrow>
    \<exists>ss. rx_release A (N - 1) head nm_i ring = Some (ring\<lparr>r_slots := ss\<rparr>)
      \<and> length ss = length (r_slots ring)
      \<and> (\<forall>i < length ss. ss ! i =
           (if i \<in> set (ring_seq (unat N) (unat nm_i) (ring_dist (unat N) (unat nm_i) (unat head)))
            then clear_changed A (r_slots ring ! i) else r_slots ring ! i))"
proof (induction "ring_dist (unat N) (unat nm_i) (unat head)" arbitrary: ring nm_i)
  case 0
  have "unat nm_i < unat N" "unat head < unat N" using 0 by (simp_all add: word_less_nat_alt)
  then have "nm_i = head" using 0(1) by (simp add: ring_dist_0 word_unat_eq_iff)
  then show ?case by (intro exI [of _ "r_slots ring"]) (simp add: rx_release.simps)
next
  case (Suc k)
  let ?n = "unat N" and ?i = "nm_next A nm_i (N - 1)"
  have i: "unat nm_i < ?n" "unat head < ?n" using Suc.prems by (simp_all add: word_less_nat_alt)
  have ne: "nm_i \<noteq> head" using Suc.hyps(2) i by (auto simp: ring_dist_0)
  have i': "unat ?i = ring_succ ?n (unat nm_i)" by (rule nm_next_succ [OF A Suc.prems(2)])
  have lt: "?i < N" using i i' ring_succ_less [of "unat nm_i" ?n] by (simp add: word_less_nat_alt)
  have "ring_dist ?n (unat nm_i) (unat head) = Suc (ring_dist ?n (unat ?i) (unat head))"
    using i ne i' ring_dist_step [of "unat nm_i" ?n "unat head"] by (simp add: word_unat_eq_iff)
  then have k: "k = ring_dist ?n (unat ?i) (unat head)" using Suc.hyps(2) by simp
  let ?ring = "ring\<lparr>r_slots := (r_slots ring)[unat nm_i := clear_changed A (r_slots ring ! unat nm_i)]\<rparr>"
  have step: "rx_release A (N - 1) head nm_i ring = rx_release A (N - 1) head ?i ?ring"
    using ne i Suc.prems(1)
    by (subst rx_release.simps) (simp add: arr_get_Some clear_changed_def)
  have len: "?n = length (r_slots ?ring)" using Suc.prems(1) by simp
  obtain ss where ss: "rx_release A (N - 1) head ?i ?ring = Some (?ring\<lparr>r_slots := ss\<rparr>)"
      "length ss = length (r_slots ?ring)"
      "\<forall>x < length ss. ss ! x = (if x \<in> set (ring_seq ?n (unat ?i) (ring_dist ?n (unat ?i) (unat head)))
         then clear_changed A (r_slots ?ring ! x) else r_slots ?ring ! x)"
    using Suc.hyps(1) [OF k len lt Suc.prems(3)] by blast
  have nin: "unat nm_i \<notin> set (ring_seq ?n (ring_succ ?n (unat nm_i)) k)"
    using i ring_dist_less [OF i] Suc.hyps(2) by (intro ring_seq_head_notin) simp_all
  have ss3: "\<forall>x < length ss. ss ! x = (if x \<in> set (ring_seq ?n (ring_succ ?n (unat nm_i)) k)
         then clear_changed A (r_slots ?ring ! x) else r_slots ?ring ! x)"
    using ss(3) by (simp only: k i')
  have "\<forall>x < length ss. ss ! x = (if x \<in> set (ring_seq ?n (unat nm_i) (Suc k))
         then clear_changed A (r_slots ring ! x) else r_slots ring ! x)"
    using ss(2) ss3 nin i Suc.prems(1) by (auto simp: ring_seq_Suc nth_list_update)
  then show ?case using ss(1,2) Suc.hyps(2) unfolding step
    by (intro exI [of _ ss]) simp
qed

text \<open>
  The packets a netmap ring holds for its user, from the kernel's cursor to its tail, and
  those the shared ring holds for the front end, from the cursor to the tail.
\<close>

definition received :: "netmap_api \<Rightarrow> kring \<Rightarrow> u8 list \<Rightarrow> u8 list option list" where
  "received A k mem =
     (let n = length (r_slots (k_ring k))
      in map (cell_get (nm_addr A) (r_slots (k_ring k), mem))
           (ring_seq n (unat (nr_hwcur k)) (ring_dist n (unat (nr_hwcur k)) (unat (nr_hwtail k)))))"

definition pending :: "netmap_info \<Rightarrow> u8 list option list" where
  "pending np =
     (let r = ni_rx_rings np; n = length (r_slots r)
      in map (cell_get sh_addr (rx_cells np))
           (ring_seq n (unat (r_cur r)) (ring_dist n (unat (r_cur r)) (unat (r_tail r)))))"

definition wf_rx :: "netmap_api \<Rightarrow> netmap_info \<Rightarrow> kring \<Rightarrow> bool" where
  "wf_rx A np k \<longleftrightarrow>
     unat (nkr_num_slots k) = length (r_slots (k_ring k))
   \<and> nr_hwcur k < nkr_num_slots k \<and> nr_hwtail k < nkr_num_slots k
   \<and> wf_nm_cells A (r_slots (k_ring k), nf_mem np)
   \<and> wf_ring (ni_rx_rings np) \<and> cells_apart sh_addr (rx_cells np) \<and> lens_ok (rx_cells np)"

text \<open>How many packets one call takes: those that are there, as far as there is room.\<close>

definition rx_quota :: "netmap_info \<Rightarrow> kring \<Rightarrow> nat" where
  "rx_quota np k =
     (let n = length (r_slots (k_ring k)); r = ni_rx_rings np; m = length (r_slots r)
      in min (n - 1 - ring_dist n (unat (nr_hwcur k)) (unat (nr_hwtail k)))
             (ring_dist m (unat (r_cur r)) (unat (r_tail r))))"

lemma wf_ring_space:
  assumes "wf_ring r"
  shows "unat (nm_ring_space r) = ring_dist (length (r_slots r)) (unat (r_cur r)) (unat (r_tail r))"
proof -
  have "num_slots r \<le> 0x80000000"
    using assms by (auto simp: wf_ring_def word_le_nat_alt)
  then show ?thesis using assms nm_ring_space_dist [of r] by (simp add: wf_ring_def)
qed

lemma rx_count_nonzero:
  assumes "q < 0x100000"
  shows "(2 * of_nat q :: u32) = 0 \<longleftrightarrow> q = 0"
proof -
  have "2 * q < 2 ^ LENGTH(32)" using assms by simp
  then have "unat (of_nat (2 * q) :: u32) = 2 * q" by (simp only: unat_of_nat mod_less)
  then have "(of_nat (2 * q) :: u32) = 0 \<longleftrightarrow> 2 * q = 0" by (simp only: word_unat_eq_iff unat_0)
  then show ?thesis by simp
qed

lemma rx_first_part_fill:
  assumes A: "api_ok A" and wf: "wf_rx A np k" and kick: "host_need_rxkick (ni_stat np) \<noteq> 0"
  obtains k' np' where "rx_first_part A np k = Some (True, k', np')"
    "nkr_num_slots k' = nkr_num_slots k" "nr_hwcur k' = nr_hwcur k" "nr_hwtail k' < nkr_num_slots k"
    "unat (nr_hwtail k') = ring_add (length (r_slots (k_ring k))) (unat (nr_hwtail k)) (rx_quota np k)"
    "fill (cell_put (nm_addr A) (set_flags (nkr_slot_flags k))) (length (r_slots (k_ring k)))
       (r_slots (k_ring k), nf_mem np) (unat (nr_hwtail k)) (rx_packets np (unat (r_cur (ni_rx_rings np))) (rx_quota np k))
       = Some (r_slots (k_ring k'), nf_mem np')"
    "rx_cells np' = rx_cells np" "wf_ring (ni_rx_rings np')"
    "r_tail (ni_rx_rings np') = r_tail (ni_rx_rings np)"
    "unat (r_cur (ni_rx_rings np')) =
       ring_add (length (r_slots (ni_rx_rings np))) (unat (r_cur (ni_rx_rings np))) (rx_quota np k)"
    "host_need_rxkick (ni_stat np') = 0" "nf_events np' = nf_events np @ [Notify Rx_irq]"
proof -
  let ?n = "length (r_slots (k_ring k))" and ?N = "nkr_num_slots k" and ?q = "rx_quota np k"
  let ?nfr = "ni_rx_rings np" and ?stop = "nm_prev A (nr_hwcur k) (nkr_num_slots k - 1)"
  let ?fill = "fill (cell_put (nm_addr A) (set_flags (nkr_slot_flags k)))"
  have N: "unat ?N = ?n" "nr_hwtail k < ?N" "nr_hwcur k < ?N" "r_cur ?nfr < num_slots ?nfr"
    and wr: "wf_ring ?nfr" and wc: "wf_nm_cells A (r_slots (k_ring k), nf_mem np)"
    and sh: "cells_apart sh_addr (rx_cells np)" "lens_ok (rx_cells np)"
    using wf by (simp_all add: wf_rx_def wf_ring_def)
  have M: "unat (num_slots ?nfr) = cells_count (rx_cells np)"
    using wr by (simp add: wf_ring_def cells_count_def rx_cells_def)
  have lt: "unat (nr_hwtail k) < ?n" "unat (nr_hwcur k) < ?n"
    "unat (r_cur ?nfr) < length (r_slots ?nfr)" "unat (r_tail ?nfr) < length (r_slots ?nfr)"
    using N wr by (auto simp: word_less_nat_alt wf_ring_def)
  have stop: "unat ?stop = ring_add ?n (unat (nr_hwcur k)) (?n - 1)"
    using nm_prev_pred [OF A N(3)] N(1) by simp
  have stopN: "?stop < ?N" using stop N(1) ring_add_lt [OF lt(2)] by (simp add: word_less_nat_alt)
  have q: "?q = min (ring_dist (unat ?N) (unat (nr_hwtail k)) (unat ?stop)) (unat (nm_ring_space ?nfr))"
    using wf_ring_space [OF wr] ring_dist_pred [OF lt(2,1)] unfolding stop N(1)
    by (simp only: rx_quota_def Let_def)
  obtain ss mem i c where imp: "rx_import A np (?N - 1) ?stop (nkr_slot_flags k) (k_ring k) (nf_mem np)
        (nr_hwtail k) 0 (r_cur ?nfr) (nm_ring_space ?nfr) =
         Some (Imported (k_ring k\<lparr>r_slots := ss\<rparr>) mem i (0 + 2 * of_nat ?q) c)"
    and f: "?fill (unat ?N) (r_slots (k_ring k), nf_mem np) (unat (nr_hwtail k))
         (rx_packets np (unat (r_cur ?nfr)) ?q) = Some (ss, mem)"
    and i: "unat i = ring_add (unat ?N) (unat (nr_hwtail k)) ?q" "i < ?N"
    and c: "unat c = ring_add (cells_count (rx_cells np)) (unat (r_cur ?nfr)) ?q" "c < num_slots ?nfr"
    using rx_import_fill [OF A sh M kick wc N(1) N(2) stopN N(4) q] by blast
  have ql: "?q < 0x100000"
    using ring_dist_less [OF lt(3,4)] wr
    by (auto simp: rx_quota_def wf_ring_def word_le_nat_alt Let_def)
  have z: "(2 * of_nat ?q :: u32) = 0 \<longleftrightarrow> ?q = 0" by (rule rx_count_nonzero [OF ql])
  let ?k' = "(if ?q \<noteq> 0 then k\<lparr>k_ring := k_ring k\<lparr>r_slots := ss\<rparr>, nr_hwtail := i\<rparr>
     else k\<lparr>k_ring := k_ring k\<lparr>r_slots := ss\<rparr>\<rparr>)\<lparr>nr_kflags := nr_kflags k AND NOT (NKR_PENDINTR A)\<rparr>"
  let ?np' = "notify Rx_irq ((if ?q \<noteq> 0 then np\<lparr>nf_mem := mem, ni_rx_rings := ?nfr\<lparr>r_head := c, r_cur := c\<rparr>\<rparr>
     else np\<lparr>nf_mem := mem\<rparr>)\<lparr>ni_stat := (ni_stat np)\<lparr>host_need_rxkick := 0\<rparr>\<rparr>)"
  have res: "rx_first_part A np k = Some (True, ?k', ?np')"
    using imp kick z by (simp add: rx_first_part_def Let_def)
  show thesis
    by (rule that [OF res])
       (use f i c N lt wr M in \<open>auto simp: rx_cells_def notify_def wf_ring_def cells_count_def\<close>)
qed

lemma NMB_clear: "api_ok A \<Longrightarrow> NMB A (clear_changed A s) = NMB A s"
  using api_NMB [where A = A and s = s and l = "s_len s"] by (simp add: clear_changed_def)

lemma cell_get_clear:
  assumes A: "api_ok A" and len: "length ss' = length ss" "i < length ss"
    and slot: "ss' ! i = ss ! i \<or> ss' ! i = clear_changed A (ss ! i)"
  shows "cell_get (nm_addr A) (ss', mem) i = cell_get (nm_addr A) (ss, mem) i"
proof -
  have "NMB A (clear_changed A s) = NMB A s" for s by (rule NMB_clear [OF A])
  moreover have "s_len (clear_changed A s) = s_len s" for s by (simp add: clear_changed_def)
  ultimately show ?thesis using len slot by (auto simp: cell_get_def arr_get_Some nm_addr_def)
qed

lemma wf_nm_cells_clear:
  assumes A: "api_ok A" and wf: "wf_nm_cells A (ss, mem)" and len: "length ss' = length ss"
    and slots: "\<forall>i < length ss. ss' ! i = ss ! i \<or> ss' ! i = clear_changed A (ss ! i)"
  shows "wf_nm_cells A (ss', mem)"
proof -
  have "NMB A (clear_changed A s) = NMB A s" for s by (rule NMB_clear [OF A])
  then have N: "i < length ss \<Longrightarrow> nm_addr A i (ss' ! i) = nm_addr A i (ss ! i)" for i
    using slots by (auto simp: nm_addr_def)
  have "s_len (clear_changed A s) = s_len s" for s by (simp add: clear_changed_def)
  then have "i < length ss \<Longrightarrow> s_len (ss' ! i) = s_len (ss ! i)" for i
    using slots by fastforce
  then have "lens_ok (ss', mem)"
    using wf len by (simp add: wf_nm_cells_def lens_ok_def all_set_conv_all_nth)
  then show ?thesis
    using wf len by (simp add: wf_nm_cells_def cells_apart_def N)
qed

lemma map_ring_seq_cong:
  "i < n \<Longrightarrow> (\<And>x. x < n \<Longrightarrow> f x = g x) \<Longrightarrow> map f (ring_seq n i k) = map g (ring_seq n i k)"
  by (rule map_cong [OF refl]) (auto dest: ring_seq_less)

lemma kring_same_received: "kring_same k k' \<Longrightarrow> received A k' mem = received A k mem"
  by (simp add: kring_same_def received_def)

lemma kring_same_wf_rx: "kring_same k k' \<Longrightarrow> wf_rx A np k' \<longleftrightarrow> wf_rx A np k"
  by (simp add: kring_same_def wf_rx_def)

lemma kring_same_quota: "kring_same k k' \<Longrightarrow> rx_quota np k' = rx_quota np k"
  by (simp add: kring_same_def rx_quota_def)

text \<open>The first part of the sync appends the next packets to what the user can see.\<close>

lemma rx_first_part_queue:
  assumes A: "api_ok A" and wf: "wf_rx A np k" and kick: "host_need_rxkick (ni_stat np) \<noteq> 0"
  obtains k' np' where "rx_first_part A np k = Some (True, k', np')" "wf_rx A np' k'"
    "nkr_num_slots k' = nkr_num_slots k" "nr_hwcur k' = nr_hwcur k"
    "received A k' (nf_mem np') = received A k (nf_mem np) @ take (rx_quota np k) (pending np)"
    "ring_dist (length (r_slots (k_ring k'))) (unat (nr_hwcur k')) (unat (nr_hwtail k'))
       = ring_dist (length (r_slots (k_ring k))) (unat (nr_hwcur k)) (unat (nr_hwtail k)) + rx_quota np k"
    "pending np' = drop (rx_quota np k) (pending np)"
    "host_need_rxkick (ni_stat np') = 0" "nf_events np' = nf_events np @ [Notify Rx_irq]"
proof -
  let ?n = "length (r_slots (k_ring k))" and ?q = "rx_quota np k" and ?nfr = "ni_rx_rings np"
  let ?m = "length (r_slots (ni_rx_rings np))"
  let ?hw = "unat (nr_hwcur k)" and ?d = "ring_dist (length (r_slots (k_ring k))) (unat (nr_hwcur k)) (unat (nr_hwtail k))"
  let ?c = "unat (r_cur (ni_rx_rings np))" and ?t = "unat (r_tail (ni_rx_rings np))"
  obtain k' np' where r: "rx_first_part A np k = Some (True, k', np')"
    "nkr_num_slots k' = nkr_num_slots k" "nr_hwcur k' = nr_hwcur k" "nr_hwtail k' < nkr_num_slots k"
    "unat (nr_hwtail k') = ring_add ?n (unat (nr_hwtail k)) ?q"
    and f: "fill (cell_put (nm_addr A) (set_flags (nkr_slot_flags k))) ?n
       (r_slots (k_ring k), nf_mem np) (unat (nr_hwtail k)) (rx_packets np ?c ?q)
       = Some (r_slots (k_ring k'), nf_mem np')"
    and x: "rx_cells np' = rx_cells np" "wf_ring (ni_rx_rings np')"
    "r_tail (ni_rx_rings np') = r_tail (ni_rx_rings np)"
    "unat (r_cur (ni_rx_rings np')) = ring_add ?m ?c ?q"
    "host_need_rxkick (ni_stat np') = 0" "nf_events np' = nf_events np @ [Notify Rx_irq]"
    by (rule rx_first_part_fill [OF A wf kick])
  have N: "unat (nkr_num_slots k) = ?n" and wc: "wf_nm_cells A (r_slots (k_ring k), nf_mem np)"
    and wr: "wf_ring ?nfr" and sh: "cells_apart sh_addr (rx_cells np)" "lens_ok (rx_cells np)"
    using wf by (simp_all add: wf_rx_def)
  have lt: "?hw < ?n" "unat (nr_hwtail k) < ?n" "?c < ?m" "?t < ?m"
    using wf wr by (auto simp: wf_rx_def word_less_nat_alt wf_ring_def)
  have q: "?q \<le> ?n - 1 - ?d" "?q \<le> ring_dist ?m ?c ?t"
    by (simp_all add: rx_quota_def Let_def)
  have d: "?d < ?n" by (rule ring_dist_less [OF lt(1,2)])
  have tl: "ring_add ?n ?hw ?d = unat (nr_hwtail k)" by (rule ring_add_dist [OF lt(1,2)])
  have pk: "\<forall>p \<in> set (rx_packets np ?c ?q). cell_fits p"
    using rx_packets_fit [OF sh, of ?c ?q] lt by (simp add: cells_count_def rx_cells_def)
  have W: "api_ok A \<and> wf_nm_cells A (r_slots (k_ring k), nf_mem np)"
    "cells_count (r_slots (k_ring k), nf_mem np) = ?n"
    using wc A by (simp_all add: cells_count_def)
  have "map (cell_get (nm_addr A) (r_slots (k_ring k'), nf_mem np')) (ring_seq ?n ?hw (?d + ?q))
      = map (cell_get (nm_addr A) (r_slots (k_ring k), nf_mem np)) (ring_seq ?n ?hw ?d)
        @ map Some (rx_packets np ?c ?q)"
    using rxc.fill_append [OF W lt(1) pk, of ?d] f q d by (simp add: tl)
  moreover have len': "length (r_slots (k_ring k')) = ?n"
    and wc': "wf_nm_cells A (r_slots (k_ring k'), nf_mem np')"
    using rxc.fill_total [OF W lt(2) pk, of "nkr_slot_flags k"] f by (auto simp: cells_count_def)
  moreover have dist': "ring_dist ?n ?hw (unat (nr_hwtail k')) = ?d + ?q"
    using ring_dist_trans [OF lt(1,2)] q d by (simp add: r(5))
  moreover have "map Some (rx_packets np ?c ?q) = take ?q (pending np)"
  proof -
    have s: "map Some (rx_packets np ?c ?q) = map (cell_get sh_addr (rx_cells np)) (ring_seq ?m ?c ?q)"
    proof -
      have "i < ?m \<Longrightarrow> Some (the (cell_get sh_addr (rx_cells np) i)) = cell_get sh_addr (rx_cells np) i" for i
        using cell_get_Some [OF sh, of i] by (auto simp: rx_cells_def)
      then show ?thesis using lt(3)
        by (auto simp: rx_packets_def cells_count_def rx_cells_def dest!: ring_seq_less [rotated])
    qed
    obtain l where "ring_dist ?m ?c ?t = ?q + l" using q(2) le_Suc_ex by blast
    then show ?thesis by (simp add: s pending_def take_map take_ring_seq Let_def)
  qed
  ultimately have rec: "received A k' (nf_mem np') = received A k (nf_mem np) @ take ?q (pending np)"
    by (simp add: received_def r(3) Let_def)
  have pend: "pending np' = drop ?q (pending np)"
  proof -
    have m': "r_slots (ni_rx_rings np') = r_slots ?nfr" using x(1) by (simp add: rx_cells_def)
    obtain l where l: "ring_dist ?m ?c ?t = ?q + l" using q(2) le_Suc_ex by blast
    then have "ring_dist ?m (ring_add ?m ?c ?q) ?t = l"
      using ring_dist_advance [OF lt(3,4) q(2)] by simp
    then show ?thesis by (simp add: pending_def m' x(1,3,4) l drop_map drop_ring_seq Let_def)
  qed
  have "wf_rx A np' k'"
    using wf wc' r(2-4) len' x sh by (simp add: wf_rx_def)
  then show thesis using that [OF r(1) _ r(2,3) rec _ pend x(5,6)] dist' len' r(3) by simp
qed

text \<open>The second part drops the released packets from the front of what the user holds.\<close>

lemma rx_release_queue:
  assumes A: "api_ok A" and wf: "wf_rx A np k" and head: "head < nkr_num_slots k"
    and le: "ring_dist (length (r_slots (k_ring k))) (unat (nr_hwcur k)) (unat head)
        \<le> ring_dist (length (r_slots (k_ring k))) (unat (nr_hwcur k)) (unat (nr_hwtail k))"
  obtains ring where
    "rx_release A (nkr_num_slots k - 1) head (nr_hwcur k) (k_ring k) = Some ring"
    "wf_rx A np (k\<lparr>k_ring := ring, nr_hwcur := head\<rparr>)"
    "received A (k\<lparr>k_ring := ring, nr_hwcur := head\<rparr>) (nf_mem np) =
       drop (ring_dist (length (r_slots (k_ring k))) (unat (nr_hwcur k)) (unat head))
         (received A k (nf_mem np))"
proof -
  let ?n = "length (r_slots (k_ring k))" and ?hw = "unat (nr_hwcur k)" and ?t = "unat (nr_hwtail k)"
  have N: "unat (nkr_num_slots k) = ?n" "nr_hwcur k < nkr_num_slots k"
    and wc: "wf_nm_cells A (r_slots (k_ring k), nf_mem np)" using wf by (simp_all add: wf_rx_def)
  have lt: "?hw < ?n" "?t < ?n" "unat head < ?n"
    using wf head by (auto simp: wf_rx_def word_less_nat_alt)
  obtain ss where ss: "rx_release A (nkr_num_slots k - 1) head (nr_hwcur k) (k_ring k)
        = Some (k_ring k\<lparr>r_slots := ss\<rparr>)" "length ss = ?n"
      "\<forall>i < ?n. ss ! i = r_slots (k_ring k) ! i \<or> ss ! i = clear_changed A (r_slots (k_ring k) ! i)"
    using rx_release_slots [OF A N(1,2) head] by (metis (no_types))
  have wc': "wf_nm_cells A (ss, nf_mem np)" by (rule wf_nm_cells_clear [OF A wc ss(2,3)])
  have cell: "cell_get (nm_addr A) (ss, nf_mem np) i = cell_get (nm_addr A) (r_slots (k_ring k), nf_mem np) i"
    if "i < ?n" for i
    using cell_get_clear [OF A ss(2) that] ss(3) that by blast
  obtain l where l: "ring_dist ?n ?hw ?t = ring_dist ?n ?hw (unat head) + l"
    using le le_Suc_ex by blast
  then have l': "ring_dist ?n (unat head) ?t = l"
    using ring_dist_advance [OF lt(1,2) le] ring_add_dist [OF lt(1,3)] by simp
  have d: "drop (ring_dist ?n ?hw (unat head)) (ring_seq ?n ?hw (ring_dist ?n ?hw ?t))
      = ring_seq ?n (unat head) l"
    using ring_add_dist [OF lt(1,3)] by (simp add: l drop_ring_seq)
  have "received A (k\<lparr>k_ring := k_ring k\<lparr>r_slots := ss\<rparr>, nr_hwcur := head\<rparr>) (nf_mem np) =
       map (cell_get (nm_addr A) (r_slots (k_ring k), nf_mem np)) (ring_seq ?n (unat head) l)"
    using ss(2) l' cell by (auto simp: received_def Let_def dest!: ring_seq_less [OF lt(3)])
  then have "received A (k\<lparr>k_ring := k_ring k\<lparr>r_slots := ss\<rparr>, nr_hwcur := head\<rparr>) (nf_mem np) =
       drop (ring_dist ?n ?hw (unat head)) (received A k (nf_mem np))"
    by (simp add: received_def Let_def drop_map d)
  then show thesis using that [OF ss(1)] wf wc' ss(2) head by (simp add: wf_rx_def)
qed

lemma rxsync_transfer:
  assumes "api_ok A" "wf_rx A np k" "host_need_rxkick (ni_stat np) \<noteq> 0"
    and "fst (nm_rxsync_prologue A k) = head" "head < nkr_num_slots k"
    and "ring_dist (length (r_slots (k_ring k))) (unat (nr_hwcur k)) (unat head)
        \<le> ring_dist (length (r_slots (k_ring k))) (unat (nr_hwcur k)) (unat (nr_hwtail k))"
    and "netmap_no_pendintr A \<or> flags AND NAF_FORCE_READ A \<noteq> 0 \<or> nr_kflags k AND NKR_PENDINTR A \<noteq> 0"
  shows "\<exists>k' np'. netfront_netmap_rxsync A np k flags = Some (0, k', np')
     \<and> received A k' (nf_mem np') =
         drop (ring_dist (length (r_slots (k_ring k))) (unat (nr_hwcur k)) (unat head))
           (received A k (nf_mem np) @ take (rx_quota np k) (pending np))
     \<and> pending np' = drop (rx_quota np k) (pending np)
     \<and> nr_hwcur k' = head \<and> wf_rx A np' k'
     \<and> host_need_rxkick (ni_stat np') = 0 \<and> nf_events np' = nf_events np @ [Notify Rx_irq]"
proof -
  obtain k0 where pro: "nm_rxsync_prologue A k = (head, k0)" using assms(4) by (metis surj_pair fst_conv)
  have same0: "kring_same k k0" using api_prologue [OF assms(1), of k] pro by simp
  note k0 = kring_same_received [OF same0] kring_same_wf_rx [OF same0] kring_same_quota [OF same0]
  have f0: "nkr_num_slots k0 = nkr_num_slots k" "nr_hwcur k0 = nr_hwcur k" "nr_hwtail k0 = nr_hwtail k"
    "nr_kflags k0 = nr_kflags k" "r_slots (k_ring k0) = r_slots (k_ring k)"
    using same0 by (simp_all add: kring_same_def)
  obtain k1 np' where r1: "rx_first_part A np k0 = Some (True, k1, np')" "wf_rx A np' k1"
    "nkr_num_slots k1 = nkr_num_slots k0" "nr_hwcur k1 = nr_hwcur k0"
    and q1: "received A k1 (nf_mem np') = received A k0 (nf_mem np) @ take (rx_quota np k0) (pending np)"
    "ring_dist (length (r_slots (k_ring k1))) (unat (nr_hwcur k1)) (unat (nr_hwtail k1))
       = ring_dist (length (r_slots (k_ring k0))) (unat (nr_hwcur k0)) (unat (nr_hwtail k0)) + rx_quota np k0"
    and x1: "pending np' = drop (rx_quota np k0) (pending np)"
    "host_need_rxkick (ni_stat np') = 0" "nf_events np' = nf_events np @ [Notify Rx_irq]"
    using rx_first_part_queue [OF assms(1) _ assms(3), of k0] assms(2) k0(2) by blast
  have n1: "length (r_slots (k_ring k1)) = length (r_slots (k_ring k))"
    using r1(2,3) assms(2) f0 by (simp add: wf_rx_def)
  have le1: "ring_dist (length (r_slots (k_ring k1))) (unat (nr_hwcur k1)) (unat head)
      \<le> ring_dist (length (r_slots (k_ring k1))) (unat (nr_hwcur k1)) (unat (nr_hwtail k1))"
    using q1(2) assms(6) n1 r1(4) f0 by simp
  have head1: "head < nkr_num_slots k1" using assms(5) r1(3) f0 by simp
  obtain ring where r2: "rx_release A (nkr_num_slots k1 - 1) head (nr_hwcur k1) (k_ring k1) = Some ring"
    "wf_rx A np' (k1\<lparr>k_ring := ring, nr_hwcur := head\<rparr>)"
    "received A (k1\<lparr>k_ring := ring, nr_hwcur := head\<rparr>) (nf_mem np') =
       drop (ring_dist (length (r_slots (k_ring k1))) (unat (nr_hwcur k1)) (unat head))
         (received A k1 (nf_mem np'))"
    by (rule rx_release_queue [OF assms(1) r1(2) head1 le1])
  define k2 where "k2 = k1\<lparr>k_ring := ring, nr_hwcur := head\<rparr>"
  have second: "(if nr_hwcur k1 \<noteq> head then do {
                     ring \<leftarrow> rx_release A (nkr_num_slots k - 1) head (nr_hwcur k1) (k_ring k1);
                     Some (k1\<lparr>k_ring := ring, nr_hwcur := head\<rparr>)
                   } else Some k1) = Some k2"
  proof (cases "nr_hwcur k1 = head")
    case True
    then have "ring = k_ring k1" using r2(1) by (simp add: rx_release_done)
    then show ?thesis using True by (auto simp: k2_def)
  next
    case False
    then show ?thesis using r2(1) r1(3) f0(1) by (simp add: k2_def)
  qed
  have "\<not> nkr_num_slots k - 1 < head" using less_le_lim [OF assms(5)] by simp
  then have res: "netfront_netmap_rxsync A np k flags = Some (0, nm_rxsync_finalize A k2, np')"
    using assms(7) pro r1(1) second f0(1,4) unfolding netfront_netmap_rxsync_def
    by (auto simp: Let_def)
  have same2: "kring_same k2 (nm_rxsync_finalize A k2)" by (rule api_rx_finalize [OF assms(1)])
  show ?thesis
    using res r2(2,3) q1(1) x1 k0 n1 r1(4) f0 kring_same_received [OF same2] kring_same_wf_rx [OF same2] same2
    by (auto simp: k2_def kring_same_def)
qed

text \<open>C6: One receive sync is a transfer between two queues: what the shared ring holds is
  appended, in order and byte for byte, to the packets of the netmap ring, as far as there
  is room; the packets that the user has released leave the front of the queue; the kick of
  the back end is consumed and answered by one notification.\<close>
theorem rxsync_queue:
  assumes "api_ok A" "wf_rx A np k" "host_need_rxkick (ni_stat np) \<noteq> 0"
    and "fst (nm_rxsync_prologue A k) = head" "head < nkr_num_slots k"
    and "ring_dist (length (r_slots (k_ring k))) (unat (nr_hwcur k)) (unat head)
        \<le> ring_dist (length (r_slots (k_ring k))) (unat (nr_hwcur k)) (unat (nr_hwtail k))"
    and "netmap_no_pendintr A \<or> flags AND NAF_FORCE_READ A \<noteq> 0 \<or> nr_kflags k AND NKR_PENDINTR A \<noteq> 0"
  shows "\<exists>k' np'. netfront_netmap_rxsync A np k flags = Some (0, k', np')
     \<and> received A k' (nf_mem np') =
         drop (ring_dist (length (r_slots (k_ring k))) (unat (nr_hwcur k)) (unat head))
           (received A k (nf_mem np) @ take (rx_quota np k) (pending np))
     \<and> pending np' = drop (rx_quota np k) (pending np)
     \<and> nr_hwcur k' = head \<and> wf_rx A np' k'
     \<and> host_need_rxkick (ni_stat np') = 0 \<and> nf_events np' = nf_events np @ [Notify Rx_irq]"
  by (rule rxsync_transfer [OF assms])

text \<open>A netmap ring of three empty slots, and a shared ring with one packet of two bytes.\<close>

definition sample_slot :: "u32 \<Rightarrow> u16 \<Rightarrow> nslot" where
  "sample_slot idx len = \<lparr>s_buf_idx = idx, s_len = len, s_flags = 0, s_ptr = 0\<rparr>"

definition sample_kring :: kring where
  "sample_kring = \<lparr>nkr_num_slots = 3, nr_hwcur = 0, nr_hwtail = 0, nr_rhead = 0, nr_kflags = 0,
     nr_busy = False, nkr_slot_flags = 0,
     k_ring = \<lparr>num_slots = 3, r_head = 0, r_cur = 0, r_tail = 0,
       r_slots = [sample_slot 1 0, sample_slot 2 0, sample_slot 3 0]\<rparr>\<rparr>"

definition sample_shared :: "u32 \<Rightarrow> u32 \<Rightarrow> nring" where
  "sample_shared cur tail = \<lparr>num_slots = 3, r_head = cur, r_cur = cur, r_tail = tail,
     r_slots = [sample_slot 4 2, sample_slot 5 0, sample_slot 6 0]\<rparr>"

definition sample_csb :: netfront_csb where
  "sample_csb = \<lparr>txcur = 0, txhead = 0, guest_need_txkick = 0, guest_need_rxkick = 0,
     host_need_rxkick = 1, host_need_txkick = 1\<rparr>"

definition sample_info :: netmap_info where
  "sample_info = \<lparr>ni_tx_rings = sample_shared 0 2, ni_rx_rings = sample_shared 0 1, ni_stat = sample_csb,
     ni_tx_bufs = replicate 6144 0, ni_rx_bufs = 7 # 8 # replicate 6142 0,
     nf_mem = replicate 8192 0, nf_carrier = True, nf_native = True, nf_events = []\<rparr>"

lemmas sample_defs = sample_slot_def sample_kring_def sample_shared_def sample_csb_def sample_info_def

lemma all_less_3: "(\<forall>i < Suc (Suc (Suc 0)). P i) \<longleftrightarrow> P 0 \<and> P 1 \<and> P 2"
  by (auto simp: All_less_Suc numeral_2_eq_2)

lemma sample_wf_ring: "cur < 3 \<Longrightarrow> tail < 3 \<Longrightarrow> wf_ring (sample_shared cur tail)"
  by (simp add: wf_ring_def sample_defs)

lemma sample_wf_rx: "wf_rx sample_api sample_info sample_kring"
proof -
  have "wf_nm_cells sample_api (r_slots (k_ring sample_kring), nf_mem sample_info)"
    by (simp add: wf_nm_cells_def cells_apart_def lens_ok_def nm_addr_def sample_api_def sample_defs
        BUF_SIZE_def all_less_3)
  moreover have "cells_apart sh_addr (rx_cells sample_info)" "lens_ok (rx_cells sample_info)"
    by (simp_all add: cells_apart_def lens_ok_def sh_addr_def rx_cells_def sample_defs BUF_SIZE_def
        NETFRONT_BUF_def NETFRONT_BUF_SIZE_def all_less_3)
  ultimately show ?thesis using sample_wf_ring [of 0 1]
    by (simp add: wf_rx_def) (simp add: sample_defs)
qed

theorem rxsync_queue_witness:
  "\<exists>k' np'. netfront_netmap_rxsync sample_api sample_info sample_kring 0 = Some (0, k', np')
     \<and> received sample_api k' (nf_mem np') = [Some [7, 8]] \<and> pending np' = []"
proof -
  have q: "rx_quota sample_info sample_kring = 1"
    by (simp add: rx_quota_def ring_dist_def sample_defs Let_def)
  have p: "pending sample_info = [Some [7, 8]]"
    by (simp add: pending_def ring_dist_def ring_seq_def ring_add_def rx_cells_def cell_get_def
        arr_get_def rd_bytes_def sh_addr_def NETFRONT_BUF_def sample_defs Let_def)
  have r: "received sample_api sample_kring (nf_mem sample_info) = []"
    by (simp add: received_def sample_defs Let_def)
  have "fst (nm_rxsync_prologue sample_api sample_kring) = 0"
    "(0 :: u32) < nkr_num_slots sample_kring" "nr_hwcur sample_kring = 0"
    "host_need_rxkick (ni_stat sample_info) \<noteq> 0" "netmap_no_pendintr sample_api"
    by (simp_all add: sample_api_def sample_defs)
  then show ?thesis
    using rxsync_queue [OF sample_api_ok sample_wf_rx, of 0 0] by (simp add: p q r) blast
qed

section \<open>Transmission as a queue\<close>

text \<open>The packets of the transmit ring from slot \<open>hw\<close> up to the published cursor.\<close>

definition published :: "netmap_info \<Rightarrow> nat \<Rightarrow> u8 list option list" where
  "published np hw =
     (let r = ni_tx_rings np; n = length (r_slots r)
      in map (cell_get sh_addr (tx_cells np)) (ring_seq n hw (ring_dist n hw (unat (r_cur r)))))"

text \<open>The private cursor of the front end agrees with the published one.\<close>

definition tx_in_sync :: "netmap_info \<Rightarrow> bool" where
  "tx_in_sync np \<longleftrightarrow> ucast (txcur (ni_stat np)) = r_cur (ni_tx_rings np)"

definition wf_tx :: "netmap_info \<Rightarrow> bool" where
  "wf_tx np \<longleftrightarrow> wf_ring (ni_tx_rings np) \<and> num_slots (ni_tx_rings np) \<le> 0x10000
     \<and> cells_apart sh_addr (tx_cells np) \<and> lens_ok (tx_cells np)
     \<and> ucast (txcur (ni_stat np)) < num_slots (ni_tx_rings np)"

lemma upd_ok_id: "upd_ok sh_addr id"
  by (simp add: upd_ok_def sh_addr_def)

lemma ucast_u16_u32: "w < 0x10000 \<Longrightarrow> ucast (ucast (w :: u32) :: u16) = w"
proof -
  assume "w < 0x10000"
  then have "unat w < 65536" by (simp add: word_less_nat_alt)
  then show ?thesis
    by (simp add: word_unat_eq_iff unsigned_ucast_eq take_bit_eq_mod unat_mod)
qed

lemma unat_ucast_u16_u32: "unat (ucast (w :: u16) :: u32) = unat w"
proof -
  have "unat w < 65536" using unsigned_less [of w] by simp
  then show ?thesis by (simp add: unsigned_ucast_eq take_bit_eq_mod)
qed

lemma NETMAP_RING_NEXT_slots [simp]: "NETMAP_RING_NEXT (r\<lparr>r_slots := ss\<rparr>) i = NETMAP_RING_NEXT r i"
  by (simp add: NETMAP_RING_NEXT_def)

text \<open>What \<open>xmit\<close> does when the ring is not empty, without the kick.\<close>

definition xmit_stored :: "netmap_info \<Rightarrow> u8 list \<Rightarrow> u8 list \<Rightarrow> netmap_info" where
  "xmit_stored np pkt bufs =
     (let ring = ni_tx_rings np; cur = ucast (txcur (ni_stat np));
          next = NETMAP_RING_NEXT ring cur
      in np\<lparr>ni_tx_rings := ring\<lparr>r_slots := (r_slots ring)[unat cur :=
              (r_slots ring ! unat cur)\<lparr>s_len := of_nat (length pkt)\<rparr>]\<rparr>,
            ni_tx_bufs := bufs,
            ni_stat := (ni_stat np)\<lparr>txcur := ucast next, txhead := ucast next\<rparr>\<rparr>)"

lemma of_nat_u16_ucast: "of_nat (unat (len :: u32)) = (ucast len :: u16)"
  by (simp add: word_unat_eq_iff unsigned_ucast_eq unat_of_nat take_bit_eq_mod)

lemma NETFRONT_BUF_cell: "NETFRONT_BUF w = sh_addr (unat w) s"
  by (simp add: sh_addr_def)

lemma xmit_stores:
  assumes A: "api_ok A" and wf: "wf_tx np"
    and room: "r_cur (ni_tx_rings np) \<noteq> r_tail (ni_tx_rings np)"
    and len: "unat len \<le> BUF_SIZE" "unat len \<le> length buf"
  obtains bufs where
    "wr_bytes (ni_tx_bufs np) (NETFRONT_BUF (r_cur (ni_tx_rings np))) (take (unat len) buf) = Some bufs"
    "netfront_netmap_xmit A np buf len = Some (1,
       let np' = xmit_stored np (take (unat len) buf) bufs; stat = ni_stat np'
       in if host_need_txkick stat \<noteq> 0
          then notify Tx_irq (np'\<lparr>ni_tx_rings := (ni_tx_rings np')\<lparr>r_head := ucast (txcur stat),
                                                  r_cur := ucast (txcur stat)\<rparr>,
                                 ni_stat := stat\<lparr>guest_need_txkick := 1, host_need_txkick := 0\<rparr>\<rparr>)
          else np')"
proof -
  let ?r = "ni_tx_rings np" and ?pkt = "take (unat len) buf"
  have wr: "wf_ring ?r" and ap: "cells_apart sh_addr (tx_cells np)"
    and cur: "unat (ucast (txcur (ni_stat np)) :: u32) < length (r_slots ?r)"
    using wf by (auto simp: wf_tx_def wf_ring_def word_less_nat_alt)
  have "unat (r_cur ?r) < length (r_slots ?r)" using wr by (auto simp: wf_ring_def word_less_nat_alt)
  then have "NETFRONT_BUF (r_cur ?r) + BUF_SIZE \<le> length (ni_tx_bufs np)"
    using cells_apart_bound [OF ap, of "unat (r_cur ?r)"] by (simp add: tx_cells_def sh_addr_def)
  then have "NETFRONT_BUF (r_cur ?r) + length ?pkt \<le> length (ni_tx_bufs np)"
    using len by simp
  then obtain bufs where w: "wr_bytes (ni_tx_bufs np) (NETFRONT_BUF (r_cur ?r)) ?pkt = Some bufs"
    using wr_bytes_total by blast
  have rd: "rd_bytes buf 0 (unat len) = Some ?pkt" using len(2) by (simp add: rd_bytes_def)
  have ne: "\<not> nm_ring_empty A ?r" using room by (simp add: api_ring_empty [OF A])
  have l: "of_nat (length ?pkt) = (ucast len :: u16)" using len(2) by (simp add: of_nat_u16_ucast)
  show thesis
    by (rule that [OF w])
       (simp add: netfront_netmap_xmit_def ne rd w arr_get_Some [OF cur] xmit_stored_def Let_def l
          del: length_take)
qed

lemma xmit_stored_cell:
  assumes wf: "wf_tx np" and sync: "tx_in_sync np" and fit: "cell_fits pkt"
    and w: "wr_bytes (ni_tx_bufs np) (NETFRONT_BUF (r_cur (ni_tx_rings np))) pkt = Some bufs"
  shows "cell_put sh_addr id (tx_cells np) (unat (r_cur (ni_tx_rings np))) pkt
           = Some (tx_cells (xmit_stored np pkt bufs))"
proof -
  have "unat (r_cur (ni_tx_rings np)) < length (r_slots (ni_tx_rings np))"
    using wf by (auto simp: wf_tx_def wf_ring_def word_less_nat_alt)
  then show ?thesis using w sync
    by (simp add: cell_put_conv tx_cells_def xmit_stored_def Let_def tx_in_sync_def sh_addr_def)
qed

lemma xmit_publishes:
  assumes "api_ok A" "wf_tx np" "tx_in_sync np" "host_need_txkick (ni_stat np) \<noteq> 0"
    and "r_cur (ni_tx_rings np) \<noteq> r_tail (ni_tx_rings np)"
    and "unat len \<le> BUF_SIZE" "unat len \<le> length buf"
    and "hw < length (r_slots (ni_tx_rings np))"
    and "ring_dist (length (r_slots (ni_tx_rings np))) hw (unat (r_cur (ni_tx_rings np))) + 1
           < length (r_slots (ni_tx_rings np))"
  shows "\<exists>np'. netfront_netmap_xmit A np buf len = Some (1, np')
     \<and> published np' hw = published np hw @ [Some (take (unat len) buf)]
     \<and> wf_tx np' \<and> tx_in_sync np'
     \<and> host_need_txkick (ni_stat np') = 0 \<and> guest_need_txkick (ni_stat np') = 1
     \<and> nf_events np' = nf_events np @ [Notify Tx_irq]
     \<and> r_tail (ni_tx_rings np') = r_tail (ni_tx_rings np) \<and> nf_carrier np' = nf_carrier np
     \<and> length (r_slots (ni_tx_rings np')) = length (r_slots (ni_tx_rings np))
     \<and> unat (r_cur (ni_tx_rings np')) =
         ring_succ (length (r_slots (ni_tx_rings np))) (unat (r_cur (ni_tx_rings np)))"
proof -
  let ?r = "ni_tx_rings np" and ?pkt = "take (unat len) buf" and ?n = "length (r_slots (ni_tx_rings np))"
  let ?c = "unat (r_cur (ni_tx_rings np))" and ?next = "NETMAP_RING_NEXT (ni_tx_rings np) (r_cur (ni_tx_rings np))"
  obtain bufs where w: "wr_bytes (ni_tx_bufs np) (NETFRONT_BUF (r_cur ?r)) ?pkt = Some bufs"
    and x: "netfront_netmap_xmit A np buf len = Some (1,
       let np' = xmit_stored np ?pkt bufs; stat = ni_stat np'
       in if host_need_txkick stat \<noteq> 0
          then notify Tx_irq (np'\<lparr>ni_tx_rings := (ni_tx_rings np')\<lparr>r_head := ucast (txcur stat),
                                                  r_cur := ucast (txcur stat)\<rparr>,
                                 ni_stat := stat\<lparr>guest_need_txkick := 1, host_need_txkick := 0\<rparr>\<rparr>)
          else np')"
    by (rule xmit_stores [OF assms(1,2,5,6,7)])
  have wr: "wf_ring ?r" and N: "num_slots ?r \<le> 0x10000" and sync: "ucast (txcur (ni_stat np)) = r_cur ?r"
    and cells: "cells_apart sh_addr (tx_cells np)" "lens_ok (tx_cells np)"
    using assms(2,3) by (simp_all add: wf_tx_def tx_in_sync_def)
  have c: "?c < ?n" "r_cur ?r < num_slots ?r" "unat (num_slots ?r) = ?n"
    using wr by (auto simp: wf_ring_def word_less_nat_alt)
  have nx: "unat ?next = ring_succ ?n ?c" using NETMAP_RING_NEXT_succ [OF c(2)] c(3) by simp
  then have nxl: "?next < num_slots ?r" using c by (simp add: word_less_nat_alt ring_succ_less)
  then have "?next < 0x10000" using N by (rule less_le_trans)
  then have rt: "ucast (ucast ?next :: u16) = ?next" by (rule ucast_u16_u32)
  have fit: "cell_fits ?pkt" using assms(6) by (simp add: cell_fits_def)
  let ?st = "xmit_stored np ?pkt bufs"
  have put: "cell_put sh_addr id (tx_cells np) ?c ?pkt = Some (tx_cells ?st)"
    by (rule xmit_stored_cell [OF assms(2,3) fit w])
  define np' where "np' = notify Tx_irq (?st\<lparr>ni_tx_rings := (ni_tx_rings ?st)\<lparr>r_head := ?next, r_cur := ?next\<rparr>,
                                 ni_stat := (ni_stat ?st)\<lparr>guest_need_txkick := 1, host_need_txkick := 0\<rparr>\<rparr>)"
  have res: "netfront_netmap_xmit A np buf len = Some (1, np')"
    using assms(4) by (simp add: x np'_def xmit_stored_def Let_def sync rt)
  have fields: "tx_cells np' = tx_cells ?st" "r_cur (ni_tx_rings np') = ?next" "r_head (ni_tx_rings np') = ?next"
    "num_slots (ni_tx_rings np') = num_slots ?r" "r_tail (ni_tx_rings np') = r_tail ?r"
    "length (r_slots (ni_tx_rings np')) = ?n" "txcur (ni_stat np') = ucast ?next"
    "host_need_txkick (ni_stat np') = 0" "guest_need_txkick (ni_stat np') = 1"
    "nf_events np' = nf_events np @ [Notify Tx_irq]" "nf_carrier np' = nf_carrier np"
    by (simp_all add: np'_def notify_def tx_cells_def xmit_stored_def Let_def sync)
  have W: "wf_cells sh_addr id (tx_cells np) \<and> lens_ok (tx_cells np)" "cells_count (tx_cells np) = ?n"
    using cells upd_ok_id by (simp_all add: wf_cells_def cells_count_def tx_cells_def)
  have "cells_apart sh_addr (tx_cells np') \<and> lens_ok (tx_cells np')"
    using nmc.put_wf [OF W(1) fit put] by (simp add: fields(1) wf_cells_def)
  then have wf': "wf_tx np'" "tx_in_sync np'"
    using wr N nxl rt fields by (simp_all add: wf_tx_def wf_ring_def tx_in_sync_def)
  let ?d = "ring_dist ?n hw ?c"
  have at: "ring_add ?n hw ?d = ?c" by (rule ring_add_dist [OF assms(8) c(1)])
  have "map (cell_get sh_addr (tx_cells ?st)) (ring_seq ?n hw (?d + length [?pkt]))
      = map (cell_get sh_addr (tx_cells np)) (ring_seq ?n hw ?d) @ map Some [?pkt]"
    by (rule nmc.fill_append [OF W assms(8)]) (use fit assms(9) put in \<open>simp_all add: at\<close>)
  moreover have "ring_dist ?n hw (unat ?next) = ?d + 1"
    using ring_dist_trans [OF assms(8) c(1), of 1] assms(9) c(1) by (simp add: nx ring_succ_add)
  ultimately have pub: "published np' hw = published np hw @ [Some ?pkt]"
    by (simp add: published_def Let_def fields)
  show ?thesis using res pub wf' fields nx by auto
qed

lemma xmit_packet_len: "cell_fits pkt \<Longrightarrow> unat (of_nat (length pkt) :: u32) = length pkt"
  by (simp add: cell_fits_def BUF_SIZE_def unat_of_nat)

text \<open>Handing over a packet from a buffer of its own.\<close>

definition xmit_packet :: "netmap_api \<Rightarrow> netmap_info \<Rightarrow> u8 list \<Rightarrow> netmap_info option" where
  "xmit_packet A np pkt =
     (case netfront_netmap_xmit A np pkt (of_nat (length pkt)) of
        Some (r, np') \<Rightarrow> if r = 1 then Some np' else None
      | None \<Rightarrow> None)"

text \<open>C7: Packets handed to the transmit routine, each after a transmit interrupt, are
  published in order and byte for byte as long as the ring has room, and each is announced
  to the back end by a notification of its own.\<close>
theorem xmit_enqueues:
  assumes "api_ok A" "wf_tx np" "tx_in_sync np" "nf_carrier np" "\<forall>p \<in> set ps. length p \<le> 2048"
    and "hw < length (r_slots (ni_tx_rings np))"
    and "ring_dist (length (r_slots (ni_tx_rings np))) hw (unat (r_cur (ni_tx_rings np))) + length ps
           < length (r_slots (ni_tx_rings np))"
    and "length ps \<le> ring_dist (length (r_slots (ni_tx_rings np))) (unat (r_cur (ni_tx_rings np)))
           (unat (r_tail (ni_tx_rings np)))"
  shows "\<exists>np'. run_all (\<lambda>np p. xmit_packet A (netfront_tx_interrupt np) p) np ps = Some np'
     \<and> published np' hw = published np hw @ map Some ps
     \<and> wf_tx np' \<and> tx_in_sync np'
     \<and> filter (\<lambda>e. e = Notify Tx_irq) (nf_events np')
         = filter (\<lambda>e. e = Notify Tx_irq) (nf_events np) @ replicate (length ps) (Notify Tx_irq)"
  using assms
proof (induction ps arbitrary: np)
  case Nil
  then show ?case by simp
next
  case (Cons p ps)
  let ?n = "length (r_slots (ni_tx_rings np))"
  let ?c = "unat (r_cur (ni_tx_rings np))" and ?t = "unat (r_tail (ni_tx_rings np))"
  define ip where "ip = netfront_tx_interrupt np"
  have ip: "wf_tx ip" "tx_in_sync ip" "host_need_txkick (ni_stat ip) \<noteq> 0" "nf_carrier ip"
    "ni_tx_rings ip = ni_tx_rings np" "published ip hw = published np hw"
    "nf_events ip = nf_events np @ [Wake Tx_irq]"
    using Cons.prems(2-4)
    by (simp_all add: ip_def netfront_tx_interrupt_def wake_def wf_tx_def tx_cells_def tx_in_sync_def
        published_def)
  have c: "?c < ?n" "?t < ?n" using Cons.prems(2)
    by (auto simp: wf_tx_def wf_ring_def word_less_nat_alt)
  have fit: "cell_fits p" using Cons.prems(5) by (simp add: cell_fits_def BUF_SIZE_def)
  note u = xmit_packet_len [OF fit]
  have l: "unat (of_nat (length p) :: u32) \<le> BUF_SIZE" "unat (of_nat (length p) :: u32) \<le> length p"
    using u fit by (simp_all add: cell_fits_def)
  have d: "ring_dist ?n ?c ?t \<noteq> 0" "ring_dist ?n hw ?c + 1 < ?n" using Cons.prems(7,8) by simp_all
  then have room: "r_cur (ni_tx_rings np) \<noteq> r_tail (ni_tx_rings np)" by auto
  obtain np1 where x: "netfront_netmap_xmit A ip p (of_nat (length p)) = Some (1, np1)"
    and pub: "published np1 hw = published np hw @ [Some p]"
    and f: "wf_tx np1" "tx_in_sync np1" "nf_carrier np1"
      "nf_events np1 = nf_events np @ [Wake Tx_irq, Notify Tx_irq]"
      "r_tail (ni_tx_rings np1) = r_tail (ni_tx_rings np)"
      "length (r_slots (ni_tx_rings np1)) = ?n"
      "unat (r_cur (ni_tx_rings np1)) = ring_succ ?n ?c"
    using xmit_publishes [OF Cons.prems(1) ip(1-3) _ l, of hw] room Cons.prems(6) d(2) ip(4-7) u
    by auto
  have step: "ring_dist ?n hw (ring_succ ?n ?c) = ring_dist ?n hw ?c + 1"
    using ring_dist_trans [OF Cons.prems(6) c(1), of 1] d(2) c(1) by (simp add: ring_succ_add)
  have step': "ring_dist ?n ?c ?t = Suc (ring_dist ?n (ring_succ ?n ?c) ?t)"
    using d(1) c by (intro ring_dist_step) (auto simp: ring_dist_0)
  obtain np' where ih: "run_all (\<lambda>np p. xmit_packet A (netfront_tx_interrupt np) p) np1 ps = Some np'"
     "published np' hw = published np1 hw @ map Some ps" "wf_tx np'" "tx_in_sync np'"
     "filter (\<lambda>e. e = Notify Tx_irq) (nf_events np')
         = filter (\<lambda>e. e = Notify Tx_irq) (nf_events np1) @ replicate (length ps) (Notify Tx_irq)"
    using Cons.IH [OF Cons.prems(1) f(1-3)] Cons.prems(5-8) f(5-7) step step' by auto
  have "xmit_packet A (netfront_tx_interrupt np) p = Some np1"
    using x by (simp add: xmit_packet_def ip_def)
  then show ?case using ih pub f(4) by simp
qed

lemma sample_wf_tx: "wf_tx sample_info" "tx_in_sync sample_info"
proof -
  have "cells_apart sh_addr (tx_cells sample_info)" "lens_ok (tx_cells sample_info)"
    by (simp_all add: cells_apart_def lens_ok_def sh_addr_def tx_cells_def sample_defs BUF_SIZE_def
        NETFRONT_BUF_def NETFRONT_BUF_SIZE_def all_less_3)
  then show "wf_tx sample_info" "tx_in_sync sample_info" using sample_wf_ring [of 0 2]
    by (simp_all add: wf_tx_def tx_in_sync_def) (simp_all add: sample_defs)
qed

theorem xmit_enqueues_witness:
  "\<exists>np'. run_all (\<lambda>np p. xmit_packet sample_api (netfront_tx_interrupt np) p) sample_info [[5, 6, 7], [9]] = Some np'
     \<and> published np' 0 = [Some [5, 6, 7], Some [9]]"
proof -
  have p: "published sample_info 0 = []" by (simp add: published_def sample_defs Let_def)
  have c: "nf_carrier sample_info" "\<forall>p \<in> set [[5, 6, 7], [9 :: u8]]. length p \<le> 2048"
    "0 < length (r_slots (ni_tx_rings sample_info))"
    "ring_dist (length (r_slots (ni_tx_rings sample_info))) 0 (unat (r_cur (ni_tx_rings sample_info)))
       + length [[5, 6, 7], [9 :: u8]] < length (r_slots (ni_tx_rings sample_info))"
    "length [[5, 6, 7], [9 :: u8]] \<le> ring_dist (length (r_slots (ni_tx_rings sample_info)))
       (unat (r_cur (ni_tx_rings sample_info))) (unat (r_tail (ni_tx_rings sample_info)))"
    by (simp_all add: sample_defs ring_dist_def)
  show ?thesis
    using xmit_enqueues [OF sample_api_ok sample_wf_tx c] unfolding p by auto
qed

section \<open>Transmission without a kick\<close>

lemma xmit_packet_unkicked:
  assumes A: "api_ok A" and wf: "wf_tx np" and room: "r_cur (ni_tx_rings np) \<noteq> r_tail (ni_tx_rings np)"
    and quiet: "host_need_txkick (ni_stat np) = 0" and fit: "cell_fits pkt"
  obtains bufs where "xmit_packet A np pkt = Some (xmit_stored np pkt bufs)"
    "wr_bytes (ni_tx_bufs np) (NETFRONT_BUF (r_cur (ni_tx_rings np))) pkt = Some bufs"
proof -
  note u = xmit_packet_len [OF fit]
  then have l: "unat (of_nat (length pkt) :: u32) \<le> BUF_SIZE" "unat (of_nat (length pkt) :: u32) \<le> length pkt"
    using fit by (simp_all add: cell_fits_def)
  have t: "take (unat (of_nat (length pkt) :: u32)) pkt = pkt" using u by simp
  have q: "host_need_txkick (ni_stat (xmit_stored np pkt bufs)) = 0" for bufs
    using quiet by (simp add: xmit_stored_def Let_def)
  obtain bufs where
    w: "wr_bytes (ni_tx_bufs np) (NETFRONT_BUF (r_cur (ni_tx_rings np))) pkt = Some bufs"
    and x: "netfront_netmap_xmit A np pkt (of_nat (length pkt)) = Some (1,
       let np' = xmit_stored np pkt bufs; stat = ni_stat np'
       in if host_need_txkick stat \<noteq> 0
          then notify Tx_irq (np'\<lparr>ni_tx_rings := (ni_tx_rings np')\<lparr>r_head := ucast (txcur stat),
                                                  r_cur := ucast (txcur stat)\<rparr>,
                                 ni_stat := stat\<lparr>guest_need_txkick := 1, host_need_txkick := 0\<rparr>\<rparr>)
          else np')"
    using xmit_stores [OF A wf room l] unfolding t by blast
  then show thesis using that [OF _ w] by (simp add: xmit_packet_def Let_def q)
qed

lemma lens_ok_update:
  "lens_ok (ss, m) \<Longrightarrow> l \<le> BUF_SIZE \<Longrightarrow> l < 65536 \<Longrightarrow> lens_ok (ss[i := (ss ! i)\<lparr>s_len := of_nat l\<rparr>], m')"
  by (auto simp: lens_ok_def unat_of_nat dest!: set_update_subset_insert [THEN subsetD])

lemma xmit_stored_wf:
  assumes wf: "wf_tx np" and fit: "cell_fits pkt"
    and w: "wr_bytes (ni_tx_bufs np) (NETFRONT_BUF (r_cur (ni_tx_rings np))) pkt = Some bufs"
  shows "wf_tx (xmit_stored np pkt bufs)"
    "unat (txcur (ni_stat (xmit_stored np pkt bufs)))
       = ring_succ (length (r_slots (ni_tx_rings np))) (unat (txcur (ni_stat np)))"
proof -
  let ?r = "ni_tx_rings np" and ?cur = "ucast (txcur (ni_stat np)) :: u32"
  have wr: "wf_ring ?r" and N: "num_slots ?r \<le> 0x10000" and cur: "?cur < num_slots ?r"
    and cells: "cells_apart sh_addr (tx_cells np)" "lens_ok (tx_cells np)"
    using wf by (simp_all add: wf_tx_def)
  have c: "unat (num_slots ?r) = length (r_slots ?r)" using wr by (simp add: wf_ring_def)
  have nx: "unat (NETMAP_RING_NEXT ?r ?cur) = ring_succ (length (r_slots ?r)) (unat ?cur)"
    using NETMAP_RING_NEXT_succ [OF cur] c by simp
  have "unat ?cur < length (r_slots ?r)" using cur c by (simp add: word_less_nat_alt)
  then have nl: "NETMAP_RING_NEXT ?r ?cur < num_slots ?r"
    using nx c by (simp add: word_less_nat_alt ring_succ_less)
  then have "NETMAP_RING_NEXT ?r ?cur < 0x10000" using N by (rule less_le_trans)
  then have rt: "ucast (ucast (NETMAP_RING_NEXT ?r ?cur) :: u16) = NETMAP_RING_NEXT ?r ?cur"
    by (rule ucast_u16_u32)
  then have rt': "unat (ucast (NETMAP_RING_NEXT ?r ?cur) :: u16) = unat (NETMAP_RING_NEXT ?r ?cur)"
    by (metis unat_ucast_u16_u32)
  have "length bufs = length (ni_tx_bufs np)" by (rule wr_bytes_length [OF w])
  moreover have "length pkt \<le> BUF_SIZE" "length pkt < 65536"
    using fit by (simp_all add: cell_fits_def BUF_SIZE_def)
  ultimately show "wf_tx (xmit_stored np pkt bufs)"
    using wr N nl rt cells
    by (simp add: wf_tx_def xmit_stored_def Let_def wf_ring_def cells_apart_def tx_cells_def sh_addr_def
        lens_ok_update)
  show "unat (txcur (ni_stat (xmit_stored np pkt bufs)))
       = ring_succ (length (r_slots ?r)) (unat (txcur (ni_stat np)))"
    using rt' nx by (simp add: xmit_stored_def Let_def unat_ucast_u16_u32)
qed

text \<open>
  Packets handed over one after the other while no kick is wanted: the published cursor
  stays, the private one advances, the slots before it get the lengths, and all payloads go
  to the one buffer at the published cursor.
\<close>

lemma run_unkicked:
  assumes "api_ok A" "wf_tx np" "r_cur (ni_tx_rings np) \<noteq> r_tail (ni_tx_rings np)"
    "host_need_txkick (ni_stat np) = 0" "\<forall>p \<in> set ps. length p \<le> 2048"
  defines "n \<equiv> length (r_slots (ni_tx_rings np))" and "a \<equiv> NETFRONT_BUF (r_cur (ni_tx_rings np))"
    and "t \<equiv> unat (txcur (ni_stat np))"
  shows "\<exists>np'. run_all (xmit_packet A) np ps = Some np' \<and> wf_tx np'
     \<and> r_cur (ni_tx_rings np') = r_cur (ni_tx_rings np) \<and> nf_events np' = nf_events np
     \<and> guest_need_txkick (ni_stat np') = guest_need_txkick (ni_stat np)
     \<and> length (r_slots (ni_tx_rings np')) = n
     \<and> (\<forall>i. i \<notin> set (ring_seq n t (length ps)) \<longrightarrow> r_slots (ni_tx_rings np') ! i = r_slots (ni_tx_rings np) ! i)
     \<and> unat (txcur (ni_stat np')) = ring_add n t (length ps)
     \<and> (ps \<noteq> [] \<longrightarrow> rd_bytes (ni_tx_bufs np') a (length (last ps)) = Some (last ps))
     \<and> (\<forall>off l. off + l \<le> a \<or> a + 2048 \<le> off
           \<longrightarrow> rd_bytes (ni_tx_bufs np') off l = rd_bytes (ni_tx_bufs np) off l)"
  using assms(1-5) unfolding n_def a_def t_def
proof (induction ps arbitrary: np)
  case Nil
  then show ?case
    by (auto simp: wf_tx_def wf_ring_def word_less_nat_alt unat_ucast_u16_u32)
next
  case (Cons p ps)
  let ?r = "ni_tx_rings np" and ?n = "length (r_slots (ni_tx_rings np))"
  let ?a = "NETFRONT_BUF (r_cur (ni_tx_rings np))" and ?t = "unat (txcur (ni_stat np))"
  have fit: "cell_fits p" using Cons.prems(5) by (simp add: cell_fits_def BUF_SIZE_def)
  obtain bufs where x: "xmit_packet A np p = Some (xmit_stored np p bufs)"
    and w: "wr_bytes (ni_tx_bufs np) ?a p = Some bufs"
    by (rule xmit_packet_unkicked [OF Cons.prems(1-4) fit])
  let ?np = "xmit_stored np p bufs"
  note wf1 = xmit_stored_wf [OF Cons.prems(2) fit w]
  have f: "r_cur (ni_tx_rings ?np) = r_cur ?r" "r_tail (ni_tx_rings ?np) = r_tail ?r"
    "host_need_txkick (ni_stat ?np) = 0" "nf_events ?np = nf_events np" "ni_tx_bufs ?np = bufs"
    "guest_need_txkick (ni_stat ?np) = guest_need_txkick (ni_stat np)"
    "length (r_slots (ni_tx_rings ?np)) = ?n"
    "\<And>i. i \<noteq> ?t \<Longrightarrow> r_slots (ni_tx_rings ?np) ! i = r_slots ?r ! i"
    using Cons.prems(4) by (simp_all add: xmit_stored_def Let_def unat_ucast_u16_u32)
  have "unat (ucast (txcur (ni_stat np)) :: u32) < unat (num_slots ?r)"
    using Cons.prems(2) by (auto simp: wf_tx_def word_less_nat_alt)
  then have t: "?t < ?n" using Cons.prems(2) by (simp add: wf_tx_def wf_ring_def unat_ucast_u16_u32)
  have frame: "rd_bytes bufs off l = rd_bytes (ni_tx_bufs np) off l"
    if "off + l \<le> ?a \<or> ?a + 2048 \<le> off" for off l
    using rd_wr_other [OF w, of off l] that Cons.prems(5) by fastforce
  have room: "r_cur (ni_tx_rings ?np) \<noteq> r_tail (ni_tx_rings ?np)" and fits: "\<forall>p \<in> set ps. length p \<le> 2048"
    using f(1,2) Cons.prems(3,5) by simp_all
  obtain np' where ih: "run_all (xmit_packet A) ?np ps = Some np'" "wf_tx np'"
    "r_cur (ni_tx_rings np') = r_cur ?r" "nf_events np' = nf_events np"
    "guest_need_txkick (ni_stat np') = guest_need_txkick (ni_stat np)"
    "length (r_slots (ni_tx_rings np')) = ?n"
    "\<forall>i. i \<notin> set (ring_seq ?n (ring_succ ?n ?t) (length ps))
         \<longrightarrow> r_slots (ni_tx_rings np') ! i = r_slots (ni_tx_rings ?np) ! i"
    "unat (txcur (ni_stat np')) = ring_add ?n (ring_succ ?n ?t) (length ps)"
    "ps \<noteq> [] \<longrightarrow> rd_bytes (ni_tx_bufs np') ?a (length (last ps)) = Some (last ps)"
    "\<forall>off l. off + l \<le> ?a \<or> ?a + 2048 \<le> off \<longrightarrow> rd_bytes (ni_tx_bufs np') off l = rd_bytes bufs off l"
    using Cons.IH [OF Cons.prems(1) wf1(1) room f(3) fits] unfolding f(1,4-7) wf1(2) by blast
  have "rd_bytes (ni_tx_bufs np') ?a (length (last (p # ps))) = Some (last (p # ps))"
    using ih(1,9) rd_wr_same [OF w] f(5) by (cases "ps = []") auto
  then show ?case
    using ih(1-6,8) ih(7,10) x f(8) frame t
    by (intro exI [of _ np']) (simp add: ring_add_Suc ring_seq_Suc)
qed

text \<open>C24: While no kick is wanted and the ring is not empty, the transmit routine takes any
  number of packets, more than there are slots included, and reports each as sent; the
  published cursor stays, no notification is sent, every payload is written to the one
  buffer at the published cursor, and only the last packet is there in the end.\<close>
theorem xmit_overwrites:
  assumes "api_ok A" "wf_tx np" "r_cur (ni_tx_rings np) \<noteq> r_tail (ni_tx_rings np)"
    "host_need_txkick (ni_stat np) = 0" "\<forall>p \<in> set ps. length p \<le> 2048" "ps \<noteq> []"
  shows "\<exists>np'. run_all (xmit_packet A) np ps = Some np'
     \<and> r_cur (ni_tx_rings np') = r_cur (ni_tx_rings np) \<and> nf_events np' = nf_events np
     \<and> unat (txcur (ni_stat np'))
         = ring_add (length (r_slots (ni_tx_rings np))) (unat (txcur (ni_stat np))) (length ps)
     \<and> rd_bytes (ni_tx_bufs np') (NETFRONT_BUF (r_cur (ni_tx_rings np))) (length (last ps)) = Some (last ps)
     \<and> (\<forall>off l. off + l \<le> NETFRONT_BUF (r_cur (ni_tx_rings np))
                \<or> NETFRONT_BUF (r_cur (ni_tx_rings np)) + 2048 \<le> off
           \<longrightarrow> rd_bytes (ni_tx_bufs np') off l = rd_bytes (ni_tx_bufs np) off l)"
  using run_unkicked [OF assms(1-5)] assms(6) by auto

theorem xmit_overwrites_witness:
  "\<exists>np'. run_all (xmit_packet sample_api) (sample_info\<lparr>ni_stat := sample_csb\<lparr>host_need_txkick := 0\<rparr>\<rparr>)
        [[1], [2, 2], [3], [4], [5, 5]] = Some np'
     \<and> nf_events np' = [] \<and> rd_bytes (ni_tx_bufs np') 0 2 = Some [5, 5]"
proof -
  let ?np = "sample_info\<lparr>ni_stat := sample_csb\<lparr>host_need_txkick := 0\<rparr>\<rparr>"
  have wf: "wf_tx ?np" using sample_wf_tx(1)
    by (simp add: wf_tx_def tx_cells_def) (simp add: sample_defs)
  have f: "r_cur (ni_tx_rings ?np) \<noteq> r_tail (ni_tx_rings ?np)" "host_need_txkick (ni_stat ?np) = 0"
    "nf_events ?np = []" "NETFRONT_BUF (r_cur (ni_tx_rings ?np)) = 0"
    by (simp_all add: sample_defs NETFRONT_BUF_def)
  define ps :: "u8 list list" where "ps = [[1], [2, 2], [3], [4], [5, 5]]"
  have ps: "\<forall>p \<in> set ps. length p \<le> 2048" "ps \<noteq> []" "last ps = [5, 5]" "length (last ps) = 2"
    by (simp_all add: ps_def)
  have "\<exists>np'. run_all (xmit_packet sample_api) ?np ps = Some np' \<and> nf_events np' = nf_events ?np
     \<and> rd_bytes (ni_tx_bufs np') (NETFRONT_BUF (r_cur (ni_tx_rings ?np))) (length (last ps)) = Some (last ps)"
    using xmit_overwrites [OF sample_api_ok wf f(1,2) ps(1,2)] by blast
  then show ?thesis unfolding ps(4) unfolding f(3,4) ps(3) unfolding ps_def .
qed

section \<open>The transmit sync\<close>

definition clear_sent :: "netmap_api \<Rightarrow> nslot \<Rightarrow> nslot" where
  "clear_sent A s = s\<lparr>s_flags := s_flags s AND NOT (NS_REPORT A OR NS_BUF_CHANGED A)\<rparr>"

lemma tx_send_done: "tx_send A lim head head ring np = Some (head, ring, np)"
  by (subst tx_send.simps) simp

lemma tx_send_step:
  "nm_i \<noteq> head \<Longrightarrow> unat nm_i < length (r_slots ring) \<Longrightarrow>
   netfront_netmap_xmit A np (drop (NMB A (r_slots ring ! unat nm_i)) (nf_mem np))
     (ucast (s_len (r_slots ring ! unat nm_i))) = Some (sent, np') \<Longrightarrow>
   tx_send A lim head nm_i ring np =
     (if sent = 0 then Some (nm_i, ring, np')
      else tx_send A lim head (nm_next A nm_i lim)
        (ring\<lparr>r_slots := (r_slots ring)[unat nm_i := clear_sent A (r_slots ring ! unat nm_i)]\<rparr>) np')"
  by (subst tx_send.simps) (simp add: arr_get_Some clear_sent_def)

text \<open>A transmit sync leaves everything as it is while the interface has no carrier, and
  sends nothing while the shared ring is full.\<close>

lemma txsync_blocked:
  assumes "api_ok A" "unat (nr_hwcur k) < length (r_slots (k_ring k))"
    "\<not> nf_carrier np \<or> r_cur (ni_tx_rings np) = r_tail (ni_tx_rings np)"
  shows "\<exists>k'. netfront_netmap_txsync A np k flags = Some (0, k', np)
     \<and> nr_hwcur k' = nr_hwcur k \<and> r_slots (k_ring k') = r_slots (k_ring k)
     \<and> (\<not> nf_carrier np \<longrightarrow> kring_same k k')"
proof (cases "nf_carrier np")
  case False
  then show ?thesis using api_tx_finalize [OF assms(1), of k]
    by (simp add: netfront_netmap_txsync_def kring_same_def)
next
  case True
  then have full: "r_cur (ni_tx_rings np) = r_tail (ni_tx_rings np)" using assms(3) by simp
  have x: "netfront_netmap_xmit A np buf len = Some (0, np)" for buf len
    using full by (simp add: netfront_netmap_xmit_def api_ring_empty [OF assms(1)] Let_def)
  have send: "tx_send A lim head (nr_hwcur k) (k_ring k) np = Some (nr_hwcur k, k_ring k, np)" for lim head
    using tx_send_step [OF _ assms(2) x, of head lim] tx_send_done by (cases "nr_hwcur k = head") auto
  define k1 where "k1 = (if reclaim_tx A np k flags then tx_reclaim A np k else k)"
  have k1: "nr_hwcur k1 = nr_hwcur k" "r_slots (k_ring k1) = r_slots (k_ring k)"
    by (simp_all add: k1_def tx_reclaim_def Let_def)
  have "k\<lparr>k_ring := k_ring k, nr_hwcur := nr_hwcur k\<rparr> = k" by simp
  then have "netfront_netmap_txsync A np k flags = Some (0, nm_txsync_finalize A k1, np)"
    using True by (simp add: netfront_netmap_txsync_def send k1_def Let_def)
  then show ?thesis using api_tx_finalize [OF assms(1), of k1] k1 True
    by (simp add: kring_same_def)
qed

section \<open>Registration\<close>

text \<open>Switching an interface to netmap mode is refused only when all its flags are zero:
  the negation is applied to the flags before the test of the up bit, so an interface that
  is down but has any other flag set is accepted and its carrier is switched on.\<close>
lemma netfront_reg_accepts_down:
  assumes "IFF_UP = 1"
  shows "netfront_netmap_reg IFF_UP (Some flags) onoff np =
     Some (if flags = 0 then (EINVAL, np)
           else (0, np\<lparr>nf_native := onoff \<noteq> 0, nf_carrier := onoff \<noteq> 0\<rparr>))"
  by (simp add: netfront_netmap_reg_def c_not_def assms)


end
