(* ===== verification/Tx_Batch.thy ===== *)
theory Tx_Batch
  imports Netfront_Rings
begin

text \<open>
  One transmit sync of the front end over any number of new slots. The sending loop of
  \<open>netfront_netmap_txsync\<close> is shown to hand the packets of the slots one by one to
  \<open>netfront_netmap_xmit\<close>; since the first of them uses up the right to kick, what happens
  to the others follows from the behaviour of the transmit routine while no kick is wanted.
\<close>

section \<open>The sending loop as a series of packets\<close>

lemma xmit_cong:
  "rd_bytes b 0 (unat len) = rd_bytes b' 0 (unat len) \<Longrightarrow>
   netfront_netmap_xmit A np b len = netfront_netmap_xmit A np b' len"
  by (simp add: netfront_netmap_xmit_def Let_def)

lemma xmit_slot:
  assumes "cell_get (nm_addr A) (ss, nf_mem np) i = Some p"
  shows "i < length ss"
    "netfront_netmap_xmit A np (drop (NMB A (ss ! i)) (nf_mem np)) (ucast (s_len (ss ! i)))
       = netfront_netmap_xmit A np p (of_nat (length p))"
proof -
  let ?s = "ss ! i"
  show i: "i < length ss" using assms by (auto simp: cell_get_def arr_get_def split: if_splits)
  have p: "NMB A ?s + unat (s_len ?s) \<le> length (nf_mem np)"
    "p = take (unat (s_len ?s)) (drop (NMB A ?s) (nf_mem np))"
    using assms i by (auto simp: cell_get_def arr_get_Some rd_bytes_conv nm_addr_def)
  then have l: "length p = unat (s_len ?s)" by simp
  have len: "(of_nat (length p) :: u32) = ucast (s_len ?s)"
    unfolding l by (simp add: word_unat_eq_iff unat_of_nat unat_ucast_u16_u32 take_bit_eq_mod)
  have "rd_bytes (drop (NMB A ?s) (nf_mem np)) 0 (unat (s_len ?s)) = rd_bytes p 0 (unat (s_len ?s))"
    using p by (simp add: rd_bytes_def)
  then show "netfront_netmap_xmit A np (drop (NMB A ?s) (nf_mem np)) (ucast (s_len ?s))
       = netfront_netmap_xmit A np p (of_nat (length p))"
    unfolding len by (intro xmit_cong) (simp add: unat_ucast_u16_u32)
qed

lemma xmit_keeps:
  "netfront_netmap_xmit A np buf len = Some (r, np') \<Longrightarrow>
   nf_mem np' = nf_mem np \<and> nf_carrier np' = nf_carrier np"
  by (auto simp: netfront_netmap_xmit_def notify_def Let_def split: if_splits bind_splits)

lemma xmit_packet_keeps:
  "xmit_packet A np p = Some np' \<Longrightarrow> nf_mem np' = nf_mem np \<and> nf_carrier np' = nf_carrier np"
  by (auto simp: xmit_packet_def dest: xmit_keeps split: option.splits if_splits)

lemma xmit_packet_conv:
  "xmit_packet A np p = Some np' \<longleftrightarrow> netfront_netmap_xmit A np p (of_nat (length p)) = Some (1, np')"
  by (auto simp: xmit_packet_def split: option.splits if_splits)

text \<open>The packets of the slots from \<open>i\<close> on.\<close>

definition slot_packets :: "netmap_api \<Rightarrow> nring \<Rightarrow> u8 list \<Rightarrow> nat \<Rightarrow> nat \<Rightarrow> u8 list option list" where
  "slot_packets A ring mem i k =
     map (cell_get (nm_addr A) (r_slots ring, mem)) (ring_seq (length (r_slots ring)) i k)"

lemma slot_packets_update:
  assumes "i < length (r_slots ring)" "k < length (r_slots ring)"
  shows "slot_packets A (ring\<lparr>r_slots := (r_slots ring)[i := s]\<rparr>) mem (ring_succ (length (r_slots ring)) i) k
       = slot_packets A ring mem (ring_succ (length (r_slots ring)) i) k"
proof -
  have "i \<notin> set (ring_seq (length (r_slots ring)) (ring_succ (length (r_slots ring)) i) k)"
    using assms by (rule ring_seq_head_notin)
  then have "j \<in> set (ring_seq (length (r_slots ring)) (ring_succ (length (r_slots ring)) i) k) \<Longrightarrow> i \<noteq> j" for j
    by blast
  then show ?thesis
    by (simp add: slot_packets_def cell_get_def arr_get_def)
qed

lemma tx_send_run:
  assumes A: "api_ok A"
  shows "unat N = length (r_slots ring) \<Longrightarrow> nm_i < N \<Longrightarrow> head < N \<Longrightarrow>
    ring_dist (length (r_slots ring)) (unat nm_i) (unat head) = length ps \<Longrightarrow>
    slot_packets A ring (nf_mem np) (unat nm_i) (length ps) = map Some ps \<Longrightarrow>
    run_all (xmit_packet A) np ps = Some np' \<Longrightarrow>
    \<exists>ring'. tx_send A (N - 1) head nm_i ring np = Some (head, ring', np')"
proof (induction ps arbitrary: ring nm_i np)
  case Nil
  then have "nm_i = head" by (auto simp: word_less_nat_alt ring_dist_0 word_unat_eq_iff)
  then show ?case using Nil by (simp add: tx_send_done)
next
  case (Cons p ps)
  let ?n = "length (r_slots ring)" and ?i = "nm_next A nm_i (N - 1)"
  have i: "unat nm_i < ?n" "unat head < ?n" using Cons.prems by (simp_all add: word_less_nat_alt)
  have ne: "nm_i \<noteq> head" using Cons.prems(4) by auto
  have i': "unat ?i = ring_succ ?n (unat nm_i)"
    using nm_next_succ [OF A Cons.prems(2)] Cons.prems(1) by simp
  have lt: "?i < N" using i i' Cons.prems(1) ring_succ_less [of "unat nm_i" ?n]
    by (simp add: word_less_nat_alt)
  have d: "ring_dist ?n (unat ?i) (unat head) = length ps"
    using ring_dist_step [OF i] ne Cons.prems(4) i' by (simp add: word_unat_eq_iff)
  have k: "length ps < ?n" using ring_dist_less [OF i] Cons.prems(4) by simp
  have p: "cell_get (nm_addr A) (r_slots ring, nf_mem np) (unat nm_i) = Some p"
    and ps: "slot_packets A ring (nf_mem np) (ring_succ ?n (unat nm_i)) (length ps) = map Some ps"
    using Cons.prems(5) i(1) by (simp_all add: slot_packets_def ring_seq_Suc)
  obtain np1 where x: "xmit_packet A np p = Some np1" and rest: "run_all (xmit_packet A) np1 ps = Some np'"
    using Cons.prems(6) by (auto split: option.splits)
  let ?ring = "ring\<lparr>r_slots := (r_slots ring)[unat nm_i := clear_sent A (r_slots ring ! unat nm_i)]\<rparr>"
  have step: "tx_send A (N - 1) head nm_i ring np = tx_send A (N - 1) head ?i ?ring np1"
    using tx_send_step [OF ne i(1)] x by (simp add: xmit_slot(2) [OF p] xmit_packet_conv)
  have ps1: "slot_packets A ?ring (nf_mem np1) (unat ?i) (length ps) = map Some ps"
    using ps slot_packets_update [OF i(1) k] xmit_packet_keeps [OF x] by (simp add: i')
  show ?case
    unfolding step
    by (rule Cons.IH [OF _ lt Cons.prems(3) _ ps1 rest]) (use Cons.prems(1) d in simp_all)
qed

section \<open>What the back end finds\<close>

text \<open>Stores through the buffer at the published cursor, with lengths written from there on,
  leave the published packets as they are.\<close>

lemma published_frame:
  fixes np np' :: netmap_info and hw m :: nat
  defines "n \<equiv> length (r_slots (ni_tx_rings np))" and "c \<equiv> unat (r_cur (ni_tx_rings np))"
    and "a \<equiv> NETFRONT_BUF (r_cur (ni_tx_rings np))"
  assumes wf: "wf_tx np" and hw: "hw < n" "ring_dist n hw c + m \<le> n" "0 < m"
    and r: "r_cur (ni_tx_rings np') = r_cur (ni_tx_rings np)" "length (r_slots (ni_tx_rings np')) = n"
    and slots: "\<forall>i. i \<notin> set (ring_seq n c m) \<longrightarrow> r_slots (ni_tx_rings np') ! i = r_slots (ni_tx_rings np) ! i"
    and bufs: "\<forall>off l. off + l \<le> a \<or> a + 2048 \<le> off
       \<longrightarrow> rd_bytes (ni_tx_bufs np') off l = rd_bytes (ni_tx_bufs np) off l"
  shows "published np' hw = published np hw"
proof -
  let ?d = "ring_dist n hw c"
  have ap: "cells_apart sh_addr (tx_cells np)" and ls: "lens_ok (tx_cells np)"
    and c: "c < n"
    using wf by (auto simp: wf_tx_def wf_ring_def word_less_nat_alt n_def c_def)
  have n: "length (fst (tx_cells np)) = n" by (simp add: tx_cells_def n_def)
  have a: "a = sh_addr c (fst (tx_cells np) ! c)" by (simp add: a_def c_def sh_addr_def)
  have "distinct (ring_seq n hw (?d + m))" using hw by (intro distinct_ring_seq) simp_all
  then have dj: "set (ring_seq n hw ?d) \<inter> set (ring_seq n c m) = {}"
    by (simp add: ring_seq_append ring_add_dist [OF hw(1) c])
  have c_in: "c \<in> set (ring_seq n c m)" using hw(3) c by (cases m) (simp_all add: ring_seq_Suc)
  have cell: "cell_get sh_addr (tx_cells np') j = cell_get sh_addr (tx_cells np) j"
    if j: "j \<in> set (ring_seq n hw ?d)" for j
  proof -
    let ?s = "r_slots (ni_tx_rings np) ! j"
    have jn: "j < n" using ring_seq_less [OF hw(1) j] .
    have s: "r_slots (ni_tx_rings np') ! j = ?s" using slots dj j by blast
    have "unat (s_len ?s) \<le> BUF_SIZE" using ls jn by (simp add: lens_ok_def tx_cells_def n_def)
    moreover have "j \<noteq> c" using dj j c_in by auto
    ultimately have "sh_addr j ?s + unat (s_len ?s) \<le> a \<or> a + 2048 \<le> sh_addr j ?s"
      using cells_apartD [OF ap, of c j] n c jn
      by (auto simp: a tx_cells_def BUF_SIZE_def)
    then have "rd_bytes (ni_tx_bufs np') (sh_addr j ?s) (unat (s_len ?s))
        = rd_bytes (ni_tx_bufs np) (sh_addr j ?s) (unat (s_len ?s))"
      using bufs by blast
    then show ?thesis using jn r(2) s n
      by (simp add: cell_get_def tx_cells_def arr_get_Some)
  qed
  show ?thesis
    using cell r by (simp add: published_def Let_def flip: n_def c_def)
qed

text \<open>C25: A transmit sync over any number of new slots, the back end waiting for a kick, reports
  all of them as sent but publishes only the packet of the first one, by one notification;
  the published and the private cursor part as soon as there is a second packet, and all
  further payloads go to the one buffer at the published cursor, where only the last stays.
  Nothing is reclaimed until the interrupt comes back.\<close>
theorem txsync_batch:
  assumes "api_ok A" "wf_tx np" "tx_in_sync np" "nf_carrier np" "host_need_txkick (ni_stat np) \<noteq> 0"
    and "n = length (r_slots (ni_tx_rings np))"
    and "min 2 (length (p # ps)) \<le> ring_dist n (unat (r_cur (ni_tx_rings np))) (unat (r_tail (ni_tx_rings np)))"
    and "hw < n" "ring_dist n hw (unat (r_cur (ni_tx_rings np))) + length (p # ps) < n"
    and "unat (nkr_num_slots k) = length (r_slots (k_ring k))"
    and "nr_hwcur k < nkr_num_slots k" "nr_rhead k < nkr_num_slots k"
    and "slot_packets A (k_ring k) (nf_mem np) (unat (nr_hwcur k))
           (ring_dist (length (r_slots (k_ring k))) (unat (nr_hwcur k)) (unat (nr_rhead k))) = map Some (p # ps)"
    and "\<forall>q \<in> set (p # ps). length q \<le> 2048"
  shows "\<exists>k' np'. netfront_netmap_txsync A np k flags = Some (0, k', np')
     \<and> nr_hwcur k' = nr_rhead k \<and> nr_hwtail k' = nr_hwtail k
     \<and> published np' hw = published np hw @ [Some p] \<and> nf_events np' = nf_events np @ [Notify Tx_irq]
     \<and> wf_tx np' \<and> (tx_in_sync np' \<longleftrightarrow> ps = [])
     \<and> unat (txcur (ni_stat np')) = ring_add n (unat (r_cur (ni_tx_rings np))) (length (p # ps))
     \<and> (ps \<noteq> [] \<longrightarrow> rd_bytes (ni_tx_bufs np') (NETFRONT_BUF (r_cur (ni_tx_rings np'))) (length (last ps)) = Some (last ps))"
proof -
  let ?c = "unat (r_cur (ni_tx_rings np))" and ?t = "unat (r_tail (ni_tx_rings np))"
  have c: "?c < n" "?t < n" using assms(2,6) by (auto simp: wf_tx_def wf_ring_def word_less_nat_alt)
  have fit: "cell_fits p" using assms(14) by (simp add: cell_fits_def BUF_SIZE_def)
  note u = xmit_packet_len [OF fit]
  have room: "r_cur (ni_tx_rings np) \<noteq> r_tail (ni_tx_rings np)" using assms(7) by auto
  obtain np1 where x: "netfront_netmap_xmit A np p (of_nat (length p)) = Some (1, np1)"
    and f: "published np1 hw = published np hw @ [Some p]" "wf_tx np1" "tx_in_sync np1"
      "host_need_txkick (ni_stat np1) = 0" "guest_need_txkick (ni_stat np1) = 1"
      "nf_events np1 = nf_events np @ [Notify Tx_irq]" "r_tail (ni_tx_rings np1) = r_tail (ni_tx_rings np)"
      "length (r_slots (ni_tx_rings np1)) = n" "unat (r_cur (ni_tx_rings np1)) = ring_succ n ?c"
    using xmit_publishes [OF assms(1-3,5) room, of "of_nat (length p)" p hw] assms(6,8,9) u fit
    by (auto simp: cell_fits_def)
  have tc: "unat (txcur (ni_stat np1)) = ring_succ n ?c"
    using f(3,9) by (metis tx_in_sync_def unat_ucast_u16_u32)
  obtain np' where run: "run_all (xmit_packet A) np1 ps = Some np'"
    and g: "wf_tx np'" "r_cur (ni_tx_rings np') = r_cur (ni_tx_rings np1)"
      "nf_events np' = nf_events np1" "guest_need_txkick (ni_stat np') = 1"
      "unat (txcur (ni_stat np')) = ring_add n (ring_succ n ?c) (length ps)"
      "published np' hw = published np1 hw"
      "ps \<noteq> [] \<longrightarrow> rd_bytes (ni_tx_bufs np') (NETFRONT_BUF (r_cur (ni_tx_rings np1))) (length (last ps)) = Some (last ps)"
  proof (cases "ps = []")
    case True
    then show thesis using that [of np1] f tc c(1) by (simp add: ring_succ_less)
  next
    case False
    then have "2 \<le> ring_dist n ?c ?t" using assms(7) by (cases ps) simp_all
    moreover from this have "?c \<noteq> ?t" by auto
    ultimately have "ring_succ n ?c \<noteq> ?t" using ring_dist_step [OF c] by auto
    then have "r_cur (ni_tx_rings np1) \<noteq> r_tail (ni_tx_rings np1)" using f(7,9) by auto
    moreover have "\<forall>q \<in> set ps. length q \<le> 2048" using assms(14) by simp
    ultimately obtain np' where r: "run_all (xmit_packet A) np1 ps = Some np'" "wf_tx np'"
       "r_cur (ni_tx_rings np') = r_cur (ni_tx_rings np1)" "nf_events np' = nf_events np1"
       "guest_need_txkick (ni_stat np') = 1" "length (r_slots (ni_tx_rings np')) = n"
       "\<forall>i. i \<notin> set (ring_seq n (ring_succ n ?c) (length ps))
          \<longrightarrow> r_slots (ni_tx_rings np') ! i = r_slots (ni_tx_rings np1) ! i"
       "unat (txcur (ni_stat np')) = ring_add n (ring_succ n ?c) (length ps)"
       "ps \<noteq> [] \<longrightarrow> rd_bytes (ni_tx_bufs np') (NETFRONT_BUF (r_cur (ni_tx_rings np1))) (length (last ps)) = Some (last ps)"
       "\<forall>off l. off + l \<le> NETFRONT_BUF (r_cur (ni_tx_rings np1)) \<or> NETFRONT_BUF (r_cur (ni_tx_rings np1)) + 2048 \<le> off
           \<longrightarrow> rd_bytes (ni_tx_bufs np') off l = rd_bytes (ni_tx_bufs np1) off l"
      using run_unkicked [OF assms(1) f(2) _ f(4), of ps] unfolding f(5,8) tc by blast
    have d: "ring_dist n hw (ring_succ n ?c) = ring_dist n hw ?c + 1"
      using ring_dist_trans [OF assms(8) c(1), of 1] assms(9) c(1) by (simp add: ring_succ_add)
    have "published np' hw = published np1 hw"
      by (rule published_frame [where m = "length ps"])
         (use f(2,8,9) r assms(8,9) False d in simp_all)
    with r show thesis by (intro that) simp_all
  qed
  have all: "run_all (xmit_packet A) np (p # ps) = Some np'"
    using xmit_packet_conv [THEN iffD2, OF x] run by simp
  let ?K = "length (r_slots (k_ring k))"
  have dist: "ring_dist ?K (unat (nr_hwcur k)) (unat (nr_rhead k)) = length (p # ps)"
    using arg_cong [OF assms(13), of length] by (simp add: slot_packets_def)
  obtain ring' where send: "tx_send A (nkr_num_slots k - 1) (nr_rhead k) (nr_hwcur k) (k_ring k) np
      = Some (nr_rhead k, ring', np')"
    using tx_send_run [OF assms(1) assms(10-12) dist _ all] assms(13) dist by auto
  define k1 where "k1 = k\<lparr>k_ring := ring', nr_hwcur := nr_rhead k\<rparr>"
  have ne: "nr_hwcur k \<noteq> nr_rhead k" using dist by auto
  have "netfront_netmap_txsync A np k flags = Some (0, nm_txsync_finalize A k1, np')"
    using assms(4) ne g(4) by (simp add: netfront_netmap_txsync_def send reclaim_tx_def k1_def Let_def)
  moreover have "tx_in_sync np' \<longleftrightarrow> ps = []"
  proof -
    have "tx_in_sync np' \<longleftrightarrow> ring_add n (ring_succ n ?c) (length ps) = ring_add n (ring_succ n ?c) 0"
      using g(2,5) f(9) c(1)
      by (simp add: tx_in_sync_def word_unat_eq_iff unat_ucast_u16_u32 ring_succ_less)
    then show ?thesis
      using ring_add_inject [of "ring_succ n ?c" n "length ps" 0] c(1) assms(9) by (auto simp: ring_succ_less)
  qed
  ultimately show ?thesis using api_tx_finalize [OF assms(1), of k1] f g c(1)
    by (simp add: kring_same_def k1_def ring_add_Suc)
qed

text \<open>A netmap transmit ring with two packets to send, of two bytes and of one.\<close>

definition batch_kring :: kring where
  "batch_kring = sample_kring\<lparr>nr_rhead := 2,
     k_ring := (k_ring sample_kring)\<lparr>r_slots := [sample_slot 1 2, sample_slot 2 1, sample_slot 3 0]\<rparr>\<rparr>"

definition batch_info :: netmap_info where
  "batch_info = sample_info\<lparr>nf_mem := replicate 2048 0 @ 5 # 6 # replicate 2046 0 @ 9 # replicate 4095 0\<rparr>"

theorem txsync_batch_witness:
  "\<exists>k' np'. netfront_netmap_txsync sample_api batch_info batch_kring 0 = Some (0, k', np')
     \<and> nr_hwcur k' = 2 \<and> published np' 0 = [Some [5, 6]] \<and> nf_events np' = [Notify Tx_irq]
     \<and> \<not> tx_in_sync np'"
proof -
  have wf: "wf_tx batch_info" "tx_in_sync batch_info"
    using sample_wf_tx by (simp_all add: wf_tx_def tx_in_sync_def tx_cells_def batch_info_def)
  have n: "3 = length (r_slots (ni_tx_rings batch_info))" by (simp add: batch_info_def sample_defs)
  have c: "nf_carrier batch_info" "host_need_txkick (ni_stat batch_info) \<noteq> 0" by (simp_all add: batch_info_def sample_defs)
  have room: "min 2 (length [[5, 6], [9 :: u8]])
      \<le> ring_dist 3 (unat (r_cur (ni_tx_rings batch_info))) (unat (r_tail (ni_tx_rings batch_info)))"
    "(0 :: nat) < 3"
    "ring_dist 3 0 (unat (r_cur (ni_tx_rings batch_info))) + length [[5, 6], [9 :: u8]] < 3"
    by (simp_all add: batch_info_def sample_defs ring_dist_def)
  have k: "unat (nkr_num_slots batch_kring) = length (r_slots (k_ring batch_kring))"
    "nr_hwcur batch_kring < nkr_num_slots batch_kring" "nr_rhead batch_kring < nkr_num_slots batch_kring"
    "nr_rhead batch_kring = 2"
    by (simp_all add: batch_kring_def sample_defs)
  have sq: "ring_seq 3 0 2 = [0, 1]" by code_simp
  have d: "length (r_slots (k_ring batch_kring)) = 3" "unat (nr_hwcur batch_kring) = 0"
    "ring_dist 3 0 (unat (nr_rhead batch_kring)) = 2"
    by (simp_all add: batch_kring_def sample_defs ring_dist_def)
  have s: "slot_packets sample_api (k_ring batch_kring) (nf_mem batch_info) (unat (nr_hwcur batch_kring))
      (ring_dist (length (r_slots (k_ring batch_kring))) (unat (nr_hwcur batch_kring)) (unat (nr_rhead batch_kring)))
      = map Some [[5, 6], [9]]"
    unfolding d slot_packets_def sq
    by (simp add: cell_get_def arr_get_def rd_bytes_def nm_addr_def sample_api_def
        batch_kring_def batch_info_def sample_defs)
  have l: "\<forall>q \<in> set [[5, 6], [9 :: u8]]. length q \<le> 2048" by simp
  have p: "published batch_info 0 = []" "nf_events batch_info = []"
    by (simp_all add: published_def batch_info_def sample_defs Let_def)
  show ?thesis
    using txsync_batch [OF sample_api_ok wf c n room k(1-3) s l, of 0] unfolding p k(4) by auto
qed

end
