(* ===== verification/Netback_Thread.thy ===== *)
theory Netback_Thread
  imports Netfront_Rings
begin

text \<open>
  The packet path of the back end, \<open>LINUX/netback_netmap_linux.h\<close>: the flags of
  \<open>struct netmap_vpwrap_adapter\<close>, the interrupt that schedules the kernel thread, the
  thread with the work it does, the sync methods, and the notification of the front end
  when the bridge delivered packets. The sync methods of the bridge port (netmap's) are
  parameters. \<open>v_awake\<close> is whether the thread has been woken since it last slept.
\<close>

section \<open>State\<close>

record netmap_vpwrap_adapter =
  vw_guest_need_rxkick :: u32
  vw_guest_need_txkick :: u32

datatype back_event =
    Notify_front irq
  | Rings_enabled bool
  | Enable_irq u32
  | Disable_irq u32

record xenvif =
  v_carrier :: bool
  v_na_bdg :: bool
  v_vwna :: netmap_vpwrap_adapter
  v_tx_irq :: u32
  v_rx_irq :: u32
  v_tx_kring :: kring
  v_rx_kring :: kring
  v_awake :: bool
  v_events :: "back_event list"

record bridge_api =
  b_txsync_prologue :: "kring \<Rightarrow> kring"
  b_nm_txsync :: "kring \<Rightarrow> kring"
  b_nm_rxsync :: "kring \<Rightarrow> kring"
  b_nm_kr_tryget :: "kring \<Rightarrow> bool \<times> kring"
  b_nm_kr_put :: "kring \<Rightarrow> kring"

definition post :: "back_event list \<Rightarrow> xenvif \<Rightarrow> xenvif" where
  "post es vif = vif\<lparr>v_events := v_events vif @ es\<rparr>"

section \<open>Up and down\<close>

definition xenvif_netmap_up :: "xenvif \<Rightarrow> xenvif" where
  "xenvif_netmap_up vif =
     post ([Rings_enabled True, Enable_irq (v_tx_irq vif)]
           @ (if v_tx_irq vif \<noteq> v_rx_irq vif then [Enable_irq (v_rx_irq vif)] else [])) vif"

definition xenvif_netmap_down :: "xenvif \<Rightarrow> xenvif" where
  "xenvif_netmap_down vif =
     post ([Rings_enabled False, Disable_irq (v_tx_irq vif)]
           @ (if v_tx_irq vif \<noteq> v_rx_irq vif then [Disable_irq (v_rx_irq vif)] else [])) vif"

section \<open>The work of the thread\<close>

text \<open>
  \<open>xenvif_netmap_irq\<close>: the transmit branch in its three steps, and the receive branch,
  which hands the transmit ring to \<open>nm_rxsync\<close>.
\<close>

definition irq_tx_sync :: "bridge_api \<Rightarrow> xenvif \<Rightarrow> xenvif" where
  "irq_tx_sync B vif =
     vif\<lparr>v_tx_kring := b_nm_txsync B (b_txsync_prologue B (v_tx_kring vif))\<rparr>"

definition irq_tx_clear :: "xenvif \<Rightarrow> xenvif" where
  "irq_tx_clear vif = vif\<lparr>v_vwna := (v_vwna vif)\<lparr>vw_guest_need_txkick := 0\<rparr>\<rparr>"

definition irq_tx_notify :: "xenvif \<Rightarrow> xenvif" where
  "irq_tx_notify vif = (if v_tx_irq vif \<noteq> 0 then post [Notify_front Tx_irq] vif else vif)"

definition irq_rx :: "bridge_api \<Rightarrow> xenvif \<Rightarrow> xenvif" where
  "irq_rx B vif =
     vif\<lparr>v_tx_kring := b_nm_rxsync B (v_tx_kring vif),
         v_vwna := (v_vwna vif)\<lparr>vw_guest_need_rxkick := 1\<rparr>\<rparr>"

definition xenvif_netmap_irq :: "bridge_api \<Rightarrow> xenvif \<Rightarrow> int \<Rightarrow> int \<times> xenvif" where
  "xenvif_netmap_irq B vif tx =
     (if tx \<noteq> 0 then (0, irq_tx_notify (irq_tx_clear (irq_tx_sync B vif))) else (0, irq_rx B vif))"

definition xenvif_netmap_irqsched :: "xenvif \<Rightarrow> int \<Rightarrow> int \<times> xenvif" where
  "xenvif_netmap_irqsched vif tx =
     (if \<not> v_carrier vif then (1, vif)
      else if \<not> v_na_bdg vif then (1, vif)
      else (let vif = (if tx \<noteq> 0 then vif\<lparr>v_vwna := (v_vwna vif)\<lparr>vw_guest_need_txkick := 1\<rparr>\<rparr> else vif)
            in (0, vif\<lparr>v_awake := True\<rparr>)))"

definition rx_work_todo :: "netmap_vpwrap_adapter \<Rightarrow> bool" where
  "rx_work_todo vwna \<longleftrightarrow> vw_guest_need_rxkick vwna = 0"

definition tx_work_todo :: "netmap_vpwrap_adapter \<Rightarrow> bool" where
  "tx_work_todo vwna \<longleftrightarrow> vw_guest_need_txkick vwna = 1"

text \<open>One pass of the thread after the wait.\<close>

definition kthread_pass :: "bridge_api \<Rightarrow> xenvif \<Rightarrow> xenvif" where
  "kthread_pass B vif =
     (let vif = (if tx_work_todo (v_vwna vif) then snd (xenvif_netmap_irq B vif 1) else vif)
      in if rx_work_todo (v_vwna vif) then snd (xenvif_netmap_irq B vif 0) else vif)"

text \<open>
  The thread: each element of the list is what happens until the next pass (a change of the
  state by the other contexts) and the answer of \<open>kthread_should_stop\<close>; \<open>None\<close> is a thread
  that is still waiting when the list is used up.
\<close>

fun xenvif_netmap_kthread ::
  "bridge_api \<Rightarrow> ((xenvif \<Rightarrow> xenvif) \<times> bool) list \<Rightarrow> xenvif \<Rightarrow> (int \<times> xenvif) option" where
  "xenvif_netmap_kthread B [] vif = None"
| "xenvif_netmap_kthread B ((env, stop) # rest) vif =
     (let vif = env vif
      in if stop then Some (0, vif)
         else if rx_work_todo (v_vwna vif) \<or> tx_work_todo (v_vwna vif)
              then xenvif_netmap_kthread B rest (kthread_pass B vif)
              else xenvif_netmap_kthread B rest vif)"

section \<open>The sync methods\<close>

definition xenvif_netmap_txsync :: "kring \<Rightarrow> u32 \<Rightarrow> int \<times> kring" where
  "xenvif_netmap_txsync kring flags = (0, kring)"

text \<open>The loop over released slots; a bad buffer is only reported.\<close>

partial_function (option) back_release :: "netmap_api \<Rightarrow> u32 \<Rightarrow> u32 \<Rightarrow> u32 \<Rightarrow> nring \<Rightarrow> nring option" where
  "back_release A lim head nm_i ring =
     (if nm_i = head then Some ring
      else do {
        slot \<leftarrow> arr_get (r_slots ring) (unat nm_i);
        back_release A lim head (nm_next A nm_i lim)
          (ring\<lparr>r_slots := (r_slots ring)[unat nm_i :=
              slot\<lparr>s_flags := s_flags slot AND NOT (NS_BUF_CHANGED A)\<rparr>]\<rparr>)
      })"

definition xenvif_netmap_rxsync ::
  "netmap_api \<Rightarrow> bool \<Rightarrow> kring \<Rightarrow> u32 \<Rightarrow> (int \<times> kring) option" where
  "xenvif_netmap_rxsync A carrier kring flags =
     (let lim = nkr_num_slots kring - 1; head = r_head (k_ring kring)
      in if \<not> carrier then Some (0, kring)
         else if lim < head then Some (0, snd (netmap_ring_reinit A kring))
         else do {
           kring \<leftarrow> (let nm_i = nr_hwcur kring
              in if nm_i \<noteq> head then do {
                   ring \<leftarrow> back_release A lim head nm_i (k_ring kring);
                   Some (kring\<lparr>k_ring := ring, nr_hwcur := head\<rparr>)
                 } else Some kring);
           Some (0, nm_rxsync_finalize A kring)
         })"

text \<open>
  \<open>xenvif_notify\<close>: the guards are that the interface is in netmap mode, the ring is not the
  host ring, there is carrier, and the event is a receive event; the ring must be got. The
  port has one receive ring, whatever number the caller gives.
\<close>

datatype txrx = NR_RX | NR_TX

definition xenvif_notify ::
  "netmap_api \<Rightarrow> bridge_api \<Rightarrow> bool \<Rightarrow> u32 \<Rightarrow> u32 \<Rightarrow> txrx \<Rightarrow> xenvif \<Rightarrow> (int \<times> xenvif) option" where
  "xenvif_notify A B in_netmap num_rx_rings ring_nr tx vif =
     (if \<not> in_netmap then Some (0, vif)
      else if ring_nr = num_rx_rings then Some (0, vif)
      else if \<not> v_carrier vif then Some (0, vif)
      else if tx = NR_TX then Some (0, vif)
      else (let (busy, kring) = b_nm_kr_tryget B (v_rx_kring vif); vif = vif\<lparr>v_rx_kring := kring\<rparr>
            in if busy then Some (0, vif)
               else do {
                 (error, kring) \<leftarrow> xenvif_netmap_rxsync A (v_carrier vif) kring 0;
                 let vif = vif\<lparr>v_rx_kring := kring\<rparr>;
                 let vif = (if vw_guest_need_rxkick (v_vwna vif) \<noteq> 0 then
                     (let vif = vif\<lparr>v_vwna := (v_vwna vif)\<lparr>vw_guest_need_rxkick := 0\<rparr>\<rparr>
                      in if v_rx_irq vif \<noteq> 0 then post [Notify_front Rx_irq] vif else vif)
                   else vif);
                 Some (error, vif\<lparr>v_rx_kring := b_nm_kr_put B (v_rx_kring vif)\<rparr>)
               }))"

section \<open>What the thread and the sync achieve\<close>

lemma back_release_rx_release:
  "rx_release A lim head nm_i ring = Some r \<Longrightarrow> back_release A lim head nm_i ring = Some r"
  by (erule rx_release.raw_induct [rotated], subst back_release.simps)
     (auto simp: bind_eq_Some_conv split: if_splits)

text \<open>One pass of the thread leaves no work: both flags are as after a registration; the
  front end is notified exactly when there was transmit work, and only the transmit ring is
  handed to the bridge.\<close>
lemma kthread_pass_effect:
  assumes "v_tx_irq vif \<noteq> 0"
  shows "\<not> tx_work_todo (v_vwna (kthread_pass B vif)) \<and> \<not> rx_work_todo (v_vwna (kthread_pass B vif))
     \<and> v_events (kthread_pass B vif) =
         v_events vif @ (if tx_work_todo (v_vwna vif) then [Notify_front Tx_irq] else [])
     \<and> v_rx_kring (kthread_pass B vif) = v_rx_kring vif
     \<and> v_tx_kring (kthread_pass B vif) =
         (let k = (if tx_work_todo (v_vwna vif)
                   then b_nm_txsync B (b_txsync_prologue B (v_tx_kring vif)) else v_tx_kring vif)
          in if rx_work_todo (v_vwna vif) then b_nm_rxsync B k else k)"
  using assms
  by (simp add: kthread_pass_def xenvif_netmap_irq_def irq_tx_sync_def irq_tx_clear_def irq_tx_notify_def
      irq_rx_def post_def tx_work_todo_def rx_work_todo_def Let_def)

definition sample_vif :: xenvif where
  "sample_vif = \<lparr>v_carrier = True, v_na_bdg = True,
     v_vwna = \<lparr>vw_guest_need_rxkick = 1, vw_guest_need_txkick = 0\<rparr>,
     v_tx_irq = 3, v_rx_irq = 4, v_tx_kring = sample_kring, v_rx_kring = sample_kring,
     v_awake = False, v_events = []\<rparr>"

definition sample_bridge :: bridge_api where
  "sample_bridge = \<lparr>b_txsync_prologue = \<lambda>k. k, b_nm_txsync = \<lambda>k. k\<lparr>nr_hwcur := r_cur (k_ring k)\<rparr>,
     b_nm_rxsync = \<lambda>k. k, b_nm_kr_tryget = \<lambda>k. (nr_busy k, k\<lparr>nr_busy := True\<rparr>),
     b_nm_kr_put = \<lambda>k. k\<lparr>nr_busy := False\<rparr>\<rparr>"


text \<open>The receive sync of the back end gives back to the kernel the slots from its own
  cursor to the head of the ring: the cursor moves to the head, one flag of each of these
  slots is cleared, and nothing else of the slots changes.\<close>

lemma back_rxsync_releases:
  assumes "api_ok A" "unat (nkr_num_slots k) = length (r_slots (k_ring k))"
    "nr_hwcur k < nkr_num_slots k" "r_head (k_ring k) < nkr_num_slots k"
  obtains ss where "xenvif_netmap_rxsync A True k flags =
       Some (0, nm_rxsync_finalize A (k\<lparr>k_ring := k_ring k\<lparr>r_slots := ss\<rparr>, nr_hwcur := r_head (k_ring k)\<rparr>))"
    "length ss = length (r_slots (k_ring k))"
    "\<forall>i < length ss. ss ! i =
          (if i \<in> set (ring_seq (length (r_slots (k_ring k))) (unat (nr_hwcur k))
                 (ring_dist (length (r_slots (k_ring k))) (unat (nr_hwcur k)) (unat (r_head (k_ring k)))))
           then clear_changed A (r_slots (k_ring k) ! i) else r_slots (k_ring k) ! i)"
proof -
  let ?head = "r_head (k_ring k)" and ?lim = "nkr_num_slots k - 1"
  obtain ss where ss: "rx_release A ?lim ?head (nr_hwcur k) (k_ring k) = Some (k_ring k\<lparr>r_slots := ss\<rparr>)"
    "length ss = length (r_slots (k_ring k))"
    "\<forall>i < length ss. ss ! i =
       (if i \<in> set (ring_seq (unat (nkr_num_slots k)) (unat (nr_hwcur k))
              (ring_dist (unat (nkr_num_slots k)) (unat (nr_hwcur k)) (unat ?head)))
        then clear_changed A (r_slots (k_ring k) ! i) else r_slots (k_ring k) ! i)"
    using rx_release_slots [OF assms(1,2,3,4)] by blast
  define k1 where "k1 = k\<lparr>k_ring := k_ring k\<lparr>r_slots := ss\<rparr>, nr_hwcur := ?head\<rparr>"
  have "(if nr_hwcur k \<noteq> ?head then do {
           ring \<leftarrow> back_release A ?lim ?head (nr_hwcur k) (k_ring k);
           Some (k\<lparr>k_ring := ring, nr_hwcur := ?head\<rparr>)
         } else Some k) = Some k1"
  proof (cases "nr_hwcur k = ?head")
    case True
    then have "k_ring k\<lparr>r_slots := ss\<rparr> = k_ring k" using ss(1) by (simp add: rx_release_done)
    then show ?thesis using True by (simp add: k1_def)
  next
    case False
    then show ?thesis using back_release_rx_release [OF ss(1)] by (simp add: k1_def)
  qed
  moreover have "\<not> ?lim < ?head" using less_le_lim [OF assms(4)] by simp
  ultimately have "xenvif_netmap_rxsync A True k flags = Some (0, nm_rxsync_finalize A k1)"
    by (simp add: xenvif_netmap_rxsync_def Let_def)
  then show thesis using that ss(2,3) assms(2) by (simp add: k1_def)
qed

end
