(* ===== verification/Kick_Protocol.thy ===== *)
theory Kick_Protocol
  imports Netback_Thread
begin

text \<open>
  The two drivers together: how the kick flags of the front end (\<open>struct netfront_csb\<close>), the
  four event channel directions, the flags of the back end and its thread hand the right to
  notify back and forth. A step is one call of a handler of the components as modelled in
  \<open>Netfront_Rings\<close> and \<open>Netback_Thread\<close>; the transmit work of the thread takes the three
  steps of the code (sync, clear, notify), so that events can arrive between them. A
  pending event channel is a bit, as in Xen; the contents of the rings may change at any
  time. \<open>p_unsynced\<close> records that the front end has published a packet and the thread has
  not synced the ring since.
\<close>

section \<open>State and steps\<close>

datatype phase = Idle | Synced | Cleared

record proto =
  p_front :: netmap_info
  p_back :: xenvif
  p_to_back_tx :: bool
  p_to_back_rx :: bool
  p_to_front_tx :: bool
  p_to_front_rx :: bool
  p_phase :: phase
  p_unsynced :: bool

text \<open>Whether a call notified the other side: the new events at the end of the trace.\<close>

definition front_notified :: "irq \<Rightarrow> netmap_info \<Rightarrow> netmap_info \<Rightarrow> bool" where
  "front_notified e np np' \<longleftrightarrow> Notify e \<in> set (drop (length (nf_events np)) (nf_events np'))"

definition back_notified :: "irq \<Rightarrow> xenvif \<Rightarrow> xenvif \<Rightarrow> bool" where
  "back_notified e vif vif' \<longleftrightarrow> Notify_front e \<in> set (drop (length (v_events vif)) (v_events vif'))"

definition work_todo :: "xenvif \<Rightarrow> bool" where
  "work_todo vif \<longleftrightarrow> tx_work_todo (v_vwna vif) \<or> rx_work_todo (v_vwna vif)"

text \<open>The handlers that only wait for their turn: the delivery of an event, the steps of the thread.\<close>

inductive hstep :: "bridge_api \<Rightarrow> proto \<Rightarrow> proto \<Rightarrow> bool" for B where
  back_tx: "p_to_back_tx s \<Longrightarrow>
    hstep B s (s\<lparr>p_to_back_tx := False, p_back := snd (xenvif_netmap_irqsched (p_back s) 1)\<rparr>)"
| back_rx: "p_to_back_rx s \<Longrightarrow>
    hstep B s (s\<lparr>p_to_back_rx := False, p_back := snd (xenvif_netmap_irqsched (p_back s) 0)\<rparr>)"
| front_tx: "p_to_front_tx s \<Longrightarrow>
    hstep B s (s\<lparr>p_to_front_tx := False, p_front := netfront_tx_interrupt (p_front s)\<rparr>)"
| front_rx: "p_to_front_rx s \<Longrightarrow>
    hstep B s (s\<lparr>p_to_front_rx := False, p_front := netfront_rx_interrupt (p_front s)\<rparr>)"
| thread_sync: "p_phase s = Idle \<Longrightarrow> v_awake (p_back s) \<Longrightarrow> tx_work_todo (v_vwna (p_back s)) \<Longrightarrow>
    hstep B s (s\<lparr>p_phase := Synced, p_back := irq_tx_sync B (p_back s), p_unsynced := False\<rparr>)"
| thread_clear: "p_phase s = Synced \<Longrightarrow>
    hstep B s (s\<lparr>p_phase := Cleared, p_back := irq_tx_clear (p_back s)\<rparr>)"
| thread_notify: "p_phase s = Cleared \<Longrightarrow> vif' = irq_tx_notify (p_back s) \<Longrightarrow>
    hstep B s (s\<lparr>p_phase := Idle, p_back := vif',
                   p_to_front_tx := p_to_front_tx s \<or> back_notified Tx_irq (p_back s) vif'\<rparr>)"
| thread_rx: "p_phase s = Idle \<Longrightarrow> v_awake (p_back s) \<Longrightarrow> rx_work_todo (v_vwna (p_back s)) \<Longrightarrow>
    hstep B s (s\<lparr>p_back := irq_rx B (p_back s)\<rparr>)"
| thread_sleep: "p_phase s = Idle \<Longrightarrow> v_awake (p_back s) \<Longrightarrow> \<not> work_todo (p_back s) \<Longrightarrow>
    hstep B s (s\<lparr>p_back := (p_back s)\<lparr>v_awake := False\<rparr>\<rparr>)"

text \<open>All steps: the users of the rings and the bridge come in at any time.\<close>

inductive pstep :: "netmap_api \<Rightarrow> bridge_api \<Rightarrow> proto \<Rightarrow> proto \<Rightarrow> bool" for A B where
  xmit: "netfront_netmap_xmit A (p_front s) buf len = Some (r, np') \<Longrightarrow>
    pstep A B s (s\<lparr>p_front := np', p_to_back_tx := p_to_back_tx s \<or> front_notified Tx_irq (p_front s) np',
                   p_unsynced := p_unsynced s \<or> front_notified Tx_irq (p_front s) np'\<rparr>)"
| rxsync: "netfront_netmap_rxsync A (p_front s) k flags = Some (r, k', np') \<Longrightarrow>
    pstep A B s (s\<lparr>p_front := np', p_to_back_rx := p_to_back_rx s \<or> front_notified Rx_irq (p_front s) np'\<rparr>)"
| bridge: "xenvif_notify A B mode n nr dir (p_back s) = Some (e, vif') \<Longrightarrow>
    pstep A B s (s\<lparr>p_back := vif', p_to_front_rx := p_to_front_rx s \<or> back_notified Rx_irq (p_back s) vif'\<rparr>)"
| rings: "pstep A B s (s\<lparr>p_front := (p_front s)\<lparr>ni_tx_rings := tr, ni_rx_rings := rr, ni_tx_bufs := tb,
                                     ni_rx_bufs := rb, nf_mem := mem\<rparr>,
                         p_back := (p_back s)\<lparr>v_tx_kring := tk, v_rx_kring := rk\<rparr>\<rparr>)"
| handler: "hstep B s s' \<Longrightarrow> pstep A B s s'"

inductive preach :: "netmap_api \<Rightarrow> bridge_api \<Rightarrow> proto \<Rightarrow> proto \<Rightarrow> bool" for A B where
  start: "preach A B s s"
| step: "preach A B s t \<Longrightarrow> pstep A B t u \<Longrightarrow> preach A B s u"

text \<open>What every step keeps holds in every state that is reached.\<close>

locale kept_by_steps =
  fixes A :: netmap_api and B :: bridge_api and inv :: "proto \<Rightarrow> bool"
  assumes keep: "pstep A B s s' \<Longrightarrow> inv s \<Longrightarrow> inv s'"
begin

lemma reached: "preach A B s s' \<Longrightarrow> inv s \<Longrightarrow> inv s'"
  by (induction rule: preach.induct) (auto intro: keep)

end

text \<open>
  The state after \<open>setup_netfront_netmap\<close> and the registration of the back end, and the
  state after \<open>netfront_netmap_attach\<close>, which notifies the back end on both channels.
\<close>

definition pinit :: "proto \<Rightarrow> bool" where
  "pinit s \<longleftrightarrow>
     nf_carrier (p_front s) \<and> v_carrier (p_back s) \<and> v_na_bdg (p_back s)
   \<and> v_tx_irq (p_back s) \<noteq> 0 \<and> v_rx_irq (p_back s) \<noteq> 0
   \<and> host_need_txkick (ni_stat (p_front s)) = 1 \<and> guest_need_txkick (ni_stat (p_front s)) = 0
   \<and> host_need_rxkick (ni_stat (p_front s)) = 0 \<and> guest_need_rxkick (ni_stat (p_front s)) = 1
   \<and> v_vwna (p_back s) = \<lparr>vw_guest_need_rxkick = 1, vw_guest_need_txkick = 0\<rparr>
   \<and> \<not> p_to_back_tx s \<and> \<not> p_to_back_rx s \<and> \<not> p_to_front_tx s \<and> \<not> p_to_front_rx s
   \<and> p_phase s = Idle \<and> \<not> p_unsynced s"

definition attached :: "proto \<Rightarrow> proto" where
  "attached s = s\<lparr>p_to_back_tx := True, p_to_back_rx := True\<rparr>"

section \<open>What the handlers do to the flags\<close>

lemma xmit_flags:
  assumes "netfront_netmap_xmit A np buf len = Some (r, np')"
  shows "nf_carrier np' = nf_carrier np \<and> host_need_rxkick (ni_stat np') = host_need_rxkick (ni_stat np)
     \<and> (if front_notified Tx_irq np np'
        then host_need_txkick (ni_stat np) \<noteq> 0 \<and> host_need_txkick (ni_stat np') = 0
        else host_need_txkick (ni_stat np') = host_need_txkick (ni_stat np))"
  using assms
  by (cases "host_need_txkick (ni_stat np) = 0")
     (auto simp: netfront_netmap_xmit_def front_notified_def notify_def bind_eq_Some_conv Let_def
      split: if_splits)

lemma rx_first_part_flags:
  assumes "rx_first_part A np k = Some (ok, k', np')"
  shows "nf_carrier np' = nf_carrier np \<and> host_need_txkick (ni_stat np') = host_need_txkick (ni_stat np)
     \<and> (if front_notified Rx_irq np np'
        then host_need_rxkick (ni_stat np) \<noteq> 0 \<and> host_need_rxkick (ni_stat np') = 0
        else host_need_rxkick (ni_stat np') = host_need_rxkick (ni_stat np))"
proof -
  obtain y where y: "rx_import A np (nkr_num_slots k - 1) (nm_prev A (nr_hwcur k) (nkr_num_slots k - 1))
      (nkr_slot_flags k) (k_ring k) (nf_mem np) (nr_hwtail k) 0 (r_cur (ni_rx_rings np))
      (nm_ring_space (ni_rx_rings np)) = Some y"
    using assms by (auto simp: rx_first_part_def Let_def bind_eq_Some_conv)
  show ?thesis
  proof (cases y)
    case (Bad_buffer ring mem)
    then show ?thesis using assms y by (auto simp: rx_first_part_def Let_def front_notified_def)
  next
    case (Imported ring mem nm_i n cur)
    then show ?thesis using assms y
      by (cases "host_need_rxkick (ni_stat np) = 0")
         (auto simp: rx_first_part_def Let_def front_notified_def notify_def split: if_splits)
  qed
qed

lemma rxsync_flags:
  assumes "netfront_netmap_rxsync A np k flags = Some (r, k', np')"
  shows "nf_carrier np' = nf_carrier np \<and> host_need_txkick (ni_stat np') = host_need_txkick (ni_stat np)
     \<and> (if front_notified Rx_irq np np'
        then host_need_rxkick (ni_stat np) \<noteq> 0 \<and> host_need_rxkick (ni_stat np') = 0
        else host_need_rxkick (ni_stat np') = host_need_rxkick (ni_stat np))"
proof (cases "np' = np")
  case True
  then show ?thesis by (simp add: front_notified_def)
next
  case False
  then obtain ok k1 k2 where "rx_first_part A np k1 = Some (ok, k2, np')"
    using assms
    by (auto simp: netfront_netmap_rxsync_def bind_eq_Some_conv Let_def
        split: prod.splits if_splits)
  then show ?thesis by (rule rx_first_part_flags)
qed

lemma tx_interrupt_flags:
  "nf_carrier np \<Longrightarrow> nf_carrier (netfront_tx_interrupt np)
     \<and> host_need_txkick (ni_stat (netfront_tx_interrupt np)) = 1
     \<and> host_need_rxkick (ni_stat (netfront_tx_interrupt np)) = host_need_rxkick (ni_stat np)"
  by (simp add: netfront_tx_interrupt_def wake_def)

lemma rx_interrupt_flags:
  "nf_carrier np \<Longrightarrow> nf_carrier (netfront_rx_interrupt np)
     \<and> host_need_rxkick (ni_stat (netfront_rx_interrupt np)) = 1
     \<and> host_need_txkick (ni_stat (netfront_rx_interrupt np)) = host_need_txkick (ni_stat np)"
  by (simp add: netfront_rx_interrupt_def wake_def)

text \<open>The part of the back end that no handler changes.\<close>

definition back_up :: "xenvif \<Rightarrow> bool" where
  "back_up vif \<longleftrightarrow> v_carrier vif \<and> v_na_bdg vif \<and> v_tx_irq vif \<noteq> 0 \<and> v_rx_irq vif \<noteq> 0"

lemma irqsched_flags:
  "back_up vif \<Longrightarrow> back_up (snd (xenvif_netmap_irqsched vif tx))
     \<and> v_awake (snd (xenvif_netmap_irqsched vif tx))
     \<and> v_vwna (snd (xenvif_netmap_irqsched vif tx)) =
         (if tx \<noteq> 0 then (v_vwna vif)\<lparr>vw_guest_need_txkick := 1\<rparr> else v_vwna vif)"
  by (simp add: xenvif_netmap_irqsched_def back_up_def)

lemma irq_flags [simp]:
  "back_up (irq_tx_sync B vif) = back_up vif" "v_vwna (irq_tx_sync B vif) = v_vwna vif"
  "v_awake (irq_tx_sync B vif) = v_awake vif"
  "back_up (irq_tx_clear vif) = back_up vif"
  "v_vwna (irq_tx_clear vif) = (v_vwna vif)\<lparr>vw_guest_need_txkick := 0\<rparr>"
  "v_awake (irq_tx_clear vif) = v_awake vif"
  "back_up (irq_tx_notify vif) = back_up vif" "v_vwna (irq_tx_notify vif) = v_vwna vif"
  "v_awake (irq_tx_notify vif) = v_awake vif"
  "back_up (irq_rx B vif) = back_up vif"
  "v_vwna (irq_rx B vif) = (v_vwna vif)\<lparr>vw_guest_need_rxkick := 1\<rparr>"
  "v_awake (irq_rx B vif) = v_awake vif"
  by (simp_all add: irq_tx_sync_def irq_tx_clear_def irq_tx_notify_def irq_rx_def post_def back_up_def)

lemma irq_tx_notify_notifies: "back_up vif \<Longrightarrow> back_notified Tx_irq vif (irq_tx_notify vif)"
  by (simp add: back_notified_def irq_tx_notify_def post_def back_up_def)

lemma bridge_flags:
  assumes "xenvif_notify A B mode n nr dir vif = Some (e, vif')"
  shows "(back_up vif \<longrightarrow> back_up vif') \<and> v_awake vif' = v_awake vif
     \<and> vw_guest_need_txkick (v_vwna vif') = vw_guest_need_txkick (v_vwna vif)
     \<and> (vw_guest_need_rxkick (v_vwna vif') = vw_guest_need_rxkick (v_vwna vif)
        \<or> (back_up vif \<longrightarrow> back_notified Rx_irq vif vif'))"
  using assms
  by (cases "b_nm_kr_tryget B (v_rx_kring vif)")
     (auto simp: xenvif_notify_def back_notified_def post_def back_up_def bind_eq_Some_conv Let_def
      split: if_splits)

section \<open>The right to notify is never lost\<close>

text \<open>
  Where the right to notify in the transmit direction can be: with the front end, on the way
  to the back end, with the thread, or on the way to the front end.
\<close>

definition tx_tokens :: "proto \<Rightarrow> nat" where
  "tx_tokens s =
     of_bool (host_need_txkick (ni_stat (p_front s)) \<noteq> 0) + of_bool (p_to_back_tx s)
   + of_bool (vw_guest_need_txkick (v_vwna (p_back s)) = 1) + of_bool (p_phase s = Cleared)
   + of_bool (p_to_front_tx s)"

lemma of_bool_Suc_0 [simp]: "of_bool P = Suc 0 \<longleftrightarrow> P"
  by (cases P) simp_all

definition kick_inv :: "proto \<Rightarrow> bool" where
  "kick_inv s \<longleftrightarrow>
     nf_carrier (p_front s) \<and> back_up (p_back s)
   \<and> (p_phase s = Synced \<longrightarrow> vw_guest_need_txkick (v_vwna (p_back s)) = 1)
   \<and> (vw_guest_need_txkick (v_vwna (p_back s)) = 1 \<longrightarrow> v_awake (p_back s))
   \<and> 0 < tx_tokens s
   \<and> (vw_guest_need_rxkick (v_vwna (p_back s)) \<noteq> 0 \<or> p_to_front_rx s
      \<or> host_need_rxkick (ni_stat (p_front s)) \<noteq> 0 \<or> p_to_back_rx s \<or> v_awake (p_back s))"

lemma kick_inv_init: "pinit s \<Longrightarrow> kick_inv s" "pinit s \<Longrightarrow> kick_inv (attached s)"
  by (simp_all add: pinit_def attached_def kick_inv_def back_up_def tx_tokens_def)

lemma hstep_kick_inv:
  assumes "hstep B s s'" "kick_inv s"
  shows "kick_inv s'"
  using assms
proof (cases rule: hstep.cases)
  case back_tx
  then show ?thesis using assms(2) irqsched_flags [of "p_back s" 1]
    by (auto simp: kick_inv_def tx_tokens_def)
next
  case back_rx
  then show ?thesis using assms(2) irqsched_flags [of "p_back s" 0]
    by (auto simp: kick_inv_def tx_tokens_def)
next
  case front_tx
  then show ?thesis using assms(2) tx_interrupt_flags [of "p_front s"]
    by (auto simp: kick_inv_def tx_tokens_def)
next
  case front_rx
  then show ?thesis using assms(2) rx_interrupt_flags [of "p_front s"]
    by (auto simp: kick_inv_def tx_tokens_def)
next
  case thread_sync
  then show ?thesis using assms(2) by (auto simp: kick_inv_def tx_tokens_def tx_work_todo_def)
next
  case thread_clear
  then show ?thesis using assms(2) by (auto simp: kick_inv_def tx_tokens_def)
next
  case (thread_notify vif')
  then show ?thesis using assms(2) irq_tx_notify_notifies [of "p_back s"]
    by (auto simp: kick_inv_def tx_tokens_def)
next
  case thread_rx
  then show ?thesis using assms(2) by (auto simp: kick_inv_def tx_tokens_def)
next
  case thread_sleep
  then show ?thesis using assms(2)
    by (auto simp: kick_inv_def tx_tokens_def back_up_def work_todo_def tx_work_todo_def rx_work_todo_def)
qed

lemma pstep_kick_inv:
  assumes "pstep A B s s'" "kick_inv s"
  shows "kick_inv s'"
  using assms
proof (cases rule: pstep.cases)
  case (xmit buf len r np')
  then show ?thesis using assms(2) xmit_flags [OF xmit(2)]
    by (auto simp: kick_inv_def tx_tokens_def split: if_splits)
next
  case (rxsync k flags r k' np')
  then show ?thesis using assms(2) rxsync_flags [OF rxsync(2)]
    by (auto simp: kick_inv_def tx_tokens_def split: if_splits)
next
  case (bridge mode n nr dir e vif')
  then show ?thesis using assms(2) bridge_flags [OF bridge(2)]
    by (auto simp: kick_inv_def tx_tokens_def)
next
  case (rings tr rr tb rb mem tk rk)
  then show ?thesis using assms(2)
    by (auto simp: kick_inv_def tx_tokens_def back_up_def)
next
  case handler
  then show ?thesis using assms(2) hstep_kick_inv by blast
qed

interpretation kick: kept_by_steps A B kick_inv for A B
  by unfold_locales (rule pstep_kick_inv)

text \<open>C8: However the handlers, the thread and the event channels interleave after the set-up,
  with or without the notifications of the attach, the right to notify is never lost: the
  front end may kick, or an event or the thread is about to hand the right on; and in the
  receive direction the back end may notify, or an event, a pending sync of the front end or
  the woken thread will let it.\<close>
theorem kick_never_lost:
  assumes "pinit s0" "preach A B s0 s \<or> preach A B (attached s0) s"
  shows "(host_need_txkick (ni_stat (p_front s)) \<noteq> 0 \<or> p_to_back_tx s \<or> p_phase s \<noteq> Idle
           \<or> (v_awake (p_back s) \<and> tx_work_todo (v_vwna (p_back s))) \<or> p_to_front_tx s)
     \<and> (vw_guest_need_rxkick (v_vwna (p_back s)) \<noteq> 0 \<or> p_to_front_rx s
         \<or> host_need_rxkick (ni_stat (p_front s)) \<noteq> 0 \<or> p_to_back_rx s
         \<or> (v_awake (p_back s) \<and> rx_work_todo (v_vwna (p_back s))))"
proof -
  have "kick_inv s" using assms kick_inv_init kick.reached by blast
  then show ?thesis
    by (auto simp: kick_inv_def tx_tokens_def tx_work_todo_def rx_work_todo_def split: if_splits)
qed

text \<open>With exactly one right in the transmit direction, published packets are not forgotten.\<close>

definition one_token_inv :: "proto \<Rightarrow> bool" where
  "one_token_inv s \<longleftrightarrow> kick_inv s \<and> tx_tokens s = 1
     \<and> (p_unsynced s \<longrightarrow> p_to_back_tx s \<or> (p_phase s = Idle \<and> tx_work_todo (v_vwna (p_back s))))"

lemma one_token_init: "pinit s \<Longrightarrow> one_token_inv s"
  using kick_inv_init(1) by (simp add: one_token_inv_def pinit_def tx_tokens_def)

lemma hstep_one_token:
  assumes "hstep B s s'" "one_token_inv s"
  shows "one_token_inv s'"
proof -
  have k: "kick_inv s" and k': "kick_inv s'"
    using assms hstep_kick_inv by (simp_all add: one_token_inv_def)
  note i = assms(2) k
  from assms(1) show ?thesis
  proof (cases rule: hstep.cases)
    case back_tx
    then have "p_phase s = Idle" "vw_guest_need_txkick (v_vwna (p_back s)) \<noteq> 1"
      using i by (cases "p_phase s"; auto simp: one_token_inv_def tx_tokens_def kick_inv_def)+
    then show ?thesis using back_tx i k' irqsched_flags [of "p_back s" 1]
      by (auto simp: one_token_inv_def tx_tokens_def tx_work_todo_def kick_inv_def)
  next
    case back_rx
    then show ?thesis using i k' irqsched_flags [of "p_back s" 0]
      by (auto simp: one_token_inv_def tx_tokens_def kick_inv_def)
  next
    case front_tx
    then show ?thesis using i k' tx_interrupt_flags [of "p_front s"]
      by (auto simp: one_token_inv_def tx_tokens_def kick_inv_def)
  next
    case front_rx
    then show ?thesis using i k' rx_interrupt_flags [of "p_front s"]
      by (auto simp: one_token_inv_def tx_tokens_def kick_inv_def)
  next
    case thread_sync
    then show ?thesis using i k' by (auto simp: one_token_inv_def tx_tokens_def tx_work_todo_def)
  next
    case thread_clear
    then have "vw_guest_need_txkick (v_vwna (p_back s)) = 1" using k by (simp add: kick_inv_def)
    then show ?thesis using thread_clear i k'
      by (auto simp: one_token_inv_def tx_tokens_def)
  next
    case (thread_notify vif')
    then show ?thesis using i k' irq_tx_notify_notifies [of "p_back s"]
      by (auto simp: one_token_inv_def tx_tokens_def kick_inv_def)
  next
    case thread_rx
    then show ?thesis using i k' by (auto simp: one_token_inv_def tx_tokens_def tx_work_todo_def)
  next
    case thread_sleep
    then show ?thesis using i k' by (auto simp: one_token_inv_def tx_tokens_def)
  qed
qed

lemma pstep_one_token:
  assumes "pstep A B s s'" "one_token_inv s"
  shows "one_token_inv s'"
proof -
  have k: "kick_inv s" and k': "kick_inv s'"
    using assms pstep_kick_inv by (simp_all add: one_token_inv_def)
  note i = assms(2) k
  from assms(1) show ?thesis
  proof (cases rule: pstep.cases)
    case (xmit buf len r np')
    then show ?thesis using i k' xmit_flags [OF xmit(2)]
      by (auto simp: one_token_inv_def tx_tokens_def tx_work_todo_def split: if_splits)
  next
    case (rxsync k flags r k1 np')
    then show ?thesis using i k' rxsync_flags [OF rxsync(2)]
      by (auto simp: one_token_inv_def tx_tokens_def)
  next
    case (bridge mode n nr dir e vif')
    then show ?thesis using i k' bridge_flags [OF bridge(2)]
      by (auto simp: one_token_inv_def tx_tokens_def tx_work_todo_def)
  next
    case (rings tr rr tb rb mem tk rk)
    then show ?thesis using i k' by (auto simp: one_token_inv_def tx_tokens_def)
  next
    case handler
    then show ?thesis using assms(2) hstep_one_token by blast
  qed
qed

interpretation token: kept_by_steps A B one_token_inv for A B
  by unfold_locales (rule pstep_one_token)

lemma sync_follows:
  assumes "one_token_inv s" "p_unsynced s"
  shows "\<exists>s1 s2. (s1 = s \<or> hstep B s s1) \<and> hstep B s1 s2 \<and> \<not> p_unsynced s2 \<and> p_front s2 = p_front s"
proof (cases "p_to_back_tx s")
  case True
  let ?vif = "snd (xenvif_netmap_irqsched (p_back s) 1)"
  let ?s1 = "s\<lparr>p_to_back_tx := False, p_back := ?vif\<rparr>"
  have "p_phase s = Idle" using assms(1) True
    by (cases "p_phase s") (auto simp: one_token_inv_def tx_tokens_def kick_inv_def)
  moreover have "v_awake ?vif" "tx_work_todo (v_vwna ?vif)"
    using assms(1) irqsched_flags [of "p_back s" 1]
    by (simp_all add: one_token_inv_def kick_inv_def tx_work_todo_def)
  ultimately have "hstep B ?s1 (?s1\<lparr>p_phase := Synced, p_back := irq_tx_sync B ?vif, p_unsynced := False\<rparr>)"
    using hstep.thread_sync [of ?s1 B] by simp
  then show ?thesis using hstep.back_tx [OF True, of B] by fastforce
next
  case False
  then have "p_phase s = Idle" "v_awake (p_back s)" "tx_work_todo (v_vwna (p_back s))"
    using assms by (auto simp: one_token_inv_def kick_inv_def tx_work_todo_def)
  then show ?thesis using hstep.thread_sync [of s B] by fastforce
qed

text \<open>C13: If nothing but a wanted kick starts the exchange, the right to notify of the
  transmit direction is in exactly one place at any time, and a published packet is never
  stuck: as long as it waits for a sync, a delivery of the pending event at most and one step
  of the thread sync it, without any help from the front end.\<close>
theorem published_will_sync:
  assumes "pinit s0" "preach A B s0 s"
  shows "tx_tokens s = 1
     \<and> (p_unsynced s \<longrightarrow>
         (\<exists>s1 s2. (s1 = s \<or> hstep B s s1) \<and> hstep B s1 s2 \<and> \<not> p_unsynced s2 \<and> p_front s2 = p_front s))"
proof -
  have "one_token_inv s" using assms one_token_init token.reached by blast
  then show ?thesis using sync_follows by (simp add: one_token_inv_def)
qed

text \<open>Nothing is on its way and nobody has anything to do.\<close>

definition quiescent :: "proto \<Rightarrow> bool" where
  "quiescent s \<longleftrightarrow> \<not> p_to_back_tx s \<and> \<not> p_to_back_rx s \<and> \<not> p_to_front_tx s \<and> \<not> p_to_front_rx s
     \<and> p_phase s = Idle \<and> \<not> v_awake (p_back s) \<and> \<not> work_todo (p_back s)"

definition sample_proto :: proto where
  "sample_proto = \<lparr>p_front = sample_info\<lparr>ni_stat := sample_csb\<lparr>host_need_rxkick := 0, guest_need_rxkick := 1\<rparr>\<rparr>,
     p_back = sample_vif, p_to_back_tx = False, p_to_back_rx = False, p_to_front_tx = False,
     p_to_front_rx = False, p_phase = Idle, p_unsynced = False\<rparr>"

lemma sample_pinit: "pinit sample_proto"
  by (simp add: pinit_def sample_proto_def sample_vif_def sample_defs)

theorem kick_never_lost_witness:
  "host_need_txkick (ni_stat (p_front sample_proto)) \<noteq> 0 \<and> vw_guest_need_rxkick (v_vwna (p_back sample_proto)) \<noteq> 0"
proof -
  have idle: "\<not> p_to_back_tx sample_proto" "p_phase sample_proto = Idle" "\<not> v_awake (p_back sample_proto)"
    "\<not> p_to_front_tx sample_proto" "\<not> p_to_front_rx sample_proto" "\<not> p_to_back_rx sample_proto"
    "host_need_rxkick (ni_stat (p_front sample_proto)) = 0"
    by (simp_all add: sample_proto_def sample_vif_def sample_csb_def)
  have "preach sample_api sample_bridge sample_proto sample_proto" by (rule preach.start)
  then show ?thesis
    using kick_never_lost [OF sample_pinit disjI1, of sample_api sample_bridge sample_proto] idle by simp
qed

theorem published_will_sync_witness:
  "tx_tokens sample_proto = 1"
  using published_will_sync [OF sample_pinit, of sample_api sample_bridge sample_proto]
    preach.start [of sample_api sample_bridge sample_proto] by blast

text \<open>C14: After the notifications of the attach there is a run that ends with a published
  packet that nobody will sync: the thread syncs the ring, the front end publishes a packet
  and kicks, the event sets the flag, and then the thread clears the flag.\<close>
theorem lost_wakeup:
  "\<exists>s. preach sample_api sample_bridge (attached sample_proto) s \<and> quiescent s \<and> p_unsynced s
     \<and> published (p_front s) 0 = [Some [5]]"
proof -
  let ?step = "pstep sample_api sample_bridge"
  define np where "np = p_front sample_proto"
  have wf: "wf_tx np" "tx_in_sync np" using sample_wf_tx
    by (simp_all add: np_def sample_proto_def wf_tx_def tx_cells_def tx_in_sync_def sample_csb_def sample_info_def)
  have c: "host_need_txkick (ni_stat np) \<noteq> 0" "r_cur (ni_tx_rings np) \<noteq> r_tail (ni_tx_rings np)"
    "unat (1 :: u32) \<le> BUF_SIZE" "unat (1 :: u32) \<le> length [5 :: u8]" "0 < length (r_slots (ni_tx_rings np))"
    "ring_dist (length (r_slots (ni_tx_rings np))) 0 (unat (r_cur (ni_tx_rings np))) + 1
       < length (r_slots (ni_tx_rings np))" "nf_carrier np" "published np 0 = []"
    by (simp_all add: np_def sample_proto_def sample_defs BUF_SIZE_def published_def Let_def)
  obtain np' where x: "netfront_netmap_xmit sample_api np [5] 1 = Some (1, np')"
    and e: "nf_events np' = nf_events np @ [Notify Tx_irq]" "nf_carrier np'" "published np' 0 = [Some [5]]"
    using xmit_publishes [OF sample_api_ok wf c(1-6)] c(7,8) by auto
  have noti: "front_notified Tx_irq np np'" by (simp add: front_notified_def e)
  let ?s0 = "attached sample_proto"
  define s1 where "s1 = ?s0\<lparr>p_to_back_tx := False, p_back := snd (xenvif_netmap_irqsched (p_back ?s0) 1)\<rparr>"
  define s2 where "s2 = s1\<lparr>p_to_back_rx := False, p_back := snd (xenvif_netmap_irqsched (p_back s1) 0)\<rparr>"
  define s3 where "s3 = s2\<lparr>p_phase := Synced, p_back := irq_tx_sync sample_bridge (p_back s2), p_unsynced := False\<rparr>"
  define s4 where "s4 = s3\<lparr>p_front := np', p_to_back_tx := True, p_unsynced := True\<rparr>"
  define s5 where "s5 = s4\<lparr>p_to_back_tx := False, p_back := snd (xenvif_netmap_irqsched (p_back s4) 1)\<rparr>"
  define s6 where "s6 = s5\<lparr>p_phase := Cleared, p_back := irq_tx_clear (p_back s5)\<rparr>"
  define s7 where "s7 = s6\<lparr>p_phase := Idle, p_back := irq_tx_notify (p_back s6), p_to_front_tx := True\<rparr>"
  define s8 where "s8 = s7\<lparr>p_to_front_tx := False, p_front := netfront_tx_interrupt (p_front s7)\<rparr>"
  define s9 where "s9 = s8\<lparr>p_back := (p_back s8)\<lparr>v_awake := False\<rparr>\<rparr>"
  have up: "back_up (p_back s6)"
    by (simp add: s6_def s5_def s4_def s3_def s2_def s1_def attached_def sample_proto_def sample_vif_def
        xenvif_netmap_irqsched_def) (simp add: back_up_def irq_tx_sync_def)
  have 1: "?step ?s0 s1" unfolding s1_def by (rule pstep.handler, rule hstep.back_tx) (simp add: attached_def)
  have 2: "?step s1 s2" unfolding s2_def by (rule pstep.handler, rule hstep.back_rx) (simp add: s1_def attached_def)
  have 3: "?step s2 s3" unfolding s3_def
    by (rule pstep.handler, rule hstep.thread_sync)
       (simp_all add: s2_def s1_def attached_def sample_proto_def sample_vif_def xenvif_netmap_irqsched_def
          tx_work_todo_def)
  have "p_front s3 = np" by (simp add: s3_def s2_def s1_def attached_def np_def)
  then have 4: "?step s3 s4" unfolding s4_def
    using pstep.xmit [of sample_api s3 "[5]" 1 1 np' sample_bridge] x noti by simp
  have 5: "?step s4 s5" unfolding s5_def by (rule pstep.handler, rule hstep.back_tx) (simp add: s4_def)
  have 6: "?step s5 s6" unfolding s6_def
    by (rule pstep.handler, rule hstep.thread_clear) (simp add: s5_def s4_def s3_def)
  have 7: "?step s6 s7" unfolding s7_def
    using pstep.handler [OF hstep.thread_notify [of s6 "irq_tx_notify (p_back s6)" sample_bridge], of sample_api]
      irq_tx_notify_notifies [OF up] by (simp add: s6_def)
  have 8: "?step s7 s8" unfolding s8_def by (rule pstep.handler, rule hstep.front_tx) (simp add: s7_def)
  have w: "\<not> work_todo (p_back s8)" "p_phase s8 = Idle" "v_awake (p_back s8)"
    by (simp_all add: s8_def s7_def s6_def s5_def s4_def s3_def s2_def s1_def attached_def sample_proto_def
        sample_vif_def xenvif_netmap_irqsched_def irq_tx_sync_def work_todo_def tx_work_todo_def rx_work_todo_def
        irq_tx_clear_def irq_tx_notify_def post_def)
  have 9: "?step s8 s9" unfolding s9_def by (rule pstep.handler, rule hstep.thread_sleep) (use w in simp_all)
  have "preach sample_api sample_bridge ?s0 s9"
    by (rule preach.step [OF preach.step [OF preach.step [OF preach.step [OF preach.step [OF preach.step
          [OF preach.step [OF preach.step [OF preach.step [OF preach.start 1] 2] 3] 4] 5] 6] 7] 8] 9])
  moreover have "quiescent s9"
    using w by (simp add: quiescent_def s9_def work_todo_def)
      (simp add: s8_def s7_def s6_def s5_def s4_def s3_def s2_def s1_def attached_def sample_proto_def)
  moreover have "p_unsynced s9" by (simp add: s9_def s8_def s7_def s6_def s5_def s4_def)
  moreover have "published (p_front s9) 0 = [Some [5]]"
    using e by (simp add: s9_def s8_def s7_def s6_def s5_def s4_def netfront_tx_interrupt_def wake_def
        published_def tx_cells_def)
  ultimately show ?thesis by blast
qed

end
