(* ===== verification/Rx_Delivery.thy ===== *)
theory Rx_Delivery
  imports Kick_Protocol
begin

text \<open>
  The way of received packets across the two drivers: the bridge has put packets into the
  ring of the back end and calls \<open>xenvif_notify\<close> (\<open>Netback_Thread\<close>), the notification reaches
  \<open>netfront_rx_interrupt\<close>, and the next \<open>netfront_netmap_rxsync\<close> (\<open>Netfront_Rings\<close>) moves the
  packets to the netmap ring of the front end. The ring is one memory for both sides.
\<close>

text \<open>What netmap documents of the end of a receive sync and of the lock of a ring.\<close>

definition finalize_shows :: "netmap_api \<Rightarrow> bool" where
  "finalize_shows A \<longleftrightarrow> (\<forall>k.
     num_slots (k_ring (nm_rxsync_finalize A k)) = num_slots (k_ring k)
   \<and> r_head (k_ring (nm_rxsync_finalize A k)) = r_head (k_ring k)
   \<and> r_cur (k_ring (nm_rxsync_finalize A k)) = r_cur (k_ring k)
   \<and> r_tail (k_ring (nm_rxsync_finalize A k)) = nr_hwtail k)"

definition lock_keeps :: "bridge_api \<Rightarrow> bool" where
  "lock_keeps B \<longleftrightarrow> (\<forall>k. kring_same k (snd (b_nm_kr_tryget B k)) \<and> k_ring (snd (b_nm_kr_tryget B k)) = k_ring k
     \<and> k_ring (b_nm_kr_put B k) = k_ring k)"

text \<open>The packets between the cursor of the front end and the slots that the bridge has filled, in
  the area of buffers as the front end has it; \<open>waiting_mem\<close> in \<open>Shared_Traffic\<close> reads them as the
  bridge does, and \<open>Traffic_Start\<close> shows that they are the same after the set-up.\<close>

definition waiting :: "kring \<Rightarrow> u8 list \<Rightarrow> u8 list option list" where
  "waiting k bufs =
     (let r = k_ring k; n = length (r_slots r)
      in map (cell_get sh_addr (r_slots r, bufs))
           (ring_seq n (unat (r_cur r)) (ring_dist n (unat (r_cur r)) (unat (nr_hwtail k)))))"

definition wf_back :: "kring \<Rightarrow> bool" where
  "wf_back k \<longleftrightarrow> wf_ring (k_ring k) \<and> nkr_num_slots k = num_slots (k_ring k)
     \<and> nr_hwcur k < nkr_num_slots k \<and> nr_hwtail k < nkr_num_slots k"

text \<open>The ring as the front end sees it after the notification.\<close>

definition front_view :: "netmap_info \<Rightarrow> xenvif \<Rightarrow> netmap_info" where
  "front_view np vif = np\<lparr>ni_rx_rings := k_ring (v_rx_kring vif)\<rparr>"

lemma cleared_cells:
  assumes "length ss' = length ss" "\<forall>i < length ss'. ss' ! i = ss ! i \<or> ss' ! i = clear_changed A (ss ! i)"
  shows "i < length ss \<Longrightarrow> cell_get sh_addr (ss', bufs) i = cell_get sh_addr (ss, bufs) i"
    "cells_apart sh_addr (ss, bufs) \<Longrightarrow> cells_apart sh_addr (ss', bufs)"
    "lens_ok (ss, bufs) \<Longrightarrow> lens_ok (ss', bufs)"
proof -
  have len: "s_len (ss' ! i) = s_len (ss ! i)" if "i < length ss" for i
    using assms that by (metis clear_changed_def nslot.select_convs(2) nslot.surjective nslot.update_convs(3))
  show "i < length ss \<Longrightarrow> cell_get sh_addr (ss', bufs) i = cell_get sh_addr (ss, bufs) i"
    using len assms(1) by (simp add: cell_get_def arr_get_Some sh_addr_def)
  show "cells_apart sh_addr (ss, bufs) \<Longrightarrow> cells_apart sh_addr (ss', bufs)"
    using assms(1) by (simp add: cells_apart_def sh_addr_def)
  show "lens_ok (ss, bufs) \<Longrightarrow> lens_ok (ss', bufs)"
    using len assms(1) by (force simp: lens_ok_def in_set_conv_nth)
qed

lemma notify_delivers:
  assumes A: "api_ok A" "finalize_shows A" and B: "lock_keeps B" and up: "back_up vif"
    and flag: "vw_guest_need_rxkick (v_vwna vif) \<noteq> 0" and free: "\<not> fst (b_nm_kr_tryget B (v_rx_kring vif))"
    and wf: "wf_back (v_rx_kring vif)" and shared: "ni_rx_rings np = k_ring (v_rx_kring vif)"
    and rx: "wf_rx A np k"
  obtains vif' where "xenvif_notify A B True 1 0 NR_RX vif = Some (0, vif')" "back_up vif'"
    "v_events vif' = v_events vif @ [Notify_front Rx_irq]" "vw_guest_need_rxkick (v_vwna vif') = 0"
    "wf_rx A (front_view np vif') k" "pending (front_view np vif') = waiting (v_rx_kring vif) (ni_rx_bufs np)"
proof -
  obtain kr where kr: "b_nm_kr_tryget B (v_rx_kring vif) = (False, kr)"
    using free by (cases "b_nm_kr_tryget B (v_rx_kring vif)") auto
  then have kr_same: "k_ring kr = k_ring (v_rx_kring vif)" "nkr_num_slots kr = nkr_num_slots (v_rx_kring vif)"
    "nr_hwcur kr = nr_hwcur (v_rx_kring vif)" "nr_hwtail kr = nr_hwtail (v_rx_kring vif)"
    using B unfolding lock_keeps_def kring_same_def by (metis snd_conv)+
  let ?r = "k_ring (v_rx_kring vif)"
  have w: "unat (nkr_num_slots kr) = length (r_slots (k_ring kr))" "nr_hwcur kr < nkr_num_slots kr"
    "r_head (k_ring kr) < nkr_num_slots kr"
    using wf kr_same by (auto simp: wf_back_def wf_ring_def)
  obtain ss where ss: "xenvif_netmap_rxsync A True kr 0 =
       Some (0, nm_rxsync_finalize A (kr\<lparr>k_ring := k_ring kr\<lparr>r_slots := ss\<rparr>, nr_hwcur := r_head (k_ring kr)\<rparr>))"
    "length ss = length (r_slots (k_ring kr))"
    "\<forall>i < length ss. ss ! i =
          (if i \<in> set (ring_seq (length (r_slots (k_ring kr))) (unat (nr_hwcur kr))
                 (ring_dist (length (r_slots (k_ring kr))) (unat (nr_hwcur kr)) (unat (r_head (k_ring kr)))))
           then clear_changed A (r_slots (k_ring kr) ! i) else r_slots (k_ring kr) ! i)"
    by (rule back_rxsync_releases [OF A(1) w])
  let ?k1 = "kr\<lparr>k_ring := k_ring kr\<lparr>r_slots := ss\<rparr>, nr_hwcur := r_head (k_ring kr)\<rparr>"
  define vif' where "vif' = post [Notify_front Rx_irq]
     (vif\<lparr>v_rx_kring := nm_rxsync_finalize A ?k1, v_vwna := (v_vwna vif)\<lparr>vw_guest_need_rxkick := 0\<rparr>\<rparr>)
       \<lparr>v_rx_kring := b_nm_kr_put B (nm_rxsync_finalize A ?k1)\<rparr>"
  have n: "xenvif_notify A B True 1 0 NR_RX vif = Some (0, vif')"
    using up flag kr ss(1) by (simp add: xenvif_notify_def back_up_def Let_def vif'_def post_def)
  have f: "num_slots (k_ring (v_rx_kring vif')) = num_slots ?r" "r_head (k_ring (v_rx_kring vif')) = r_head ?r"
    "r_cur (k_ring (v_rx_kring vif')) = r_cur ?r" "r_tail (k_ring (v_rx_kring vif')) = nr_hwtail (v_rx_kring vif)"
    using A(2) B kr_same by (simp_all add: vif'_def finalize_shows_def lock_keeps_def)
  have sl: "r_slots (k_ring (v_rx_kring vif')) = ss"
    using api_rx_finalize [OF A(1), of ?k1] B by (simp add: vif'_def lock_keeps_def kring_same_def)
  have l: "length ss = length (r_slots ?r)"
    "\<forall>i < length ss. ss ! i = r_slots ?r ! i \<or> ss ! i = clear_changed A (r_slots ?r ! i)"
    using ss(2,3) kr_same by auto
  note c = cleared_cells [OF l]
  have "wf_ring (k_ring (v_rx_kring vif'))"
    using wf f sl l(1) by (auto simp: wf_back_def wf_ring_def)
  then have "wf_rx A (front_view np vif') k"
    using rx c(2,3) [of "ni_rx_bufs np"] shared by (simp add: wf_rx_def front_view_def rx_cells_def sl)
  moreover have "pending (front_view np vif') = waiting (v_rx_kring vif) (ni_rx_bufs np)"
  proof -
    have "unat (r_cur ?r) < length (r_slots ?r)"
      using wf by (auto simp: wf_back_def wf_ring_def word_less_nat_alt)
    then show ?thesis using c(1) ring_seq_less
      by (auto simp: pending_def waiting_def front_view_def rx_cells_def Let_def sl l(1) f)
  qed
  ultimately show thesis using that [OF n] up by (simp add: vif'_def post_def back_up_def)
qed

text \<open>After the answer of the front end one pass of the thread gives the right to notify back.\<close>

lemma answer_rearms:
  assumes "back_up vif" "vw_guest_need_rxkick (v_vwna vif) = 0"
  shows "vw_guest_need_rxkick (v_vwna (kthread_pass B (snd (xenvif_netmap_irqsched vif 0)))) = 1"
  using assms
  by (simp add: xenvif_netmap_irqsched_def back_up_def kthread_pass_def xenvif_netmap_irq_def irq_tx_sync_def
      irq_tx_clear_def irq_tx_notify_def irq_rx_def post_def rx_work_todo_def Let_def)

lemma bridge_packets_move:
  assumes "api_ok A" "finalize_shows A" "lock_keeps B" "back_up vif"
    and "vw_guest_need_rxkick (v_vwna vif) \<noteq> 0" "\<not> fst (b_nm_kr_tryget B (v_rx_kring vif))"
    and "wf_back (v_rx_kring vif)" "ni_rx_rings np = k_ring (v_rx_kring vif)" "wf_rx A np k" "nf_carrier np"
    and "fst (nm_rxsync_prologue A k) = head" "head < nkr_num_slots k"
    and "n = length (r_slots (k_ring k))"
    and "ring_dist n (unat (nr_hwcur k)) (unat head) \<le> ring_dist n (unat (nr_hwcur k)) (unat (nr_hwtail k))"
    and "netmap_no_pendintr A \<or> flags AND NAF_FORCE_READ A \<noteq> 0 \<or> nr_kflags k AND NKR_PENDINTR A \<noteq> 0"
    and "ws = waiting (v_rx_kring vif) (ni_rx_bufs np)"
    and "room = n - 1 - ring_dist n (unat (nr_hwcur k)) (unat (nr_hwtail k))"
  shows "\<exists>vif' k' np'. xenvif_notify A B True 1 0 NR_RX vif = Some (0, vif')
     \<and> v_events vif' = v_events vif @ [Notify_front Rx_irq]
     \<and> netfront_netmap_rxsync A (netfront_rx_interrupt (front_view np vif')) k flags = Some (0, k', np')
     \<and> received A k' (nf_mem np') =
         drop (ring_dist n (unat (nr_hwcur k)) (unat head)) (received A k (nf_mem np) @ take room ws)
     \<and> pending np' = drop room ws
     \<and> nf_events np' = nf_events np @ [Wake Rx_irq, Notify Rx_irq]
     \<and> vw_guest_need_rxkick (v_vwna (kthread_pass B (snd (xenvif_netmap_irqsched vif' 0)))) = 1"
proof -
  obtain vif' where v: "xenvif_notify A B True 1 0 NR_RX vif = Some (0, vif')" "back_up vif'"
    "v_events vif' = v_events vif @ [Notify_front Rx_irq]" "vw_guest_need_rxkick (v_vwna vif') = 0"
    "wf_rx A (front_view np vif') k" "pending (front_view np vif') = ws"
    using notify_delivers [OF assms(1-9)] assms(16) by metis
  let ?np = "netfront_rx_interrupt (front_view np vif')"
  have i: "host_need_rxkick (ni_stat ?np) \<noteq> 0" "nf_events ?np = nf_events np @ [Wake Rx_irq]"
    "nf_mem ?np = nf_mem np" "pending ?np = ws" "rx_quota ?np k = rx_quota (front_view np vif') k"
    using assms(10) v(6) by (simp_all add: netfront_rx_interrupt_def wake_def front_view_def pending_def
        rx_cells_def rx_quota_def)
  have wf: "wf_rx A ?np k"
    using v(5) assms(10) by (simp add: netfront_rx_interrupt_def wake_def front_view_def wf_rx_def rx_cells_def)
  have q: "rx_quota ?np k = min room (length ws)"
    using v(6) assms(13,17) i(5) by (auto simp: rx_quota_def pending_def Let_def)
  then have t: "take (rx_quota ?np k) ws = take room ws" "drop (rx_quota ?np k) ws = drop room ws"
    by (simp_all add: min_def)
  obtain k' np' where "netfront_netmap_rxsync A ?np k flags = Some (0, k', np')"
    "received A k' (nf_mem np') = drop (ring_dist n (unat (nr_hwcur k)) (unat head))
       (received A k (nf_mem np) @ take room ws)"
    "pending np' = drop room ws" "nf_events np' = nf_events np @ [Wake Rx_irq, Notify Rx_irq]"
    using rxsync_transfer [OF assms(1) wf i(1) assms(11,12) assms(14) [unfolded assms(13)] assms(15)]
    unfolding i(2-4) t assms(13) [symmetric] by auto
  then show ?thesis using v(1,3) answer_rearms [OF v(2,4)] by blast
qed

text \<open>C4: The packets that the bridge has put into the ring arrive: if the back end may notify
  and the ring is not locked, \<open>xenvif_notify\<close> sends one notification; after the interrupt the
  receive sync of the front end appends the packets, in order and byte for byte, as far as its
  netmap ring has room; it answers with one notification, which lets the thread of the back
  end restore the right to notify.\<close>
theorem bridge_packets_arrive:
  assumes "api_ok A" "finalize_shows A" "lock_keeps B" "back_up vif"
    and "vw_guest_need_rxkick (v_vwna vif) \<noteq> 0" "\<not> fst (b_nm_kr_tryget B (v_rx_kring vif))"
    and "wf_back (v_rx_kring vif)" "ni_rx_rings np = k_ring (v_rx_kring vif)" "wf_rx A np k" "nf_carrier np"
    and "fst (nm_rxsync_prologue A k) = head" "head < nkr_num_slots k"
    and "n = length (r_slots (k_ring k))"
    and "ring_dist n (unat (nr_hwcur k)) (unat head) \<le> ring_dist n (unat (nr_hwcur k)) (unat (nr_hwtail k))"
    and "netmap_no_pendintr A \<or> flags AND NAF_FORCE_READ A \<noteq> 0 \<or> nr_kflags k AND NKR_PENDINTR A \<noteq> 0"
    and "ws = waiting (v_rx_kring vif) (ni_rx_bufs np)"
    and "room = n - 1 - ring_dist n (unat (nr_hwcur k)) (unat (nr_hwtail k))"
  shows "\<exists>vif' k' np'. xenvif_notify A B True 1 0 NR_RX vif = Some (0, vif')
     \<and> v_events vif' = v_events vif @ [Notify_front Rx_irq]
     \<and> netfront_netmap_rxsync A (netfront_rx_interrupt (front_view np vif')) k flags = Some (0, k', np')
     \<and> received A k' (nf_mem np') =
         drop (ring_dist n (unat (nr_hwcur k)) (unat head)) (received A k (nf_mem np) @ take room ws)
     \<and> pending np' = drop room ws
     \<and> nf_events np' = nf_events np @ [Wake Rx_irq, Notify Rx_irq]
     \<and> vw_guest_need_rxkick (v_vwna (kthread_pass B (snd (xenvif_netmap_irqsched vif' 0)))) = 1"
  using assms by (rule bridge_packets_move)

text \<open>The bridge has filled one slot of the shared ring with two bytes, which the tail does not
  show yet.\<close>

definition sample_filled :: xenvif where
  "sample_filled = sample_vif\<lparr>v_rx_kring := sample_kring\<lparr>k_ring := sample_shared 0 0, nr_hwtail := 1\<rparr>\<rparr>"

definition sample_front_np :: netmap_info where
  "sample_front_np = sample_info\<lparr>ni_rx_rings := sample_shared 0 0\<rparr>"

theorem bridge_packets_arrive_witness:
  "\<exists>vif' k' np'. xenvif_notify sample_api sample_bridge True 1 0 NR_RX sample_filled = Some (0, vif')
     \<and> netfront_netmap_rxsync sample_api (netfront_rx_interrupt (front_view sample_front_np vif')) sample_kring 0
       = Some (0, k', np')
     \<and> received sample_api k' (nf_mem np') = [Some [7, 8]]"
proof -
  let ?kr = "v_rx_kring sample_filled"
  have d: "length (r_slots (k_ring sample_kring)) = 3" "nr_hwcur sample_kring = 0" "nr_hwtail sample_kring = 0"
    "nkr_num_slots sample_kring = 3" by (simp_all add: sample_defs)
  have a: "finalize_shows sample_api" "lock_keeps sample_bridge"
    by (simp_all add: finalize_shows_def sample_api_def lock_keeps_def sample_bridge_def kring_same_def)
  have b: "back_up sample_filled" "vw_guest_need_rxkick (v_vwna sample_filled) \<noteq> 0"
    "\<not> fst (b_nm_kr_tryget sample_bridge ?kr)" "ni_rx_rings sample_front_np = k_ring ?kr"
    by (simp_all add: back_up_def sample_filled_def sample_vif_def sample_bridge_def sample_kring_def sample_front_np_def)
  have c: "wf_back ?kr"
    using sample_wf_ring [of 0 0] by (simp add: wf_back_def sample_filled_def) (simp add: sample_defs)
  have e: "wf_rx sample_api sample_front_np sample_kring"
    using sample_wf_rx sample_wf_ring [of 0 0]
    by (simp add: wf_rx_def sample_front_np_def rx_cells_def) (simp add: sample_info_def sample_shared_def)
  have w: "waiting ?kr (ni_rx_bufs sample_front_np) = [Some [7, 8]]"
    by (simp add: waiting_def sample_filled_def sample_front_np_def ring_dist_def ring_seq_def ring_add_def
        cell_get_def arr_get_def rd_bytes_def sh_addr_def NETFRONT_BUF_def sample_defs Let_def)
  have r: "received sample_api sample_kring (nf_mem sample_front_np) = []"
    by (simp add: received_def sample_defs Let_def)
  have f: "nf_carrier sample_front_np" "fst (nm_rxsync_prologue sample_api sample_kring) = 0"
    "(0 :: u32) < nkr_num_slots sample_kring" "netmap_no_pendintr sample_api"
    by (simp_all add: sample_front_np_def sample_api_def sample_defs)
  show ?thesis
    using bridge_packets_arrive [OF sample_api_ok a b(1,2,3) c b(4) e f(1-3) d(1) [symmetric] _ disjI1 [OF f(4)] refl refl, of 0]
    by (simp add: w r d ring_dist_def) blast
qed


end
