(* ===== verification/Netback_Grants.thy ===== *)
theory Netback_Grants
  imports Netmap_If
begin

text \<open>
  How the back end shares a netmap ring and its buffers, \<open>LINUX/netback_netmap_linux.h\<close>:
  the pages of the ring and of the buffers are collected, each page is granted to the
  domain of the front end, the references of the buffers go to the \<open>ptr\<close> fields of the
  slots, and revoking ends the grants. The kernel's grant table is a map from references to
  domain and frame; which reference a grant gets, the page of an address and the contents
  that \<open>vmalloc\<close> returns are parameters. An access outside an array is \<open>None\<close>.
\<close>

section \<open>The kernel's interface\<close>

type_synonym grants = "u32 \<rightharpoonup> (nat \<times> nat)"

record xen_api =
  virt_to_page :: "nat \<Rightarrow> nat"
  page_mfn :: "nat \<Rightarrow> nat"
  gnttab_ref :: "grants \<Rightarrow> u32"
  gnttab_max :: nat
  vmalloc_pg :: "nat \<Rightarrow> nat list"
  vmalloc_ref :: "nat \<Rightarrow> u32 list"
  sizeof_ring :: nat
  sizeof_slot :: nat
  PAGE_SIZE :: nat

text \<open>
  As long as the table is not full, a grant gets a reference that is not in use; the first
  eight are reserved by Xen. An array of \<open>n\<close> entries has at least \<open>n\<close> of them.
\<close>

definition xen_ok :: "xen_api \<Rightarrow> bool" where
  "xen_ok X \<longleftrightarrow>
     (\<forall>g. card (dom g) < gnttab_max X \<longrightarrow> g (gnttab_ref X g) = None \<and> 8 \<le> gnttab_ref X g)
   \<and> (\<forall>n. n \<le> length (vmalloc_pg X n)) \<and> (\<forall>n. n \<le> length (vmalloc_ref X n))
   \<and> 0 < PAGE_SIZE X"

definition gnttab_grant_foreign_access :: "xen_api \<Rightarrow> grants \<Rightarrow> nat \<Rightarrow> nat \<Rightarrow> u32 \<times> grants" where
  "gnttab_grant_foreign_access X g domid mfn =
     (let r = gnttab_ref X g in (r, g(r \<mapsto> (domid, mfn))))"

definition gnttab_end_foreign_access :: "grants \<Rightarrow> u32 \<Rightarrow> grants" where
  "gnttab_end_foreign_access g r = g(r := None)"

record nm_grant_ring =
  ring_pg :: "nat list"
  buf_pg :: "nat list"
  ring_ref :: "u32 list"
  buf_ref :: "u32 list"
  nr_buf_pgs :: u16
  nr_ring_pgs :: u16

section \<open>Collecting pages\<close>

definition RING_NR_PAGES :: "xen_api \<Rightarrow> nat \<Rightarrow> nat" where
  "RING_NR_PAGES X desc = (sizeof_ring X + desc * sizeof_slot X) div PAGE_SIZE X"

text \<open>An empty ring has no first slot to read.\<close>

definition BUFS_NR_PAGES :: "xen_api \<Rightarrow> nring \<Rightarrow> nat option" where
  "BUFS_NR_PAGES X ring = do {
     s \<leftarrow> arr_get (r_slots ring) 0;
     Some (unat (ucast (s_len s) * num_slots ring) div PAGE_SIZE X)
   }"

text \<open>The pages from \<open>page_idx\<close> to \<open>page_ring_end\<close>, written from \<open>ring_refs\<close> on.\<close>

function ring_pages_loop :: "nat \<Rightarrow> nat \<Rightarrow> nat \<Rightarrow> nat list \<Rightarrow> nat list option" where
  "ring_pages_loop page_idx page_ring_end ring_refs pages =
     (if page_idx \<le> page_ring_end then
        (case arr_set pages ring_refs page_idx of
           None \<Rightarrow> None
         | Some pages \<Rightarrow> ring_pages_loop (page_idx + 1) page_ring_end (ring_refs + 1) pages)
      else Some pages)"
  by pat_completeness auto

termination ring_pages_loop
  by (relation "measure (\<lambda>(i, e, r, p). Suc e - i)") auto

declare ring_pages_loop.simps [simp del]

definition nm_ring_pages :: "xen_api \<Rightarrow> nat \<Rightarrow> nat \<Rightarrow> nat list \<Rightarrow> (u16 \<times> nat list) option" where
  "nm_ring_pages X ring_va ndesc pages =
     (let page_ring_start = virt_to_page X ring_va;
          page_ring_end = virt_to_page X (ring_va + sizeof_ring X + (ndesc - 1) * sizeof_slot X)
      in do {
        pages \<leftarrow> ring_pages_loop page_ring_start page_ring_end 0 pages;
        Some (of_int (int page_ring_end - int page_ring_start + 1), pages)
      })"

text \<open>
  The loop of \<open>nm_buf_pages\<close>: \<open>bufs_refs\<close> is the place of the last page written; \<open>lut\<close> gives
  the address of a buffer.
\<close>

function buf_pages_loop ::
  "xen_api \<Rightarrow> (u32 \<Rightarrow> nat) \<Rightarrow> nat \<Rightarrow> nat \<Rightarrow> nslot list \<Rightarrow> nat \<Rightarrow> nat list \<Rightarrow> (nslot list \<times> nat \<times> nat list) option" where
  "buf_pages_loop X lut ndesc i slots bufs_refs pages =
     (if i < ndesc then
        (case (arr_get slots i, arr_get pages bufs_refs) of
           (Some s, Some prev_pg) \<Rightarrow>
             (let page_idx = virt_to_page X (lut (s_buf_idx s))
              in if prev_pg \<noteq> page_idx then
                   (let bufs_refs = (if i \<noteq> 0 then bufs_refs + 1 else bufs_refs)
                    in case arr_set pages bufs_refs page_idx of
                         None \<Rightarrow> None
                       | Some pages \<Rightarrow>
                           buf_pages_loop X lut ndesc (i + 1) (slots[i := s\<lparr>s_ptr := 1\<rparr>]) bufs_refs pages)
                 else buf_pages_loop X lut ndesc (i + 1) (slots[i := s\<lparr>s_ptr := 0\<rparr>]) bufs_refs pages)
         | _ \<Rightarrow> None)
      else Some (slots, bufs_refs, pages))"
  by pat_completeness auto

termination buf_pages_loop
  by (relation "measure (\<lambda>(X, l, n, i, s, b, p). n - i)") auto

declare buf_pages_loop.simps [simp del]

definition nm_buf_pages ::
  "xen_api \<Rightarrow> (u32 \<Rightarrow> nat) \<Rightarrow> nat \<Rightarrow> nslot list \<Rightarrow> nat list \<Rightarrow> (u16 \<times> nslot list \<times> nat list) option" where
  "nm_buf_pages X lut ndesc slots pages = do {
     (slots, bufs_refs, pages) \<leftarrow> buf_pages_loop X lut ndesc 0 slots 0 pages;
     Some (of_nat bufs_refs, slots, pages)
   }"

section \<open>Granting and revoking\<close>

text \<open>The grants of the buffer pages, one for each slot that starts a page.\<close>

function grant_bufs_loop ::
  "xen_api \<Rightarrow> nat \<Rightarrow> nat \<Rightarrow> nat list \<Rightarrow> nat \<Rightarrow> nat \<Rightarrow> nslot list \<Rightarrow> u32 list \<Rightarrow> grants
     \<Rightarrow> (nslot list \<times> u32 list \<times> grants) option" where
  "grant_bufs_loop X domid num_desc pages i j slots refs g =
     (if i < num_desc then
        (case arr_get slots i of
           None \<Rightarrow> None
         | Some s \<Rightarrow>
             (if s_ptr s = 1 then
                (case arr_get pages j of
                   None \<Rightarrow> None
                 | Some pg \<Rightarrow>
                     (if pg \<noteq> 0 then
                        (let (r, g) = gnttab_grant_foreign_access X g domid (page_mfn X pg)
                         in case arr_set refs j r of
                              None \<Rightarrow> None
                            | Some refs \<Rightarrow>
                                grant_bufs_loop X domid num_desc pages (i + 1) (j + 1)
                                  (slots[i := s\<lparr>s_ptr := ucast r\<rparr>]) refs g)
                      else grant_bufs_loop X domid num_desc pages (i + 1) j slots refs g))
              else grant_bufs_loop X domid num_desc pages (i + 1) j slots refs g))
      else Some (slots, refs, g))"
  by pat_completeness auto

termination grant_bufs_loop
  by (relation "measure (\<lambda>(X, d, n, p, i, j, s, r, g). n - i)") auto

declare grant_bufs_loop.simps [simp del]

text \<open>\<open>for (i = 0; i <= gnt->nr_ring_pgs; ++i)\<close>: one page more than were collected.\<close>

function grant_ring_loop ::
  "xen_api \<Rightarrow> nat \<Rightarrow> nat \<Rightarrow> nat list \<Rightarrow> nat \<Rightarrow> u32 list \<Rightarrow> grants \<Rightarrow> (u32 list \<times> grants) option" where
  "grant_ring_loop X domid nr pages i refs g =
     (if i \<le> nr then
        (case arr_get pages i of
           None \<Rightarrow> None
         | Some pg \<Rightarrow>
             (let (r, g) = gnttab_grant_foreign_access X g domid (page_mfn X pg)
              in case arr_set refs i r of
                   None \<Rightarrow> None
                 | Some refs \<Rightarrow> grant_ring_loop X domid nr pages (i + 1) refs g))
      else Some (refs, g))"
  by pat_completeness auto

termination grant_ring_loop
  by (relation "measure (\<lambda>(X, d, n, p, i, r, g). Suc n - i)") auto

declare grant_ring_loop.simps [simp del]

definition xenvif_grant_ring ::
  "xen_api \<Rightarrow> (u32 \<Rightarrow> nat) \<Rightarrow> nat \<Rightarrow> nring \<Rightarrow> nat \<Rightarrow> nat \<Rightarrow> grants \<Rightarrow> (nm_grant_ring \<times> nring \<times> grants) option" where
  "xenvif_grant_ring X lut ring_va ring num_desc domid g = do {
     bufs_pgs \<leftarrow> BUFS_NR_PAGES X ring;
     let nr_ring_pg = RING_NR_PAGES X num_desc + 1;
     let nr_bufs_pg = bufs_pgs + 1;
     (nr_ring, ring_pgs) \<leftarrow> nm_ring_pages X ring_va num_desc (vmalloc_pg X nr_ring_pg);
     (nr_buf, slots, buf_pgs) \<leftarrow> nm_buf_pages X lut num_desc (r_slots ring) (vmalloc_pg X nr_bufs_pg);
     (slots, buf_refs, g) \<leftarrow> grant_bufs_loop X domid num_desc buf_pgs 0 0 slots (vmalloc_ref X nr_bufs_pg) g;
     (ring_refs, g) \<leftarrow> grant_ring_loop X domid (unat nr_ring) ring_pgs 0 (vmalloc_ref X nr_ring_pg) g;
     Some (\<lparr>ring_pg = ring_pgs, buf_pg = buf_pgs, ring_ref = ring_refs, buf_ref = buf_refs,
             nr_buf_pgs = nr_buf, nr_ring_pgs = nr_ring\<rparr>, ring\<lparr>r_slots := slots\<rparr>, g)
   }"

text \<open>The references from \<open>i\<close> to \<open>nr\<close> are ended; the other domain no longer maps them.\<close>

function revoke_loop :: "nat \<Rightarrow> u32 list \<Rightarrow> nat \<Rightarrow> grants \<Rightarrow> grants option" where
  "revoke_loop nr refs i g =
     (if i \<le> nr then
        (case arr_get refs i of
           None \<Rightarrow> None
         | Some r \<Rightarrow> revoke_loop nr refs (i + 1) (gnttab_end_foreign_access g r))
      else Some g)"
  by pat_completeness auto

termination revoke_loop
  by (relation "measure (\<lambda>(n, r, i, g). Suc n - i)") auto

declare revoke_loop.simps [simp del]

definition xenvif_revoke_ring :: "nm_grant_ring \<Rightarrow> grants \<Rightarrow> (nm_grant_ring \<times> grants) option" where
  "xenvif_revoke_ring gnt g = do {
     g \<leftarrow> revoke_loop (unat (nr_ring_pgs gnt)) (ring_ref gnt) 0 g;
     g \<leftarrow> revoke_loop (unat (nr_buf_pgs gnt)) (buf_ref gnt) 0 g;
     Some (gnt\<lparr>nr_buf_pgs := 0, nr_ring_pgs := 0, ring_ref := [], buf_ref := [], ring_pg := [], buf_pg := []\<rparr>, g)
   }"

section \<open>What the loops compute\<close>

lemma take_Suc_update_drop:
  "i < length xs \<Longrightarrow> take (Suc i) (xs[i := y]) @ zs = take i xs @ y # zs"
  by (simp add: take_Suc_conv_app_nth)

lemma ring_pages_loop_eq:
  "k + (Suc e - i) \<le> length pages \<Longrightarrow>
     ring_pages_loop i e k pages = Some (overwrite pages k [i..<Suc e])"
proof (induction "Suc e - i" arbitrary: i k pages)
  case 0
  then show ?case by (simp add: ring_pages_loop.simps)
next
  case (Suc n)
  then have i: "i \<le> e" "k < length pages" "n = Suc e - Suc i" by simp_all
  have "ring_pages_loop i e k pages = ring_pages_loop (Suc i) e (Suc k) (pages[k := i])"
    using i by (simp add: ring_pages_loop.simps [of i] arr_set_Some)
  also have "\<dots> = Some (overwrite (pages[k := i]) (Suc k) [Suc i..<Suc e])"
    using Suc.hyps(1) [OF i(3)] Suc.prems i by simp
  also have "\<dots> = Some (overwrite pages k [i..<Suc e])"
    using i by (simp only: overwrite_Cons upt_conv_Cons le_imp_less_Suc)
  finally show ?case .
qed

text \<open>The page of a slot's buffer, and the slots with the first slot of each run marked.\<close>

definition slot_page :: "xen_api \<Rightarrow> (u32 \<Rightarrow> nat) \<Rightarrow> nslot \<Rightarrow> nat" where
  "slot_page X lut s = virt_to_page X (lut (s_buf_idx s))"

fun mark_runs :: "(nslot \<Rightarrow> nat) \<Rightarrow> nat \<Rightarrow> nslot list \<Rightarrow> nslot list" where
  "mark_runs pg p [] = []"
| "mark_runs pg p (s # ss) = s\<lparr>s_ptr := (if pg s = p then 0 else 1)\<rparr> # mark_runs pg (pg s) ss"

lemma length_mark_runs [simp]: "length (mark_runs pg p ss) = length ss"
  by (induction ss arbitrary: p) auto

lemma slot_page_ptr [simp]: "slot_page X lut (s\<lparr>s_ptr := v\<rparr>) = slot_page X lut s"
  by (simp add: slot_page_def)

lemma count_mark_runs:
  "length (filter (\<lambda>s. s_ptr s = 1) (mark_runs pg p ss)) = length (tl (remdups_adj (p # map pg ss)))"
proof (induction ss arbitrary: p)
  case Nil
  then show ?case by simp
next
  case (Cons s ss)
  have "remdups_adj (pg s # map pg ss) \<noteq> []" by simp
  then show ?case using Cons.IH [of "pg s"]
    by (cases "remdups_adj (pg s # map pg ss)") auto
qed

text \<open>Only the marks depend on what was read before, not the pages.\<close>

lemma buf_pages_loop_eq:
  assumes "0 < i" "i \<le> length slots" "b < length pages"
    "b + length (remdups_adj (pages ! b # map (slot_page X lut) (drop i slots))) \<le> length pages"
  shows "buf_pages_loop X lut (length slots) i slots b pages =
     (let new = tl (remdups_adj (pages ! b # map (slot_page X lut) (drop i slots)))
      in Some (take i slots @ mark_runs (slot_page X lut) (pages ! b) (drop i slots),
               b + length new, overwrite pages (Suc b) new))"
  using assms
proof (induction "length slots - i" arbitrary: i slots b pages)
  case 0
  then show ?case by (simp add: buf_pages_loop.simps)
next
  case (Suc n)
  let ?pg = "slot_page X lut"
  have i: "i < length slots" "n = length slots - Suc i" using Suc.hyps(2) by simp_all
  define s where "s = slots ! i"
  have d: "drop i slots = s # drop (Suc i) slots" using i by (simp add: s_def Cons_nth_drop_Suc)
  show ?case
  proof (cases "pages ! b = ?pg s")
    case True
    let ?slots = "slots[i := s\<lparr>s_ptr := 0\<rparr>]"
    have step: "buf_pages_loop X lut (length slots) i slots b pages =
        buf_pages_loop X lut (length ?slots) (Suc i) ?slots b pages"
      using i Suc.prems True
      by (simp add: buf_pages_loop.simps [of X lut _ i] arr_get_Some Let_def s_def slot_page_def)
    have "n = length ?slots - Suc i" "0 < Suc i" "Suc i \<le> length ?slots"
      "b + length (remdups_adj (pages ! b # map ?pg (drop (Suc i) ?slots))) \<le> length pages"
      using i Suc.prems True by (simp_all add: d)
    from Suc.hyps(1) [OF this(1-3) Suc.prems(3) this(4)] show ?thesis
      unfolding step using i True by (simp add: d Let_def take_Suc_update_drop)
  next
    case False
    let ?slots = "slots[i := s\<lparr>s_ptr := 1\<rparr>]" and ?pages = "pages[Suc b := ?pg s]"
    obtain new where new: "remdups_adj (?pg s # map ?pg (drop (Suc i) slots)) = ?pg s # new"
      by (metis remdups_adj_Cons_alt)
    then have b: "Suc b < length pages"
      using Suc.prems(4) False by (simp add: d)
    have step: "buf_pages_loop X lut (length slots) i slots b pages =
        buf_pages_loop X lut (length ?slots) (Suc i) ?slots (Suc b) ?pages"
      using i Suc.prems False b
      by (simp add: buf_pages_loop.simps [of X lut _ i] arr_get_Some arr_set_Some Let_def s_def
          slot_page_def)
    have "n = length ?slots - Suc i" "0 < Suc i" "Suc i \<le> length ?slots" "Suc b < length ?pages"
      "Suc b + length (remdups_adj (?pages ! Suc b # map ?pg (drop (Suc i) ?slots))) \<le> length ?pages"
      using i Suc.prems False b by (simp_all add: d)
    from Suc.hyps(1) [OF this] show ?thesis
      unfolding step using i False b new
      by (simp add: d Let_def take_Suc_update_drop overwrite_Cons)
  qed
qed

definition marked_slots :: "xen_api \<Rightarrow> (u32 \<Rightarrow> nat) \<Rightarrow> nslot list \<Rightarrow> nslot list" where
  "marked_slots X lut slots =
     (case slots of [] \<Rightarrow> []
      | s # ss \<Rightarrow> s\<lparr>s_ptr := 1\<rparr> # mark_runs (slot_page X lut) (slot_page X lut s) ss)"

definition buffer_pages :: "xen_api \<Rightarrow> (u32 \<Rightarrow> nat) \<Rightarrow> nslot list \<Rightarrow> nat list" where
  "buffer_pages X lut slots = remdups_adj (map (slot_page X lut) slots)"

lemma buffer_pages_Cons:
  obtains new where "buffer_pages X lut (s # ss) = slot_page X lut s # new"
    "new = tl (remdups_adj (slot_page X lut s # map (slot_page X lut) ss))"
  unfolding buffer_pages_def by (metis remdups_adj_Cons_alt list.simps(9))

lemma nm_buf_pages_eq:
  assumes "slots \<noteq> []" "length (buffer_pages X lut slots) \<le> length pages"
    "pages ! 0 \<noteq> slot_page X lut (slots ! 0)"
  shows "nm_buf_pages X lut (length slots) slots pages =
     Some (of_nat (length (buffer_pages X lut slots) - 1), marked_slots X lut slots,
           overwrite pages 0 (buffer_pages X lut slots))"
proof -
  let ?pg = "slot_page X lut"
  obtain s ss where s: "slots = s # ss" using assms(1) by (cases slots) auto
  obtain new where new: "buffer_pages X lut slots = ?pg s # new"
    "new = tl (remdups_adj (?pg s # map ?pg ss))"
    unfolding s by (rule buffer_pages_Cons)
  have l: "length (remdups_adj (?pg s # map ?pg ss)) \<le> length pages" "0 < length pages"
    using assms(2) new(1) by (auto simp: buffer_pages_def s)
  let ?slots = "s\<lparr>s_ptr := 1\<rparr> # ss" and ?pages = "pages[0 := ?pg s]"
  have "buf_pages_loop X lut (length slots) 0 slots 0 pages
      = buf_pages_loop X lut (length ?slots) 1 ?slots 0 ?pages"
    using assms(3) l
    by (simp add: buf_pages_loop.simps [of X lut _ 0] arr_get_def arr_set_def Let_def s slot_page_def)
  also have "\<dots> = Some (s\<lparr>s_ptr := 1\<rparr> # mark_runs ?pg (?pg s) ss, length new, overwrite ?pages 1 new)"
    using buf_pages_loop_eq [of 1 ?slots 0 ?pages X lut] l new(2) by (simp add: Let_def)
  also have "overwrite ?pages 1 new = overwrite pages 0 (?pg s # new)"
    using overwrite_Cons [of 0 pages "?pg s" new] l by simp
  finally show ?thesis
    using new(1) [unfolded s] by (simp add: nm_buf_pages_def marked_slots_def s)
qed

lemma marked_slots_iff:
  "i < length slots \<Longrightarrow> s_ptr (marked_slots X lut slots ! i) = 1 \<longleftrightarrow>
     i = 0 \<or> slot_page X lut (slots ! i) \<noteq> slot_page X lut (slots ! (i - 1))"
proof -
  have run: "i < length ss \<Longrightarrow> s_ptr (mark_runs pg p ss ! i) = 1 \<longleftrightarrow>
      pg (ss ! i) \<noteq> (if i = 0 then p else pg (ss ! (i - 1)))" for pg p ss i
    by (induction ss arbitrary: p i) (auto simp: nth_Cons split: nat.splits)
  assume i: "i < length slots"
  then obtain s ss where s: "slots = s # ss" by (cases slots) auto
  show ?thesis
  proof (cases i)
    case 0
    then show ?thesis by (simp add: marked_slots_def s)
  next
    case (Suc j)
    then show ?thesis using run [of j ss "slot_page X lut" "slot_page X lut s"] i
      by (cases j) (simp_all add: marked_slots_def s)
  qed
qed

lemma marked_slots_01: "s \<in> set (marked_slots X lut slots) \<Longrightarrow> s_ptr s = 0 \<or> s_ptr s = 1"
proof -
  have "s \<in> set (mark_runs pg p ss) \<Longrightarrow> s_ptr s = 0 \<or> s_ptr s = 1" for pg p ss
    by (induction ss arbitrary: p) (auto split: if_split_asm)
  then show "s \<in> set (marked_slots X lut slots) \<Longrightarrow> s_ptr s = 0 \<or> s_ptr s = 1"
    by (auto simp: marked_slots_def split: list.splits)
qed

lemma count_marked_slots:
  "length (filter (\<lambda>s. s_ptr s = 1) (marked_slots X lut slots)) = length (buffer_pages X lut slots)"
proof (cases slots)
  case Nil
  then show ?thesis by (simp add: marked_slots_def buffer_pages_def)
next
  case (Cons s ss)
  obtain new where "buffer_pages X lut (s # ss) = slot_page X lut s # new"
    "new = tl (remdups_adj (slot_page X lut s # map (slot_page X lut) ss))"
    by (rule buffer_pages_Cons)
  then show ?thesis by (simp add: Cons marked_slots_def count_mark_runs)
qed

text \<open>C27: The pages collected for the buffers are the pages of the slots' buffers in order
  without immediate repetitions, their number is one more than the result, and exactly the
  slots at which a new page starts are marked.\<close>
theorem nm_buf_pages_runs:
  assumes "slots \<noteq> []" "length (remdups_adj (map (slot_page X lut) slots)) \<le> length pages"
    "pages ! 0 \<noteq> slot_page X lut (slots ! 0)" "length slots \<le> 65536"
  shows "\<exists>nr slots' pages'. nm_buf_pages X lut (length slots) slots pages = Some (nr, slots', pages')
     \<and> take (unat nr + 1) pages' = remdups_adj (map (slot_page X lut) slots)
     \<and> (\<forall>i < length slots. s_ptr (slots' ! i) = 1 \<longleftrightarrow>
          i = 0 \<or> slot_page X lut (slots ! i) \<noteq> slot_page X lut (slots ! (i - 1)))"
proof -
  let ?R = "buffer_pages X lut slots"
  have len: "0 < length ?R" "length ?R \<le> length slots"
    using assms(1) remdups_adj_length [of "map (slot_page X lut) slots"]
    by (simp_all add: buffer_pages_def)
  then have "unat (of_nat (length ?R - 1) :: u16) + 1 = length ?R"
    using assms(4) by (simp add: unat_of_nat)
  then have "take (unat (of_nat (length ?R - 1) :: u16) + 1) (overwrite pages 0 ?R) = ?R"
    by (simp only: take_overwrite_0)
  then show ?thesis
    using nm_buf_pages_eq [OF assms(1) _ assms(3)] assms(2) marked_slots_iff [of _ slots X lut]
    by (simp add: buffer_pages_def)
qed

section \<open>Grants as a list\<close>

text \<open>Granting a list of frames in order.\<close>

fun grant_list :: "xen_api \<Rightarrow> nat \<Rightarrow> nat list \<Rightarrow> grants \<Rightarrow> u32 list \<times> grants" where
  "grant_list X domid [] g = ([], g)"
| "grant_list X domid (m # ms) g =
     (let (r, g) = gnttab_grant_foreign_access X g domid m;
          (rs, g) = grant_list X domid ms g
      in (r # rs, g))"

lemma length_grant_list: "grant_list X domid ms g = (rs, g') \<Longrightarrow> length rs = length ms"
  by (induction ms arbitrary: g rs) (auto simp: Let_def split: prod.splits)

text \<open>Grants of a table that has room are fresh, and undone by forgetting their references.\<close>

lemma grant_list_fresh:
  assumes X: "xen_ok X"
  shows "card (dom g) + length ms \<le> gnttab_max X \<Longrightarrow> grant_list X domid ms g = (rs, g') \<Longrightarrow>
     distinct rs \<and> set rs \<inter> dom g = {} \<and> (\<forall>r \<in> set rs. 8 \<le> r)
   \<and> (\<forall>i < length ms. g' (rs ! i) = Some (domid, ms ! i))
   \<and> (\<forall>r. r \<notin> set rs \<longrightarrow> g' r = g r) \<and> card (dom g') = card (dom g) + length ms"
proof (induction ms arbitrary: g rs)
  case Nil
  then show ?case by simp
next
  case (Cons m ms)
  let ?r = "gnttab_ref X g"
  define h where "h = g(?r \<mapsto> (domid, m))"
  have r: "g ?r = None" "8 \<le> ?r"
    using X Cons.prems(1) by (simp_all add: xen_ok_def)
  obtain rs1 where rs: "grant_list X domid ms h = (rs1, g')" "rs = ?r # rs1"
    using Cons.prems(2)
    by (auto simp: gnttab_grant_foreign_access_def h_def Let_def split: prod.splits)
  have notin: "?r \<notin> dom g" using r(1) by auto
  have h: "dom h = insert ?r (dom g)" "h ?r = Some (domid, m)" "\<And>x. x \<noteq> ?r \<Longrightarrow> h x = g x"
    by (auto simp: h_def)
  have "finite (dom g)" by (rule finite)
  then have c: "card (dom h) = card (dom g) + 1" using notin by (simp add: h)
  then have ih: "distinct rs1" "set rs1 \<inter> dom h = {}" "\<forall>r \<in> set rs1. 8 \<le> r"
   "\<forall>i < length ms. g' (rs1 ! i) = Some (domid, ms ! i)"
   "\<forall>r. r \<notin> set rs1 \<longrightarrow> g' r = h r" "card (dom g') = card (dom h) + length ms"
    using Cons.IH [OF _ rs(1)] Cons.prems(1) by simp_all
  then have "?r \<notin> set rs1" using h(1) by auto
  then show ?case using ih c r notin h
    by (auto simp: rs(2) less_Suc_eq_0_disj)
qed

definition forget :: "u32 list \<Rightarrow> grants \<Rightarrow> grants" where
  "forget rs g = g |` (- set rs)"

lemma forget_grant_list:
  assumes "xen_ok X" "card (dom g) + length ms \<le> gnttab_max X" "grant_list X domid ms g = (rs, g')"
  shows "forget rs g' = g"
proof
  fix r
  note f = grant_list_fresh [OF assms]
  then have "r \<in> set rs \<Longrightarrow> g r = None" by auto
  then show "forget rs g' r = g r" using f by (auto simp: forget_def restrict_map_def)
qed

lemma forget_append: "forget (xs @ ys) g = forget xs (forget ys g)"
  by (auto simp: forget_def restrict_map_def fun_eq_iff)

lemma forget_comm: "forget xs (forget ys g) = forget ys (forget xs g)"
  by (auto simp: forget_def restrict_map_def fun_eq_iff)

lemma revoke_loop_forget:
  "nr < length refs \<Longrightarrow> i \<le> Suc nr \<Longrightarrow>
     revoke_loop nr refs i g = Some (forget (take (Suc nr - i) (drop i refs)) g)"
proof (induction "Suc nr - i" arbitrary: i g)
  case 0
  then show ?case by (simp add: revoke_loop.simps forget_def)
next
  case (Suc n)
  then have i: "i \<le> nr" "i < length refs" "n = Suc nr - Suc i" by simp_all
  have "take (Suc nr - i) (drop i refs) = refs ! i # take (Suc nr - Suc i) (drop (Suc i) refs)"
    using i by (metis Cons_nth_drop_Suc Suc.hyps(2) take_Suc_Cons)
  moreover have "forget (r # rs) g = forget rs (gnttab_end_foreign_access g r)" for r rs
    by (auto simp: forget_def restrict_map_def fun_eq_iff gnttab_end_foreign_access_def)
  ultimately show ?case
    using Suc.hyps(1) [OF i(3)] Suc.prems i
    by (simp add: revoke_loop.simps [of nr refs i] arr_get_Some)
qed

lemma grant_ring_loop_eq:
  "nr < length pages \<Longrightarrow> nr < length refs \<Longrightarrow> i \<le> Suc nr \<Longrightarrow>
     grant_ring_loop X domid nr pages i refs g =
       (let (rs, g') = grant_list X domid (map (page_mfn X) (take (Suc nr - i) (drop i pages))) g
        in Some (overwrite refs i rs, g'))"
proof (induction "Suc nr - i" arbitrary: i refs g)
  case 0
  then show ?case by (simp add: grant_ring_loop.simps)
next
  case (Suc n)
  then have i: "i \<le> nr" "i < length refs" "i < length pages" "n = Suc nr - Suc i" by simp_all
  have tk: "take (Suc nr - i) (drop i pages) = pages ! i # take (Suc nr - Suc i) (drop (Suc i) pages)"
    using i by (metis Cons_nth_drop_Suc Suc.hyps(2) take_Suc_Cons)
  let ?r = "gnttab_ref X g" and ?g = "g(gnttab_ref X g \<mapsto> (domid, page_mfn X (pages ! i)))"
  have "grant_ring_loop X domid nr pages i refs g
      = grant_ring_loop X domid nr pages (Suc i) (refs[i := ?r]) ?g"
    using i by (simp add: grant_ring_loop.simps [of X domid nr pages i] arr_get_Some arr_set_Some
        gnttab_grant_foreign_access_def Let_def)
  also have "\<dots> = (let (rs, g') = grant_list X domid
        (map (page_mfn X) (take (Suc nr - Suc i) (drop (Suc i) pages))) ?g
        in Some (overwrite (refs[i := ?r]) (Suc i) rs, g'))"
    using Suc.hyps(1) [OF i(4)] Suc.prems i by simp
  finally show ?case
    using i by (simp add: tk gnttab_grant_foreign_access_def overwrite_Cons Let_def split: prod.splits)
qed

text \<open>The marked slots get the references in order.\<close>

fun assign :: "nslot list \<Rightarrow> u32 list \<Rightarrow> nslot list" where
  "assign [] rs = []"
| "assign (s # ss) rs =
     (if s_ptr s = 1
      then (case rs of [] \<Rightarrow> s # ss | r # rs \<Rightarrow> s\<lparr>s_ptr := ucast r\<rparr> # assign ss rs)
      else s # assign ss rs)"

definition marks :: "nslot list \<Rightarrow> nat" where
  "marks ss = length (filter (\<lambda>s. s_ptr s = 1) ss)"

lemma grant_bufs_loop_eq:
  "i \<le> length slots \<Longrightarrow> j + marks (drop i slots) \<le> length pages \<Longrightarrow>
     j + marks (drop i slots) \<le> length refs \<Longrightarrow> \<forall>p \<in> set (take (marks (drop i slots)) (drop j pages)). p \<noteq> 0 \<Longrightarrow>
     grant_bufs_loop X domid (length slots) pages i j slots refs g =
       (let (rs, g') = grant_list X domid (map (page_mfn X) (take (marks (drop i slots)) (drop j pages))) g
        in Some (take i slots @ assign (drop i slots) rs, overwrite refs j rs, g'))"
proof (induction "length slots - i" arbitrary: i j slots refs g)
  case 0
  then show ?case by (simp add: grant_bufs_loop.simps marks_def)
next
  case (Suc n)
  have i: "i < length slots" "n = length slots - Suc i" using Suc.hyps(2) by simp_all
  define s where "s = slots ! i"
  have d: "drop i slots = s # drop (Suc i) slots" using i by (simp add: s_def Cons_nth_drop_Suc)
  show ?case
  proof (cases "s_ptr s = 1")
    case False
    then have m: "marks (drop i slots) = marks (drop (Suc i) slots)" by (simp add: d marks_def)
    have "grant_bufs_loop X domid (length slots) pages i j slots refs g
        = grant_bufs_loop X domid (length slots) pages (Suc i) j slots refs g"
      using i False by (simp add: grant_bufs_loop.simps [of X domid _ pages i] arr_get_Some s_def)
    then show ?thesis
      using Suc.hyps(1) [OF i(2), of j refs g] Suc.prems i False unfolding m
      by (simp add: d take_Suc_conv_app_nth Let_def flip: s_def split: prod.splits)
  next
    case True
    then have m: "marks (drop i slots) = Suc (marks (drop (Suc i) slots))" by (simp add: d marks_def)
    let ?slots = "slots[i := s\<lparr>s_ptr := ucast (gnttab_ref X g)\<rparr>]"
    let ?r = "gnttab_ref X g" and ?g = "g(gnttab_ref X g \<mapsto> (domid, page_mfn X (pages ! j)))"
    have j: "j < length pages" "j < length refs" using Suc.prems(2,3) m by simp_all
    have tk: "take (marks (drop i slots)) (drop j pages)
        = pages ! j # take (marks (drop (Suc i) slots)) (drop (Suc j) pages)"
      using j m by (metis Cons_nth_drop_Suc take_Suc_Cons)
    have nz: "pages ! j \<noteq> 0" using Suc.prems(4) tk by simp
    have "grant_bufs_loop X domid (length slots) pages i j slots refs g
        = grant_bufs_loop X domid (length ?slots) pages (Suc i) (Suc j) ?slots (refs[j := ?r]) ?g"
      using i True j nz
      by (simp add: grant_bufs_loop.simps [of X domid _ pages i] arr_get_Some arr_set_Some s_def
          gnttab_grant_foreign_access_def Let_def)
    also have "\<dots> = (let (rs, g') = grant_list X domid
          (map (page_mfn X) (take (marks (drop (Suc i) slots)) (drop (Suc j) pages))) ?g
        in Some (take (Suc i) ?slots @ assign (drop (Suc i) slots) rs,
             overwrite (refs[j := ?r]) (Suc j) rs, g'))"
      using Suc.hyps(1) [of ?slots "Suc i" "Suc j" "refs[j := ?r]" ?g] i Suc.prems m tk by simp
    finally show ?thesis
      unfolding tk using i j True
      by (simp add: d gnttab_grant_foreign_access_def overwrite_Cons take_Suc_update_drop Let_def
          split: prod.splits)
  qed
qed

lemma assign_ptrs:
  "\<forall>s \<in> set ss. s_ptr s = 0 \<or> s_ptr s = 1 \<Longrightarrow> length rs = marks ss \<Longrightarrow> \<forall>r \<in> set rs. 8 \<le> r \<Longrightarrow>
     filter (\<lambda>p. p \<noteq> 0) (map s_ptr (assign ss rs)) = map ucast rs"
proof (induction ss arbitrary: rs)
  case Nil
  then show ?case by (simp add: marks_def)
next
  case (Cons s ss)
  show ?case
  proof (cases "s_ptr s = 1")
    case True
    then obtain r rs' where rs: "rs = r # rs'" using Cons.prems(2) by (cases rs) (auto simp: marks_def)
    have "ucast r \<noteq> (0 :: u64)"
    proof
      assume "ucast r = (0 :: u64)"
      then have "ucast (ucast r :: u64) = (0 :: u32)" by simp
      then have "r = 0" by simp
      then show False using Cons.prems(3) by (simp add: rs)
    qed
    then show ?thesis using Cons True by (simp add: rs marks_def)
  next
    case False
    then show ?thesis using Cons by (simp add: marks_def)
  qed
qed

lemma length_assign [simp]: "length (assign ss rs) = length ss"
  by (induction ss rs rule: assign.induct) (auto split: list.splits)

section \<open>Sharing a ring\<close>

definition ring_pages :: "xen_api \<Rightarrow> nat \<Rightarrow> nat \<Rightarrow> nat list" where
  "ring_pages X ring_va n =
     [virt_to_page X ring_va..<Suc (virt_to_page X (ring_va + sizeof_ring X + (n - 1) * sizeof_slot X))]"

text \<open>
  A ring that can be shared: the areas that \<open>vmalloc\<close> returns hold the pages and the
  references that are written, the one past the ring's pages included, no page is null, and
  the unwritten first entry of the buffer pages does not happen to be the first page.
\<close>

definition shareable :: "xen_api \<Rightarrow> (u32 \<Rightarrow> nat) \<Rightarrow> nat \<Rightarrow> nring \<Rightarrow> bool" where
  "shareable X lut ring_va ring \<longleftrightarrow>
     (let slots = r_slots ring; n = length slots; R = buffer_pages X lut slots;
          P = ring_pages X ring_va n; nr = RING_NR_PAGES X n + 1
      in slots \<noteq> [] \<and> n \<le> 65536 \<and> P \<noteq> [] \<and> length P < 65536
       \<and> length P < length (vmalloc_pg X nr) \<and> length P < length (vmalloc_ref X nr)
       \<and> (\<exists>b. BUFS_NR_PAGES X ring = Some b
            \<and> length R \<le> length (vmalloc_pg X (b + 1)) \<and> length R \<le> length (vmalloc_ref X (b + 1))
            \<and> vmalloc_pg X (b + 1) ! 0 \<noteq> slot_page X lut (slots ! 0))
       \<and> (\<forall>p \<in> set R. p \<noteq> 0))"

lemma buffer_pages_bounds:
  "slots \<noteq> [] \<Longrightarrow> 0 < length (buffer_pages X lut slots)"
  "length (buffer_pages X lut slots) \<le> length slots"
  using remdups_adj_length [of "map (slot_page X lut) slots"] by (simp_all add: buffer_pages_def)

lemma nm_ring_pages_eq:
  assumes "ring_pages X va n \<noteq> []" "length (ring_pages X va n) \<le> length pages"
    "length (ring_pages X va n) < 65536"
  obtains nr where "nm_ring_pages X va n pages = Some (nr, overwrite pages 0 (ring_pages X va n))"
    "unat nr = length (ring_pages X va n)"
proof -
  let ?s = "virt_to_page X va" and ?e = "virt_to_page X (va + sizeof_ring X + (n - 1) * sizeof_slot X)"
  have le: "?s \<le> ?e" "Suc ?e - ?s \<le> length pages" "Suc ?e - ?s < 65536"
    using assms by (auto simp: ring_pages_def split: if_splits)
  then have l: "ring_pages_loop ?s ?e 0 pages = Some (overwrite pages 0 (ring_pages X va n))"
    by (simp only: ring_pages_loop_eq add_0 ring_pages_def)
  have i: "int ?e - int ?s + 1 = int (Suc ?e - ?s)" using le(1) by simp
  have "unat (of_nat (Suc ?e - ?s) :: u16) = Suc ?e - ?s"
    using le(3) by (simp only: unat_of_nat) simp
  then have "unat (of_int (int ?e - int ?s + 1) :: u16) = length (ring_pages X va n)"
    unfolding i by (simp only: of_int_of_nat_eq ring_pages_def length_upt)
  then show thesis using that l by (simp add: nm_ring_pages_def Let_def)
qed

lemma xenvif_grant_ring_spec:
  assumes share: "shareable X lut va ring"
  defines "R \<equiv> buffer_pages X lut (r_slots ring)" and "P \<equiv> ring_pages X va (length (r_slots ring))"
  obtains gnt slots rs g1 rs' g2 junk where
    "xenvif_grant_ring X lut va ring (length (r_slots ring)) domid g = Some (gnt, ring\<lparr>r_slots := slots\<rparr>, g2)"
    "grant_list X domid (map (page_mfn X) R) g = (rs, g1)"
    "grant_list X domid (map (page_mfn X) (P @ [junk])) g1 = (rs', g2)"
    "slots = assign (marked_slots X lut (r_slots ring)) rs"
    "take (length R) (buf_ref gnt) = rs" "unat (nr_buf_pgs gnt) + 1 = length R"
    "take (length P + 1) (ring_ref gnt) = rs'" "unat (nr_ring_pgs gnt) = length P"
    "length R \<le> length (buf_ref gnt)" "length P < length (ring_ref gnt)"
    "junk = vmalloc_pg X (RING_NR_PAGES X (length (r_slots ring)) + 1) ! length P"
proof -
  let ?slots = "r_slots ring" and ?n = "length (r_slots ring)"
  let ?nr = "RING_NR_PAGES X ?n + 1"
  obtain b where b: "BUFS_NR_PAGES X ring = Some b" and s: "?slots \<noteq> []" "?n \<le> 65536"
    and P: "P \<noteq> []" "length P < 65536" "length P < length (vmalloc_pg X ?nr)" "length P < length (vmalloc_ref X ?nr)"
    and R: "length R \<le> length (vmalloc_pg X (b + 1))" "length R \<le> length (vmalloc_ref X (b + 1))"
      "vmalloc_pg X (b + 1) ! 0 \<noteq> slot_page X lut (?slots ! 0)" "\<forall>p \<in> set R. p \<noteq> 0"
    using share by (auto simp: shareable_def Let_def R_def P_def)
  have bl: "0 < length R" "length R \<le> ?n" using buffer_pages_bounds s(1) by (simp_all add: R_def)
  obtain nr where rp: "nm_ring_pages X va ?n (vmalloc_pg X ?nr) = Some (nr, overwrite (vmalloc_pg X ?nr) 0 P)"
    "unat nr = length P"
    using nm_ring_pages_eq [of X va ?n "vmalloc_pg X ?nr"] P(1-3) unfolding P_def by auto
  define nb where "nb = (of_nat (length R - 1) :: u16)"
  have nb: "unat nb + 1 = length R" using bl s(2) by (simp add: nb_def unat_of_nat)
  have bp: "nm_buf_pages X lut ?n ?slots (vmalloc_pg X (b + 1)) =
     Some (nb, marked_slots X lut ?slots, overwrite (vmalloc_pg X (b + 1)) 0 R)"
    using nm_buf_pages_eq [OF s(1) _ R(3)] R(1) by (simp add: R_def nb_def)
  let ?m = "marked_slots X lut ?slots"
  have m: "length ?m = ?n" by (simp add: marked_slots_def split: list.splits)
  have mk: "marks ?m = length R" by (simp add: marks_def count_marked_slots R_def)
  obtain rs g1 where g1: "grant_list X domid (map (page_mfn X) R) g = (rs, g1)" by fastforce
  then have rsl: "length rs = length R" by (simp add: length_grant_list)
  have tR: "take (length R) (overwrite (vmalloc_pg X (b + 1)) 0 R) = R" by (rule take_overwrite_0)
  have lR: "length (overwrite (vmalloc_pg X (b + 1)) 0 R) = length (vmalloc_pg X (b + 1))"
    using R(1) by (simp add: length_overwrite)
  have gb: "grant_bufs_loop X domid ?n (overwrite (vmalloc_pg X (b + 1)) 0 R) 0 0 ?m (vmalloc_ref X (b + 1)) g
      = Some (assign ?m rs, overwrite (vmalloc_ref X (b + 1)) 0 rs, g1)"
    using grant_bufs_loop_eq [of 0 ?m 0 "overwrite (vmalloc_pg X (b + 1)) 0 R" "vmalloc_ref X (b + 1)" X domid g]
      R(1,2,4) g1 by (simp add: m mk tR [simplified] lR [simplified])
  let ?pp = "overwrite (vmalloc_pg X ?nr) 0 P"
  define junk where "junk = vmalloc_pg X ?nr ! length P"
  have lP: "length ?pp = length (vmalloc_pg X ?nr)" using P(3) by (simp add: length_overwrite)
  have "drop (length P) (vmalloc_pg X ?nr) = junk # drop (Suc (length P)) (vmalloc_pg X ?nr)"
    unfolding junk_def using P(3) by (rule Cons_nth_drop_Suc [symmetric])
  then have tP: "take (Suc (length P)) ?pp = P @ [junk]" by (simp add: overwrite_def)
  obtain rs' g2 where g2: "grant_list X domid (map (page_mfn X) (P @ [junk])) g1 = (rs', g2)" by fastforce
  then have rsl': "length rs' = length P + 1" by (simp add: length_grant_list)
  have gr: "grant_ring_loop X domid (unat nr) ?pp 0 (vmalloc_ref X ?nr) g1
      = Some (overwrite (vmalloc_ref X ?nr) 0 rs', g2)"
    using grant_ring_loop_eq [of "unat nr" ?pp "vmalloc_ref X ?nr" 0 X domid g1] P(3,4) g2
    by (simp add: rp(2) lP [simplified] tP [simplified])
  let ?gnt = "\<lparr>ring_pg = ?pp, buf_pg = overwrite (vmalloc_pg X (b + 1)) 0 R,
     ring_ref = overwrite (vmalloc_ref X ?nr) 0 rs', buf_ref = overwrite (vmalloc_ref X (b + 1)) 0 rs,
     nr_buf_pgs = nb, nr_ring_pgs = nr\<rparr>"
  have res: "xenvif_grant_ring X lut va ring ?n domid g = Some (?gnt, ring\<lparr>r_slots := assign ?m rs\<rparr>, g2)"
    using b rp bp gb gr by (simp add: xenvif_grant_ring_def)
  show thesis
    by (rule that [OF res g1 g2 refl])
       (use nb rp(2) rsl rsl' R(2) P(4) take_overwrite_0 [of rs] take_overwrite_0 [of rs'] in
         \<open>simp_all add: length_overwrite junk_def\<close>)
qed

text \<open>
  Sharing a ring in a table with room: the table grows by fresh references, first those of
  the buffers, then those of the ring and of the entry behind it, and revoking forgets
  exactly these, whatever else has been granted meanwhile.
\<close>

definition released :: "nm_grant_ring \<Rightarrow> nm_grant_ring" where
  "released gnt = gnt\<lparr>nr_buf_pgs := 0, nr_ring_pgs := 0, ring_ref := [], buf_ref := [], ring_pg := [], buf_pg := []\<rparr>"

definition ring_room :: "xen_api \<Rightarrow> (u32 \<Rightarrow> nat) \<Rightarrow> nat \<Rightarrow> nring \<Rightarrow> nat" where
  "ring_room X lut va ring =
     length (buffer_pages X lut (r_slots ring)) + length (ring_pages X va (length (r_slots ring))) + 1"

lemma shared_ring:
  assumes X: "xen_ok X" and share: "shareable X lut va ring"
    and room: "card (dom g) + ring_room X lut va ring \<le> gnttab_max X"
  defines "R \<equiv> buffer_pages X lut (r_slots ring)" and "P \<equiv> ring_pages X va (length (r_slots ring))"
  obtains gnt slots rs rs' g' where
    "xenvif_grant_ring X lut va ring (length (r_slots ring)) domid g = Some (gnt, ring\<lparr>r_slots := slots\<rparr>, g')"
    "take (length R) (buf_ref gnt) = rs" "take (length P + 1) (ring_ref gnt) = rs'"
    "length rs = length R" "length rs' = length P + 1"
    "unat (nr_buf_pgs gnt) + 1 = length R" "unat (nr_ring_pgs gnt) = length P"
    "length P < length (ring_ref gnt)"
    "\<forall>i < length R. g' (rs ! i) = Some (domid, page_mfn X (R ! i))"
    "\<forall>i < length P. g' (rs' ! i) = Some (domid, page_mfn X (P ! i))"
    "g' (rs' ! length P) = Some (domid, page_mfn X (vmalloc_pg X (RING_NR_PAGES X (length (r_slots ring)) + 1) ! length P))"
    "filter (\<lambda>p. p \<noteq> 0) (map s_ptr slots) = map ucast rs" "length slots = length (r_slots ring)"
    "set rs \<inter> dom g = {}" "set rs' \<inter> dom g = {}" "\<forall>r. r \<notin> set rs \<union> set rs' \<longrightarrow> g' r = g r"
    "card (dom g') = card (dom g) + ring_room X lut va ring"
    "forget rs (forget rs' g') = g"
    "\<forall>h. xenvif_revoke_ring gnt h = Some (released gnt, forget rs (forget rs' h))"
proof -
  obtain gnt slots rs g1 rs' g2 junk where r:
    "xenvif_grant_ring X lut va ring (length (r_slots ring)) domid g = Some (gnt, ring\<lparr>r_slots := slots\<rparr>, g2)"
    and g1: "grant_list X domid (map (page_mfn X) R) g = (rs, g1)"
    and g2: "grant_list X domid (map (page_mfn X) (P @ [junk])) g1 = (rs', g2)"
    and slots: "slots = assign (marked_slots X lut (r_slots ring)) rs"
    and b: "take (length R) (buf_ref gnt) = rs" "unat (nr_buf_pgs gnt) + 1 = length R"
    and p: "take (length P + 1) (ring_ref gnt) = rs'" "unat (nr_ring_pgs gnt) = length P"
    and l: "length R \<le> length (buf_ref gnt)" "length P < length (ring_ref gnt)"
    and junk: "junk = vmalloc_pg X (RING_NR_PAGES X (length (r_slots ring)) + 1) ! length P"
    unfolding R_def P_def by (rule xenvif_grant_ring_spec [OF share])
  have room': "card (dom g) + length R + length P + 1 \<le> gnttab_max X"
    using room by (simp add: ring_room_def R_def P_def)
  have c1: "card (dom g) + length (map (page_mfn X) R) \<le> gnttab_max X" using room' by simp
  note f1 = grant_list_fresh [OF X c1 g1]
  have c2: "card (dom g1) + length (map (page_mfn X) (P @ [junk])) \<le> gnttab_max X" using f1 room' by simp
  note f2 = grant_list_fresh [OF X c2 g2]
  have ll: "length rs = length R" "length rs' = length P + 1"
    using length_grant_list [OF g1] length_grant_list [OF g2] by simp_all
  have bufs: "\<forall>i < length R. g2 (rs ! i) = Some (domid, page_mfn X (R ! i))"
  proof (intro allI impI)
    fix i assume i: "i < length R"
    then have g1i: "g1 (rs ! i) = Some (domid, page_mfn X (R ! i))" using f1 by simp
    then have "rs ! i \<notin> set rs'" using f2 by auto
    then show "g2 (rs ! i) = Some (domid, page_mfn X (R ! i))" using f2 g1i by simp
  qed
  have rings: "\<forall>i < length P. g2 (rs' ! i) = Some (domid, page_mfn X (P ! i))"
    "g2 (rs' ! length P) = Some (domid, page_mfn X junk)"
    using f2 by (simp_all add: nth_append)
  have ptrs: "filter (\<lambda>p. p \<noteq> 0) (map s_ptr slots) = map ucast rs"
    unfolding slots using f1 ll(1) marked_slots_01
    by (intro assign_ptrs) (auto simp: marks_def count_marked_slots R_def)
  have len: "length slots = length (r_slots ring)"
    by (simp add: slots length_assign marked_slots_def split: list.splits)
  have d1: "set rs \<inter> dom g = {}" "\<forall>r. r \<notin> set rs \<longrightarrow> g1 r = g r" using f1 by blast+
  have sub: "dom g \<subseteq> dom g1"
  proof
    fix r assume "r \<in> dom g"
    then have "r \<notin> set rs" using d1(1) by blast
    then have "g1 r = g r" using d1(2) by blast
    then show "r \<in> dom g1" using \<open>r \<in> dom g\<close> by (simp add: domIff)
  qed
  have "set rs' \<inter> dom g1 = {}" using f2 by blast
  then have fresh: "set rs \<inter> dom g = {}" "set rs' \<inter> dom g = {}" using d1(1) sub by blast+
  have frame: "\<forall>r. r \<notin> set rs \<union> set rs' \<longrightarrow> g2 r = g r" using f1 f2 by simp
  have "card (dom g2) = card (dom g) + ring_room X lut va ring"
    using f1 f2 by (simp add: ring_room_def R_def P_def)
  moreover have "forget rs (forget rs' g2) = g"
    using forget_grant_list [OF X c1 g1] forget_grant_list [OF X c2 g2] by simp
  moreover have "xenvif_revoke_ring gnt h = Some (released gnt, forget rs (forget rs' h))" for h
    using revoke_loop_forget [of "unat (nr_ring_pgs gnt)" "ring_ref gnt" 0 h]
      revoke_loop_forget [of "unat (nr_buf_pgs gnt)" "buf_ref gnt" 0 "forget rs' h"] l b p
    by (simp add: xenvif_revoke_ring_def released_def)
  ultimately show thesis
    using that [OF r b(1) p(1) ll b(2) p(2) l(2) bufs rings [unfolded junk] ptrs len fresh frame] by blast
qed

text \<open>C11: Sharing a ring grants every page of its buffers and of the ring itself to the front
  end's domain, in the order of the reference arrays; the nonzero \<open>ptr\<close> fields of the slots
  are then exactly the buffer references in that order; and revoking the ring gives back
  the grant table as it was.\<close>
theorem grant_ring_revoke:
  assumes "xen_ok X" "shareable X lut va ring" "n = length (r_slots ring)"
    and "card (dom g) + length (buffer_pages X lut (r_slots ring)) + length (ring_pages X va n) + 1
           \<le> gnttab_max X"
  shows "\<exists>gnt ring' g' gnt'. xenvif_grant_ring X lut va ring n domid g = Some (gnt, ring', g')
     \<and> (\<forall>i < length (buffer_pages X lut (r_slots ring)).
          g' (buf_ref gnt ! i) = Some (domid, page_mfn X (buffer_pages X lut (r_slots ring) ! i)))
     \<and> (\<forall>i < length (ring_pages X va n).
          g' (ring_ref gnt ! i) = Some (domid, page_mfn X (ring_pages X va n ! i)))
     \<and> filter (\<lambda>p. p \<noteq> 0) (map s_ptr (r_slots ring')) =
         map ucast (take (unat (nr_buf_pgs gnt) + 1) (buf_ref gnt))
     \<and> xenvif_revoke_ring gnt g' = Some (gnt', g)"
proof -
  let ?R = "buffer_pages X lut (r_slots ring)" and ?P = "ring_pages X va (length (r_slots ring))"
  have room: "card (dom g) + ring_room X lut va ring \<le> gnttab_max X"
    using assms(3,4) by (simp add: ring_room_def)
  obtain gnt slots rs rs' g' where r:
    "xenvif_grant_ring X lut va ring (length (r_slots ring)) domid g = Some (gnt, ring\<lparr>r_slots := slots\<rparr>, g')"
    and s: "take (length ?R) (buf_ref gnt) = rs" "take (length ?P + 1) (ring_ref gnt) = rs'"
      "unat (nr_buf_pgs gnt) + 1 = length ?R"
    and g: "\<forall>i < length ?R. g' (rs ! i) = Some (domid, page_mfn X (?R ! i))"
      "\<forall>i < length ?P. g' (rs' ! i) = Some (domid, page_mfn X (?P ! i))"
    and e: "filter (\<lambda>p. p \<noteq> 0) (map s_ptr slots) = map ucast rs" "forget rs (forget rs' g') = g"
      "\<forall>h. xenvif_revoke_ring gnt h = Some (released gnt, forget rs (forget rs' h))"
    by (rule shared_ring [OF assms(1,2) room])
  have "buf_ref gnt ! i = rs ! i" if "i < length ?R" for i using s(1) that by (metis nth_take)
  moreover have "ring_ref gnt ! i = rs' ! i" if "i < length ?P" for i
    using s(2) that by (metis nth_take trans_less_add1)
  ultimately show ?thesis using r g e s(1,3) unfolding assms(3) by auto
qed

text \<open>C31: The loop over the pages of the ring runs once more than there are pages: the front
  end is also granted whatever frame the unwritten entry behind them denotes.\<close>
theorem grant_ring_extra_page:
  assumes "xen_ok X" "shareable X lut va ring" "n = length (r_slots ring)"
    and "card (dom g) + length (buffer_pages X lut (r_slots ring)) + length (ring_pages X va n) + 1
           \<le> gnttab_max X"
  shows "\<exists>gnt ring' g'. xenvif_grant_ring X lut va ring n domid g = Some (gnt, ring', g')
     \<and> unat (nr_ring_pgs gnt) = length (ring_pages X va n)
     \<and> g' (ring_ref gnt ! length (ring_pages X va n)) =
         Some (domid, page_mfn X (vmalloc_pg X (RING_NR_PAGES X n + 1) ! length (ring_pages X va n)))"
proof -
  let ?P = "ring_pages X va (length (r_slots ring))"
  have room: "card (dom g) + ring_room X lut va ring \<le> gnttab_max X"
    using assms(3,4) by (simp add: ring_room_def)
  obtain gnt slots rs rs' g' where r:
    "xenvif_grant_ring X lut va ring (length (r_slots ring)) domid g = Some (gnt, ring\<lparr>r_slots := slots\<rparr>, g')"
    "take (length ?P + 1) (ring_ref gnt) = rs'" "unat (nr_ring_pgs gnt) = length ?P"
    "g' (rs' ! length ?P) = Some (domid, page_mfn X (vmalloc_pg X (RING_NR_PAGES X (length (r_slots ring)) + 1) ! length ?P))"
    by (rule shared_ring [OF assms(1,2) room])
  moreover have "ring_ref gnt ! length ?P = rs' ! length ?P" using r(2) by (metis less_add_one nth_take)
  ultimately show ?thesis unfolding assms(3) by auto
qed

text \<open>If \<open>vmalloc\<close> returns no more entries than asked for and the ring fills the pages
  counted for it, that extra round leaves the arrays.\<close>
lemma grant_ring_overruns:
  assumes "length (ring_pages X va n) = RING_NR_PAGES X n + 1"
    and "length (vmalloc_pg X (RING_NR_PAGES X n + 1)) = RING_NR_PAGES X n + 1"
    and "RING_NR_PAGES X n + 1 < 65536"
  shows "xenvif_grant_ring X lut va ring n domid g = None"
proof -
  have ne: "ring_pages X va n \<noteq> []" using assms(1) by auto
  obtain nr where rp: "nm_ring_pages X va n (vmalloc_pg X (RING_NR_PAGES X n + 1)) =
      Some (nr, overwrite (vmalloc_pg X (RING_NR_PAGES X n + 1)) 0 (ring_pages X va n))"
    "unat nr = length (ring_pages X va n)"
    using nm_ring_pages_eq [OF ne, of "vmalloc_pg X (RING_NR_PAGES X n + 1)"] assms by auto
  have fault: "i \<le> nr \<Longrightarrow> length pages \<le> nr \<Longrightarrow> grant_ring_loop X domid nr pages i refs g = None"
    for i nr pages refs g
  proof (induction "Suc nr - i" arbitrary: i refs g)
    case 0
    then show ?case by simp
  next
    case (Suc k)
    show ?case
    proof (cases "i = nr")
      case True
      then show ?thesis using Suc.prems by (simp add: grant_ring_loop.simps arr_get_None)
    next
      case False
      then have "grant_ring_loop X domid nr pages (Suc i) refs g = None" for refs g
        using Suc.hyps(1) [of "Suc i"] Suc.hyps(2) Suc.prems by simp
      then show ?thesis using Suc.prems
        by (simp add: grant_ring_loop.simps [of X domid nr pages i] gnttab_grant_foreign_access_def
            Let_def split: option.splits)
    qed
  qed
  have "grant_ring_loop X domid (unat nr)
      (overwrite (vmalloc_pg X (RING_NR_PAGES X n + 1)) 0 (ring_pages X va n)) 0 refs g = None" for refs g
    using assms(1,2) by (intro fault) (simp_all add: rp(2) length_overwrite)
  note fault = this
  show ?thesis
  proof (cases "BUFS_NR_PAGES X ring")
    case None
    then show ?thesis by (simp add: xenvif_grant_ring_def)
  next
    case (Some b)
    show ?thesis
    proof (cases "nm_buf_pages X lut n (r_slots ring) (vmalloc_pg X (b + 1))")
      case None
      then show ?thesis using Some rp(1) by (simp add: xenvif_grant_ring_def)
    next
      case bp: (Some t)
      obtain nb ss bps where t: "t = (nb, ss, bps)" by (cases t)
      then show ?thesis using Some rp(1) bp fault
        by (cases "grant_bufs_loop X domid n bps 0 0 ss (vmalloc_ref X (b + 1)) g")
           (auto simp: xenvif_grant_ring_def)
    qed
  qed
qed

section \<open>A concrete instance\<close>

text \<open>
  Pages of 4096 bytes, the lowest free reference, and arrays with eight entries to spare
  filled with 77; a ring of three slots on one page whose buffers take two pages.
\<close>

definition sample_refs :: "u32 list" where
  "sample_refs = map of_nat [8..<1000]"

definition sample_xen :: xen_api where
  "sample_xen = \<lparr>virt_to_page = \<lambda>va. va div 4096, page_mfn = \<lambda>p. p + 1000,
     gnttab_ref = \<lambda>g. hd (filter (\<lambda>r. g r = None) sample_refs), gnttab_max = 900,
     vmalloc_pg = \<lambda>n. replicate (n + 8) 77, vmalloc_ref = \<lambda>n. replicate (n + 8) 0,
     sizeof_ring = 256, sizeof_slot = 16, PAGE_SIZE = 4096\<rparr>"

definition sample_lut :: "u32 \<Rightarrow> nat" where
  "sample_lut idx = 81920 + 2048 * unat idx"

definition sample_ring :: nring where
  "sample_ring = \<lparr>num_slots = 3, r_head = 0, r_cur = 0, r_tail = 2,
     r_slots = [\<lparr>s_buf_idx = 4, s_len = 2048, s_flags = 0, s_ptr = 0\<rparr>,
                \<lparr>s_buf_idx = 5, s_len = 2048, s_flags = 0, s_ptr = 0\<rparr>,
                \<lparr>s_buf_idx = 6, s_len = 2048, s_flags = 0, s_ptr = 0\<rparr>]\<rparr>"

lemma sample_xen_ok: "xen_ok sample_xen"
proof -
  have "g (gnttab_ref sample_xen g) = None \<and> 8 \<le> gnttab_ref sample_xen g" if c: "card (dom g) < 900" for g
  proof -
    let ?free = "filter (\<lambda>r. g r = None) sample_refs"
    have s: "set sample_refs = of_nat ` {8..<1000}"
      by (simp only: sample_refs_def set_map set_upt)
    have inj: "inj_on (of_nat :: nat \<Rightarrow> u32) {8..<1000}"
    proof (rule inj_onI)
      fix x y :: nat assume "x \<in> {8..<1000}" "y \<in> {8..<1000}" "(of_nat x :: u32) = of_nat y"
      then have "unat (of_nat x :: u32) = unat (of_nat y :: u32)" by simp
      then show "x = y" using \<open>x \<in> _\<close> \<open>y \<in> _\<close> by (simp add: unat_of_nat)
    qed
    then have "card (set sample_refs) = 992" by (simp add: s card_image)
    then have "\<not> set sample_refs \<subseteq> dom g" using c card_mono [of "dom g" "set sample_refs"] by fastforce
    then have "?free \<noteq> []" by (auto simp: filter_empty_conv domIff)
    then have "hd ?free \<in> set ?free" by (rule hd_in_set)
    then obtain x where x: "g (hd ?free) = None" "hd ?free = of_nat x" "8 \<le> x" "x < 1000"
      by (auto simp: s)
    then have "8 \<le> unat (of_nat x :: u32)" by (simp add: unat_of_nat)
    then have "8 \<le> hd ?free" unfolding x(2) by (simp add: word_le_nat_alt)
    then show ?thesis using x(1) by (simp add: sample_xen_def)
  qed
  then show ?thesis by (simp add: xen_ok_def) (simp add: sample_xen_def)
qed

lemma sample_pages:
  "ring_pages sample_xen 40960 3 = [10]"
  "buffer_pages sample_xen sample_lut (r_slots sample_ring) = [22, 23]"
  by (simp_all add: ring_pages_def buffer_pages_def slot_page_def sample_xen_def sample_lut_def
      sample_ring_def)

lemma sample_shareable: "shareable sample_xen sample_lut 40960 sample_ring"
proof -
  have "length (r_slots sample_ring) = 3" "r_slots sample_ring \<noteq> []"
    "\<exists>b. BUFS_NR_PAGES sample_xen sample_ring = Some b"
    "slot_page sample_xen sample_lut (r_slots sample_ring ! 0) = 22"
    by (simp_all add: sample_ring_def BUFS_NR_PAGES_def arr_get_def slot_page_def sample_xen_def
        sample_lut_def)
  moreover have "vmalloc_pg sample_xen n = replicate (n + 8) 77"
    "vmalloc_ref sample_xen n = replicate (n + 8) 0" for n
    by (simp_all add: sample_xen_def)
  ultimately show ?thesis by (auto simp: shareable_def Let_def sample_pages)
qed

lemma sample_room: "card (dom (Map.empty :: grants)) + length (buffer_pages sample_xen sample_lut (r_slots sample_ring))
    + length (ring_pages sample_xen 40960 3) + 1 \<le> gnttab_max sample_xen"
  by (simp add: sample_pages) (simp add: sample_xen_def)

theorem nm_buf_pages_runs_witness:
  "\<exists>nr slots' pages'. nm_buf_pages sample_xen sample_lut 3 (r_slots sample_ring) [77, 77, 77] = Some (nr, slots', pages')
     \<and> take (unat nr + 1) pages' = [22, 23] \<and> s_ptr (slots' ! 2) = 1"
proof -
  have n: "length (r_slots sample_ring) = 3" "r_slots sample_ring \<noteq> []"
    by (simp_all add: sample_ring_def)
  have R: "remdups_adj (map (slot_page sample_xen sample_lut) (r_slots sample_ring)) = [22, 23]"
    using sample_pages(2) by (simp add: buffer_pages_def)
  have p: "slot_page sample_xen sample_lut (r_slots sample_ring ! 0) = 22"
    "slot_page sample_xen sample_lut (r_slots sample_ring ! Suc 0) = 22"
    "slot_page sample_xen sample_lut (r_slots sample_ring ! 2) = 23"
    by (simp_all add: sample_ring_def slot_page_def sample_xen_def sample_lut_def)
  show ?thesis
    using nm_buf_pages_runs [OF n(2), of sample_xen sample_lut "[77, 77, 77]"]
    unfolding R n(1) by (auto simp: p)
qed

theorem grant_ring_revoke_witness:
  "\<exists>gnt ring' g' gnt'. xenvif_grant_ring sample_xen sample_lut 40960 sample_ring 3 1 Map.empty = Some (gnt, ring', g')
     \<and> g' (buf_ref gnt ! 1) = Some (1, 1023) \<and> xenvif_revoke_ring gnt g' = Some (gnt', Map.empty)"
proof -
  have n: "3 = length (r_slots sample_ring)" by (simp add: sample_ring_def)
  have m: "page_mfn sample_xen 23 = 1023" by (simp add: sample_xen_def)
  show ?thesis
    using grant_ring_revoke [OF sample_xen_ok sample_shareable n sample_room, of 1]
    unfolding sample_pages by (fastforce simp: m)
qed

theorem grant_ring_extra_page_witness:
  "\<exists>gnt ring' g'. xenvif_grant_ring sample_xen sample_lut 40960 sample_ring 3 1 Map.empty = Some (gnt, ring', g')
     \<and> g' (ring_ref gnt ! 1) = Some (1, 1077)"
proof -
  have n: "3 = length (r_slots sample_ring)" by (simp add: sample_ring_def)
  have l: "length [10 :: nat] = 1" by simp
  have m: "page_mfn sample_xen (vmalloc_pg sample_xen (RING_NR_PAGES sample_xen 3 + 1) ! 1) = 1077"
    by (simp add: sample_xen_def)
  show ?thesis
    using grant_ring_extra_page [OF sample_xen_ok sample_shareable n sample_room, of 1]
    unfolding sample_pages l m by blast
qed


end
