(* ===== verification/Xenbus.thy ===== *)
theory Xenbus
  imports Netback_Grants
begin

text \<open>
  The exchange of the ring references through XenStore: the back end writes them under the
  front end's directory (\<open>xenbus_write_grefs\<close> of \<open>LINUX/netback_netmap_linux.h\<close>), the front
  end reads them (\<open>xenbus_read_ring_grefs\<close> of \<open>LINUX/netfront_netmap_linux.h\<close>). The store is
  a map from directory and node to a string; which writes fail is a parameter. The names
  are printed by both sides into buffers of different sizes.
\<close>

type_synonym store = "(string \<times> string) \<rightharpoonup> string"

text \<open>\<open>xenbus_printf\<close> and the conversion \<open>%d\<close> of \<open>xenbus_scanf\<close>: blanks, a minus sign and digits,
  cut to an \<open>int\<close>; the target stays as it is when there is no number to read.\<close>

definition xenbus_printf :: "(string \<times> string \<Rightarrow> int) \<Rightarrow> store \<Rightarrow> string \<Rightarrow> string \<Rightarrow> string \<Rightarrow> int \<times> store" where
  "xenbus_printf E st dir node val =
     (if E (dir, node) \<noteq> 0 then (E (dir, node), st) else (0, st((dir, node) \<mapsto> val)))"

definition sscanf_d :: "string \<Rightarrow> u32 option" where
  "sscanf_d s =
     (let s = dropWhile is_blank s; neg = (s \<noteq> [] \<and> hd s = CHR ''-''); ds = digits_of (if neg then tl s else s)
      in if ds = [] then None else Some (if neg then - of_nat (undec ds) else of_nat (undec ds)))"

definition xenbus_scan :: "store \<Rightarrow> string \<Rightarrow> string \<Rightarrow> u32 \<Rightarrow> u32" where
  "xenbus_scan st dir node old =
     (case st (dir, node) of None \<Rightarrow> old
      | Some s \<Rightarrow> (case sscanf_d s of None \<Rightarrow> old | Some v \<Rightarrow> v))"

section \<open>The back end writes\<close>

text \<open>\<open>char name[sizeof("tx-ring-ref") + 2]\<close>: two digits fit.\<close>

definition gref_name :: "string \<Rightarrow> nat \<Rightarrow> string" where
  "gref_name pre i = snprintf (length pre + 1 + 2) (pre @ dec_nat i)"

definition nr_name :: "string \<Rightarrow> string" where
  "nr_name node = snprintf (length ''rx-ring-refs'' + 1 + 2) node"

function write_refs_loop ::
  "(string \<times> string \<Rightarrow> int) \<Rightarrow> string \<Rightarrow> string \<Rightarrow> u32 list \<Rightarrow> nat \<Rightarrow> nat \<Rightarrow> store \<Rightarrow> (int \<times> store) option" where
  "write_refs_loop E dir pre refs nr i st =
     (if i \<le> nr then
        (case arr_get refs i of
           None \<Rightarrow> None
         | Some r \<Rightarrow>
             (let (err, st) = xenbus_printf E st dir (gref_name pre i) (fmt_u r)
              in if err \<noteq> 0 then Some (err, st) else write_refs_loop E dir pre refs nr (i + 1) st))
      else Some (0, st))"
  by pat_completeness auto

termination write_refs_loop
  by (relation "measure (\<lambda>(E, d, p, r, n, i, s). Suc n - i)") auto

declare write_refs_loop.simps [simp del]

text \<open>The error of writing a count is assigned and not looked at.\<close>

definition xenbus_write_grefs ::
  "(string \<times> string \<Rightarrow> int) \<Rightarrow> string \<Rightarrow> nm_grant_ring \<Rightarrow> nm_grant_ring \<Rightarrow> store \<Rightarrow> (int \<times> store) option" where
  "xenbus_write_grefs E otherend nmtx nmrx st = do {
     (err, st) \<leftarrow> write_refs_loop E otherend ''tx-ring-ref'' (ring_ref nmtx) (unat (nr_ring_pgs nmtx)) 0 st;
     if err \<noteq> 0 then Some (err, st) else do {
       let (err, st) = xenbus_printf E st otherend (nr_name ''tx-ring-refs'')
                         (fmt_u (ucast (nr_ring_pgs nmtx) + 1));
       (err, st) \<leftarrow> write_refs_loop E otherend ''rx-ring-ref'' (ring_ref nmrx) (unat (nr_ring_pgs nmrx)) 0 st;
       if err \<noteq> 0 then Some (err, st) else do {
         let (err, st) = xenbus_printf E st otherend (nr_name ''rx-ring-refs'')
                           (fmt_u (ucast (nr_ring_pgs nmrx) + 1));
         Some (0, st)
       }
     }
   }"

section \<open>The front end reads\<close>

text \<open>\<open>char path[256]\<close>: no name of a reference is cut.\<close>

definition gref_path :: "string \<Rightarrow> nat \<Rightarrow> string" where
  "gref_path pre i = snprintf 256 (pre @ dec_nat i)"

function read_refs_loop :: "store \<Rightarrow> string \<Rightarrow> string \<Rightarrow> nat \<Rightarrow> nat \<Rightarrow> u32 list \<Rightarrow> u32 list option" where
  "read_refs_loop st nodename pre nr i refs =
     (if i < nr then
        (case arr_get refs i of
           None \<Rightarrow> None
         | Some old \<Rightarrow> read_refs_loop st nodename pre nr (i + 1)
                        (refs[i := xenbus_scan st nodename (gref_path pre i) old]))
      else Some refs)"
  by pat_completeness auto

termination read_refs_loop
  by (relation "measure (\<lambda>(s, d, p, n, i, r). n - i)") auto

declare read_refs_loop.simps [simp del]

text \<open>
  The descriptor of one direction: the fields of \<open>struct netmap_gnt\<close> that this step sets;
  the areas of \<open>vmalloc\<close> are a parameter.
\<close>

record ring_grefs_read =
  nr_ring_grefs :: u32
  ring_grefs :: "u32 list"

definition read_ring_grefs_dir ::
  "(nat \<Rightarrow> u32 list) \<Rightarrow> store \<Rightarrow> string \<Rightarrow> string \<Rightarrow> string \<Rightarrow> u32 \<Rightarrow> ring_grefs_read option" where
  "read_ring_grefs_dir vm st nodename count pre old =
     (let nr = xenbus_scan st nodename count old in do {
        refs \<leftarrow> read_refs_loop st nodename pre (unat nr) 0 (vm (unat nr));
        Some \<lparr>nr_ring_grefs = nr, ring_grefs = refs\<rparr>
      })"

definition xenbus_read_ring_grefs ::
  "(nat \<Rightarrow> u32 list) \<Rightarrow> store \<Rightarrow> string \<Rightarrow> u32 \<Rightarrow> u32 \<Rightarrow> (ring_grefs_read \<times> ring_grefs_read) option" where
  "xenbus_read_ring_grefs vm st nodename old_tx old_rx = do {
     tx \<leftarrow> read_ring_grefs_dir vm st nodename ''tx-ring-refs'' ''tx-ring-ref'' old_tx;
     rx \<leftarrow> read_ring_grefs_dir vm st nodename ''rx-ring-refs'' ''rx-ring-ref'' old_rx;
     Some (tx, rx)
   }"

section \<open>What arrives\<close>

lemma dec_nat_two: "i < 100 \<Longrightarrow> length (dec_nat i) \<le> 2"
  using length_dec_nat [of i 2] by simp

lemma gref_name_short: "i < 100 \<Longrightarrow> gref_name pre i = pre @ dec_nat i"
  using dec_nat_two [of i] by (simp add: gref_name_def snprintf_def)

text \<open>From the hundredth reference on, the name that is written is that of another one.\<close>

lemma gref_name_long:
  assumes "100 \<le> i" "i < 1000"
  shows "gref_name pre i = gref_name pre (i div 10)"
proof -
  have d: "dec_nat i = dec_nat (i div 10) @ [digit_char (i mod 10)]"
    using assms by (simp add: dec_nat.simps [of i])
  have "i div 10 < 100" using assms by simp
  moreover have "\<not> i div 10 < 10" using assms by simp
  then have "dec_nat (i div 10) = dec_nat (i div 10 div 10) @ [digit_char (i div 10 mod 10)]"
    by (simp add: dec_nat.simps [of "i div 10"])
  then have "2 \<le> length (dec_nat (i div 10))"
    using dec_nat_not_Nil [of "i div 10 div 10"] by (cases "dec_nat (i div 10 div 10)") auto
  ultimately have "length (dec_nat (i div 10)) = 2" using dec_nat_two [of "i div 10"] by simp
  then show ?thesis by (simp add: gref_name_def snprintf_def d)
qed

lemma sscanf_d_dec_nat: "sscanf_d (dec_nat n) = Some (of_nat n)"
proof -
  have "is_digit (hd (dec_nat n))" using dec_nat_digits [of n] dec_nat_not_Nil [of n] by (metis hd_in_set)
  then have h: "\<not> is_blank (hd (dec_nat n))" "hd (dec_nat n) \<noteq> CHR ''-''"
    by (simp_all add: is_digit_no_blank)
  have "dropWhile is_blank (dec_nat n) = dec_nat n"
    using h(1) by (cases "dec_nat n") simp_all
  then show ?thesis using h(2) by (simp add: sscanf_d_def Let_def digits_of_dec_nat undec_dec_nat)
qed

lemma xenbus_scan_fmt: "st (dir, node) = Some (fmt_u w) \<Longrightarrow> xenbus_scan st dir node old = w"
  by (simp add: xenbus_scan_def fmt_u_def sscanf_d_dec_nat)

text \<open>Writing the references one after the other, without an error.\<close>

lemma write_refs_loop_ok:
  "\<forall>k. E k = 0 \<Longrightarrow> nr < length refs \<Longrightarrow> nr < 100 \<Longrightarrow>
     \<exists>st'. write_refs_loop E dir pre refs nr i st = Some (0, st')
       \<and> (\<forall>k. i \<le> k \<and> k \<le> nr \<longrightarrow> st' (dir, pre @ dec_nat k) = Some (fmt_u (refs ! k)))
       \<and> (\<forall>d node. d \<noteq> dir \<or> node \<notin> (\<lambda>k. pre @ dec_nat k) ` {i..nr} \<longrightarrow> st' (d, node) = st (d, node))"
proof (induction "Suc nr - i" arbitrary: i st)
  case 0
  then show ?case by (auto simp: write_refs_loop.simps)
next
  case (Suc n)
  then have i: "i \<le> nr" "n = Suc nr - Suc i" by simp_all
  let ?st = "st((dir, pre @ dec_nat i) \<mapsto> fmt_u (refs ! i))"
  obtain st' where ih: "write_refs_loop E dir pre refs nr (Suc i) ?st = Some (0, st')"
    "\<forall>k. Suc i \<le> k \<and> k \<le> nr \<longrightarrow> st' (dir, pre @ dec_nat k) = Some (fmt_u (refs ! k))"
    "\<forall>d node. d \<noteq> dir \<or> node \<notin> (\<lambda>k. pre @ dec_nat k) ` {Suc i..nr} \<longrightarrow> st' (d, node) = ?st (d, node)"
    using Suc.hyps(1) [OF i(2) Suc.prems, of ?st] by blast
  have "write_refs_loop E dir pre refs nr i st = Some (0, st')"
    using ih(1) i Suc.prems
    by (simp add: write_refs_loop.simps [of E dir pre refs nr i] arr_get_Some xenbus_printf_def gref_name_short)
  moreover have "st' (dir, pre @ dec_nat i) = Some (fmt_u (refs ! i))"
  proof -
    have "pre @ dec_nat i \<notin> (\<lambda>k. pre @ dec_nat k) ` {Suc i..nr}" by auto
    then show ?thesis using ih(3) by simp
  qed
  moreover have "k = i \<or> Suc i \<le> k" if "i \<le> k" for k using that by linarith
  ultimately show ?case using ih(2,3) i(1)
    by (intro exI [of _ st']) (fastforce simp: image_iff)
qed

lemma read_refs_loop_eq:
  "nr \<le> length refs \<Longrightarrow> i \<le> nr \<Longrightarrow> \<forall>k. i \<le> k \<and> k < nr \<longrightarrow> st (dir, gref_path pre k) = Some (fmt_u (vals ! k)) \<Longrightarrow>
     nr \<le> length vals \<Longrightarrow>
     \<exists>refs'. read_refs_loop st dir pre nr i refs = Some refs' \<and> length refs' = length refs
       \<and> (\<forall>k < i. refs' ! k = refs ! k) \<and> (\<forall>k. i \<le> k \<and> k < nr \<longrightarrow> refs' ! k = vals ! k)"
proof (induction "nr - i" arbitrary: i refs)
  case 0
  then show ?case by (auto simp: read_refs_loop.simps)
next
  case (Suc n)
  then have i: "i < nr" "n = nr - Suc i" "i < length refs" by simp_all
  have v: "xenbus_scan st dir (gref_path pre i) (refs ! i) = vals ! i"
    using Suc.prems(3) i(1) by (intro xenbus_scan_fmt) simp
  obtain refs' where ih: "read_refs_loop st dir pre nr (Suc i) (refs[i := vals ! i]) = Some refs'"
    "length refs' = length refs" "\<forall>k < Suc i. refs' ! k = refs[i := vals ! i] ! k"
    "\<forall>k. Suc i \<le> k \<and> k < nr \<longrightarrow> refs' ! k = vals ! k"
    using Suc.hyps(1) [OF i(2), of "refs[i := vals ! i]"] Suc.prems i by auto
  have "read_refs_loop st dir pre nr i refs = Some refs'"
    using i ih(1) by (simp add: read_refs_loop.simps [of st dir pre nr i] arr_get_Some v)
  moreover have "\<forall>k < i. refs' ! k = refs ! k" using ih(3) by (simp add: less_SucI)
  moreover have "refs' ! i = vals ! i" using ih(3) i by simp
  ultimately show ?case using ih(2,4) by (metis le_antisym not_less_eq_eq)
qed

text \<open>What one direction reads back.\<close>

lemma read_ring_grefs_dir_ok:
  assumes "st (dir, count) = Some (fmt_u (ucast nr + 1))"
    "\<forall>k \<le> unat nr. st (dir, pre @ dec_nat k) = Some (fmt_u (refs ! k))"
    "unat (nr :: u16) < length refs" "unat nr < 100" "length pre \<le> 20" "\<forall>n. n \<le> length (vm n)"
  shows "\<exists>r. read_ring_grefs_dir vm st dir count pre old = Some r
     \<and> nr_ring_grefs r = ucast nr + 1
     \<and> take (unat nr + 1) (ring_grefs r) = take (unat nr + 1) refs"
proof -
  have c: "xenbus_scan st dir count old = ucast nr + 1"     by (rule xenbus_scan_fmt [where st = st and dir = dir and node = count, OF assms(1)])
  have u: "unat (ucast nr + 1 :: u32) = unat nr + 1"
  proof -
    have "unat (ucast nr :: u32) = unat nr"
      using assms(4) by (simp add: unsigned_ucast_eq take_bit_nat_eq_self)
    then show ?thesis using unat_plus_1 [of "ucast nr"] assms(4) by simp
  qed
  have "gref_path pre k = pre @ dec_nat k" if "k \<le> unat nr" for k
    using that assms(4,5) dec_nat_two [of k] by (simp add: gref_path_def snprintf_def)
  then have st: "\<forall>k. 0 \<le> k \<and> k < unat nr + 1 \<longrightarrow> st (dir, gref_path pre k) = Some (fmt_u (refs ! k))"
    using assms(2) by simp
  obtain refs' where r: "read_refs_loop st dir pre (unat nr + 1) 0 (vm (unat nr + 1)) = Some refs'"
    "length refs' = length (vm (unat nr + 1))" "\<forall>k. 0 \<le> k \<and> k < unat nr + 1 \<longrightarrow> refs' ! k = refs ! k"
    using read_refs_loop_eq [of "unat nr + 1" "vm (unat nr + 1)" 0 st dir pre refs] st assms(3,6)
    by (metis Suc_eq_plus1 Suc_leI le0)
  have "unat nr + 1 \<le> length refs'" using r(2) assms(6) by metis
  then have "take (unat nr + 1) refs' = take (unat nr + 1) refs"
    using r(3) assms(3) by (intro nth_take_lemma) simp_all
  then show ?thesis using r(1) by (simp add: read_ring_grefs_dir_def c u)
qed

lemma count_node_other:
  "''tx-ring-ref'' @ dec_nat k \<noteq> ''tx-ring-refs''" "''rx-ring-ref'' @ dec_nat k \<noteq> ''rx-ring-refs''"
  "''tx-ring-ref'' @ dec_nat k \<noteq> ''rx-ring-refs''" "''rx-ring-ref'' @ dec_nat k \<noteq> ''tx-ring-refs''"
  "''tx-ring-ref'' @ dec_nat k \<noteq> ''rx-ring-ref'' @ dec_nat j"
proof -
  have "\<not> is_digit (CHR ''s'')" by (simp add: is_digit_def)
  then have "dec_nat k \<noteq> ''s''" using dec_nat_digits [of k] by auto
  then show "''tx-ring-ref'' @ dec_nat k \<noteq> ''tx-ring-refs''"
    "''rx-ring-ref'' @ dec_nat k \<noteq> ''rx-ring-refs''" by simp_all
qed simp_all

lemma nr_name_eq: "nr_name ''tx-ring-refs'' = ''tx-ring-refs''" "nr_name ''rx-ring-refs'' = ''rx-ring-refs''"
  by (simp_all add: nr_name_def snprintf_def)

text \<open>What the front end reads back from the store.\<close>

lemma ring_refs_roundtrip:
  assumes "\<forall>k. E k = 0" "\<forall>n. n \<le> length (vm n)"
    and "unat (nr_ring_pgs nmtx) < 100" "unat (nr_ring_pgs nmtx) < length (ring_ref nmtx)"
    and "unat (nr_ring_pgs nmrx) < 100" "unat (nr_ring_pgs nmrx) < length (ring_ref nmrx)"
  shows "\<exists>st' tx rx. xenbus_write_grefs E dir nmtx nmrx st = Some (0, st')
     \<and> xenbus_read_ring_grefs vm st' dir old_tx old_rx = Some (tx, rx)
     \<and> nr_ring_grefs tx = ucast (nr_ring_pgs nmtx) + 1
     \<and> take (unat (nr_ring_pgs nmtx) + 1) (ring_grefs tx) = take (unat (nr_ring_pgs nmtx) + 1) (ring_ref nmtx)
     \<and> nr_ring_grefs rx = ucast (nr_ring_pgs nmrx) + 1
     \<and> take (unat (nr_ring_pgs nmrx) + 1) (ring_grefs rx) = take (unat (nr_ring_pgs nmrx) + 1) (ring_ref nmrx)
     \<and> (\<forall>d. st' (d, ''feature-netmap-tx-desc'') = st (d, ''feature-netmap-tx-desc'')
          \<and> st' (d, ''feature-netmap-rx-desc'') = st (d, ''feature-netmap-rx-desc''))"
proof -
  let ?nt = "nr_ring_pgs nmtx" and ?nr = "nr_ring_pgs nmrx"
  obtain s1 where s1: "write_refs_loop E dir ''tx-ring-ref'' (ring_ref nmtx) (unat ?nt) 0 st = Some (0, s1)"
    "\<forall>k \<le> unat ?nt. s1 (dir, ''tx-ring-ref'' @ dec_nat k) = Some (fmt_u (ring_ref nmtx ! k))"
    "\<forall>d node. d \<noteq> dir \<or> node \<notin> (\<lambda>k. ''tx-ring-ref'' @ dec_nat k) ` {0..unat ?nt} \<longrightarrow> s1 (d, node) = st (d, node)"
    using write_refs_loop_ok [OF assms(1,4,3), of dir "''tx-ring-ref''" 0 st] by auto
  let ?s2 = "s1((dir, ''tx-ring-refs'') \<mapsto> fmt_u (ucast ?nt + 1))"
  obtain s3 where s3: "write_refs_loop E dir ''rx-ring-ref'' (ring_ref nmrx) (unat ?nr) 0 ?s2 = Some (0, s3)"
    "\<forall>k \<le> unat ?nr. s3 (dir, ''rx-ring-ref'' @ dec_nat k) = Some (fmt_u (ring_ref nmrx ! k))"
    "\<forall>d node. d \<noteq> dir \<or> node \<notin> (\<lambda>k. ''rx-ring-ref'' @ dec_nat k) ` {0..unat ?nr} \<longrightarrow> s3 (d, node) = ?s2 (d, node)"
    using write_refs_loop_ok [OF assms(1,6,5), of dir "''rx-ring-ref''" 0 ?s2] by auto
  let ?s4 = "s3((dir, ''rx-ring-refs'') \<mapsto> fmt_u (ucast ?nr + 1))"
  have w: "xenbus_write_grefs E dir nmtx nmrx st = Some (0, ?s4)"
    using s1(1) s3(1) assms(1) by (simp add: xenbus_write_grefs_def xenbus_printf_def nr_name_eq)
  have "''tx-ring-refs'' \<notin> (\<lambda>k. ''rx-ring-ref'' @ dec_nat k) ` {0..unat ?nr}" by auto
  then have frame1: "s3 (dir, ''tx-ring-refs'') = ?s2 (dir, ''tx-ring-refs'')" using s3(3) by blast
  have "''tx-ring-ref'' @ dec_nat k \<notin> (\<lambda>k. ''rx-ring-ref'' @ dec_nat k) ` {0..unat ?nr}" for k by auto
  then have frame2: "s3 (dir, ''tx-ring-ref'' @ dec_nat k) = ?s2 (dir, ''tx-ring-ref'' @ dec_nat k)" for k
    using s3(3) by blast
  note frame = frame1 frame2
  have tx: "?s4 (dir, ''tx-ring-refs'') = Some (fmt_u (ucast ?nt + 1))"
    "\<forall>k \<le> unat ?nt. ?s4 (dir, ''tx-ring-ref'' @ dec_nat k) = Some (fmt_u (ring_ref nmtx ! k))"
    using s1(2) frame count_node_other by simp_all
  have rx: "?s4 (dir, ''rx-ring-refs'') = Some (fmt_u (ucast ?nr + 1))"
    "\<forall>k \<le> unat ?nr. ?s4 (dir, ''rx-ring-ref'' @ dec_nat k) = Some (fmt_u (ring_ref nmrx ! k))"
    using s3(2) count_node_other by simp_all
  have l: "length ''tx-ring-ref'' \<le> 20" "length ''rx-ring-ref'' \<le> 20" by simp_all
  obtain t where t: "read_ring_grefs_dir vm ?s4 dir ''tx-ring-refs'' ''tx-ring-ref'' old_tx = Some t"
    "nr_ring_grefs t = ucast ?nt + 1"
    "take (unat ?nt + 1) (ring_grefs t) = take (unat ?nt + 1) (ring_ref nmtx)"
    using read_ring_grefs_dir_ok [OF tx assms(4,3) l(1) assms(2)] by blast
  obtain r where r: "read_ring_grefs_dir vm ?s4 dir ''rx-ring-refs'' ''rx-ring-ref'' old_rx = Some r"
    "nr_ring_grefs r = ucast ?nr + 1"
    "take (unat ?nr + 1) (ring_grefs r) = take (unat ?nr + 1) (ring_ref nmrx)"
    using read_ring_grefs_dir_ok [OF rx assms(6,5) l(2) assms(2)] by blast
  have "xenbus_read_ring_grefs vm ?s4 dir old_tx old_rx = Some (t, r)"
    unfolding xenbus_read_ring_grefs_def t(1) r(1) by simp
  moreover have "\<forall>d. ?s4 (d, ''feature-netmap-tx-desc'') = st (d, ''feature-netmap-tx-desc'')
      \<and> ?s4 (d, ''feature-netmap-rx-desc'') = st (d, ''feature-netmap-rx-desc'')"
  proof (intro allI conjI)
    fix d
    have n: "''feature-netmap-tx-desc'' \<notin> (\<lambda>k. ''tx-ring-ref'' @ dec_nat k) ` {0..unat ?nt}"
      "''feature-netmap-rx-desc'' \<notin> (\<lambda>k. ''tx-ring-ref'' @ dec_nat k) ` {0..unat ?nt}"
      "''feature-netmap-tx-desc'' \<notin> (\<lambda>k. ''rx-ring-ref'' @ dec_nat k) ` {0..unat ?nr}"
      "''feature-netmap-rx-desc'' \<notin> (\<lambda>k. ''rx-ring-ref'' @ dec_nat k) ` {0..unat ?nr}" by auto
    note f = s1(3) [rule_format, OF disjI2] s3(3) [rule_format, OF disjI2]
    show "?s4 (d, ''feature-netmap-tx-desc'') = st (d, ''feature-netmap-tx-desc'')"
      using f(1) [OF n(1)] f(2) [OF n(3)] by simp
    show "?s4 (d, ''feature-netmap-rx-desc'') = st (d, ''feature-netmap-rx-desc'')"
      using f(1) [OF n(2)] f(2) [OF n(4)] by simp
  qed
  ultimately show ?thesis using w t(2,3) r(2,3) by blast
qed

text \<open>C21: If no write fails and each ring has at most 99 pages, the front end reads back from
  the store exactly the counts and, in order, the references that the back end wrote.\<close>
theorem ring_refs_exchange:
  assumes "\<forall>k. E k = 0" "\<forall>n. n \<le> length (vm n)"
    and "unat (nr_ring_pgs nmtx) < 100" "unat (nr_ring_pgs nmtx) < length (ring_ref nmtx)"
    and "unat (nr_ring_pgs nmrx) < 100" "unat (nr_ring_pgs nmrx) < length (ring_ref nmrx)"
  shows "\<exists>st' tx rx. xenbus_write_grefs E dir nmtx nmrx st = Some (0, st')
     \<and> xenbus_read_ring_grefs vm st' dir old_tx old_rx = Some (tx, rx)
     \<and> nr_ring_grefs tx = ucast (nr_ring_pgs nmtx) + 1
     \<and> take (unat (nr_ring_pgs nmtx) + 1) (ring_grefs tx) = take (unat (nr_ring_pgs nmtx) + 1) (ring_ref nmtx)
     \<and> nr_ring_grefs rx = ucast (nr_ring_pgs nmrx) + 1
     \<and> take (unat (nr_ring_pgs nmrx) + 1) (ring_grefs rx) = take (unat (nr_ring_pgs nmrx) + 1) (ring_ref nmrx)"
  using ring_refs_roundtrip [OF assms] by blast

definition sample_gnt :: "u16 \<Rightarrow> u32 list \<Rightarrow> nm_grant_ring" where
  "sample_gnt nr refs = \<lparr>ring_pg = [], buf_pg = [], ring_ref = refs, buf_ref = [], nr_buf_pgs = 0, nr_ring_pgs = nr\<rparr>"

theorem ring_refs_exchange_witness:
  "\<exists>st' tx rx. xenbus_write_grefs (\<lambda>_. 0) ''d'' (sample_gnt 1 [11, 12]) (sample_gnt 0 [13]) Map.empty = Some (0, st')
     \<and> xenbus_read_ring_grefs (\<lambda>n. replicate n 0) st' ''d'' 0 0 = Some (tx, rx)
     \<and> nr_ring_grefs tx = 2 \<and> take 2 (ring_grefs tx) = [11, 12]"
proof -
  let ?t = "sample_gnt 1 [11, 12]" and ?r = "sample_gnt 0 [13]"
  have a: "\<forall>k. (\<lambda>_ :: string \<times> string. 0 :: int) k = 0" "\<forall>n. n \<le> length (replicate n (0 :: u32))"
    "unat (nr_ring_pgs ?t) < 100" "unat (nr_ring_pgs ?t) < length (ring_ref ?t)"
    "unat (nr_ring_pgs ?r) < 100" "unat (nr_ring_pgs ?r) < length (ring_ref ?r)"
    by (simp_all add: sample_gnt_def)
  have e: "ucast (nr_ring_pgs ?t) + 1 = (2 :: u32)" "unat (nr_ring_pgs ?t) + 1 = 2"
    "take 2 (ring_ref ?t) = [11, 12]"
    by (simp_all add: sample_gnt_def)
  show ?thesis using ring_refs_exchange [OF a, of "''d''" Map.empty 0 0] unfolding e by blast
qed

text \<open>Each reference with a number of three digits is written under the name of the
  reference with the last digit dropped, so a ring of more than 99 pages loses references.\<close>

lemma gref_name_collides:
  assumes "100 \<le> i" "i < 1000" "length pre \<le> 20"
  shows "gref_name pre i = gref_name pre (i div 10) \<and> gref_name pre i \<noteq> gref_path pre i"
proof -
  have n: "gref_name pre i = pre @ dec_nat (i div 10)"
    using gref_name_long [OF assms(1,2)] gref_name_short [of "i div 10" pre] assms by simp
  have l: "length (dec_nat i) = Suc (length (dec_nat (i div 10)))"
    using assms(1) by (simp add: dec_nat.simps [of i])
  have "length (dec_nat (i div 10)) \<le> 2" using assms(2) by (intro dec_nat_two) simp
  then have "gref_path pre i = pre @ dec_nat i"
    using assms(3) l by (simp add: gref_path_def snprintf_def)
  moreover have "dec_nat i \<noteq> dec_nat (i div 10)"
    using assms(1) by simp
  ultimately show ?thesis using gref_name_long [OF assms(1,2)] n by simp
qed

end
