(* ===== verification/Netfront_Grants.thy ===== *)
theory Netfront_Grants
  imports Xenbus Netfront_Rings
begin

text \<open>
  How the front end maps what the back end shares, \<open>LINUX/netfront_netmap_linux.h\<close>: the
  order of a page allocation, the mapping and unmapping of grant references, the references
  of the buffers found in the slots of a mapped ring, the event channels written to the
  store, and the set-up that puts these together. The hypervisor, the allocators and the
  contents of a mapped page are parameters.
\<close>

section \<open>The order of an allocation\<close>

function pow2_loop :: "u32 \<Rightarrow> u32 \<Rightarrow> u32" where
  "pow2_loop val t = (if t = 0 then val else pow2_loop (val * 2) (t - 1))"
  by pat_completeness auto

termination pow2_loop
  by (relation "measure (\<lambda>(v, t). unat t)") (auto simp: unat_minus_one unat_gt_0)

declare pow2_loop.simps [simp del]

definition pow2 :: "u16 \<Rightarrow> u32" where
  "pow2 order = (let t = ucast order in if t = 0 then 1 else pow2_loop 1 t)"

text \<open>The comparison is unsigned; the exponent is passed as 16 bits.\<close>

partial_function (option) order_loop :: "u32 \<Rightarrow> u32 \<Rightarrow> u32 option" where
  "order_loop nr_grefs pgo =
     (if pow2 (ucast pgo) < nr_grefs then order_loop nr_grefs (pgo + 1) else Some pgo)"

definition order :: "(u32 \<Rightarrow> u32) \<Rightarrow> u32 \<Rightarrow> u32 option" where
  "order ilog2 nr_grefs = order_loop nr_grefs (ilog2 nr_grefs)"

lemma pow2_loop_eq: "pow2_loop val t = val * 2 ^ unat t"
proof (induction val t rule: pow2_loop.induct)
  case (1 val t)
  show ?case
  proof (cases "t = 0")
    case True
    then show ?thesis by (simp add: pow2_loop.simps)
  next
    case False
    then have "unat t = Suc (unat (t - 1))" by (simp add: unat_minus_one unat_gt_0)
    then show ?thesis using 1 False by (simp add: pow2_loop.simps [of val t])
  qed
qed

lemma pow2_eq: "pow2 w = 2 ^ unat w"
proof -
  have "pow2 w = pow2_loop 1 (ucast w)"
    by (simp add: pow2_def Let_def pow2_loop.simps)
  then show ?thesis by (simp add: pow2_loop_eq unat_ucast_u16_u32)
qed

lemma unat_pow2: "unat w < 32 \<Longrightarrow> unat (pow2 w) = 2 ^ unat w"
proof -
  assume w: "unat w < 32"
  then have "(2 :: nat) ^ unat w < 2 ^ 32" by (intro power_strict_increasing) simp_all
  moreover have "pow2 w = of_nat (2 ^ unat w)" by (simp add: pow2_eq)
  ultimately show ?thesis by (simp only: unat_of_nat) simp
qed

lemma order_loop_least:
  assumes "unat nr \<le> 2 ^ 31" "1 \<le> unat nr"
  shows "unat pgo \<le> 31 \<Longrightarrow> pgo = 0 \<or> 2 ^ (unat pgo - 1) < unat nr \<Longrightarrow>
     \<exists>p. order_loop nr pgo = Some p \<and> unat nr \<le> 2 ^ unat p \<and> unat p \<le> 31
       \<and> (p = 0 \<or> 2 ^ (unat p - 1) < unat nr)"
proof (induction "31 - unat pgo" arbitrary: pgo)
  case 0
  have u: "unat (ucast pgo :: u16) = unat pgo"
    using 0 by (simp add: unsigned_ucast_eq take_bit_nat_eq_self)
  then have "\<not> pow2 (ucast pgo) < nr"
    using 0 assms(1) unat_pow2 [of "ucast pgo"] by (simp add: word_less_nat_alt)
  then have "order_loop nr pgo = Some pgo" by (subst order_loop.simps) simp
  then show ?case using 0 assms by auto
next
  case (Suc n)
  have u: "unat (ucast pgo :: u16) = unat pgo"
    using Suc.prems(1) by (simp add: unsigned_ucast_eq take_bit_nat_eq_self)
  have lt: "pow2 (ucast pgo) < nr \<longleftrightarrow> 2 ^ unat pgo < unat nr"
    using Suc.prems(1) u unat_pow2 [of "ucast pgo"] by (simp add: word_less_nat_alt)
  show ?case
  proof (cases "2 ^ unat pgo < unat nr")
    case True
    have s: "unat (pgo + 1) = unat pgo + 1" using Suc.prems(1) by (intro unat_plus_1) simp
    then have "order_loop nr pgo = order_loop nr (pgo + 1)"
      using True lt by (subst order_loop.simps) simp
    then show ?thesis using Suc.hyps(1) [of "pgo + 1"] Suc.hyps(2) Suc.prems s True by auto
  next
    case False
    then have "order_loop nr pgo = Some pgo" using lt by (subst order_loop.simps) simp
    then show ?thesis using False Suc.prems by auto
  qed
qed

text \<open>C36: For a positive \<open>int\<close> number of references the loop of \<open>order\<close> ends, at the least
  exponent whose power of two is not less than the number.\<close>
theorem order_least:
  assumes "1 \<le> unat nr" "unat nr < 2 ^ 31" "2 ^ unat (ilog2 nr) \<le> unat nr"
  shows "\<exists>p. order ilog2 nr = Some p \<and> unat nr \<le> 2 ^ unat p \<and> (\<forall>q. unat nr \<le> 2 ^ q \<longrightarrow> unat p \<le> q)"
proof -
  let ?l = "ilog2 nr"
  have "(2 :: nat) ^ unat ?l < 2 ^ 31" using assms(2,3) by (rule le_less_trans [rotated])
  then have l: "unat ?l < 31" by (simp only: power_strict_increasing_iff)
  have "?l = 0 \<or> 2 ^ (unat ?l - 1) < unat nr"
  proof (cases "?l = 0")
    case False
    then have "unat ?l \<noteq> 0" by (metis unat_0 word_unat_eq_iff)
    then have "(2 :: nat) ^ (unat ?l - 1) < 2 ^ unat ?l" by (intro power_strict_increasing) simp_all
    then show ?thesis using assms(3) by (metis less_le_trans)
  qed simp
  then obtain p where p: "order_loop nr ?l = Some p" "unat nr \<le> 2 ^ unat p"
    "p = 0 \<or> 2 ^ (unat p - 1) < unat nr"
    using order_loop_least [of nr ?l] assms l by auto
  have "unat p \<le> q" if "unat nr \<le> 2 ^ q" for q
  proof (cases "p = 0")
    case False
    then have "(2 :: nat) ^ (unat p - 1) < 2 ^ q" using p(3) that by (metis less_le_trans)
    then have "unat p - 1 < q" by (simp only: power_strict_increasing_iff)
    then show ?thesis by simp
  qed simp
  then show ?thesis using p by (auto simp: order_def)
qed

theorem order_least_witness:
  "\<exists>p. order (\<lambda>_. 2) 5 = Some p \<and> 5 \<le> (2 :: nat) ^ unat p \<and> unat p \<le> 3"
proof -
  have "\<exists>p. order (\<lambda>_. 2) 5 = Some p \<and> unat (5 :: u32) \<le> 2 ^ unat p
      \<and> (\<forall>q. unat (5 :: u32) \<le> 2 ^ q \<longrightarrow> unat p \<le> q)"
    by (rule order_least) simp_all
  then show ?thesis by force
qed

section \<open>Mapping grants\<close>

record gnttab_map_entry =
  pe_host_addr :: nat
  pe_handle :: u32

record gnttab_map_op =
  op_ref :: u32
  op_dom :: u16
  op_flags :: u32
  op_host_addr :: nat
  op_status :: int
  op_handle :: u32

record netmap_gnt =
  g_ring_grefs :: "u32 list"
  g_bufs_grefs :: "u32 list"
  g_ring_map :: "gnttab_map_op list"
  g_ring_gnt :: "gnttab_map_entry list"
  g_bufs_map :: "gnttab_map_op list"
  g_bufs_gnt :: "gnttab_map_entry list"
  g_nr_ring_grefs :: u32
  g_nr_bufs_grefs :: u32
  g_bufs_base :: nat

record map_api =
  m_alloc_pages :: "u32 \<Rightarrow> nat"
  m_vmalloc_op :: "nat \<Rightarrow> gnttab_map_op list"
  m_vmalloc_pte :: "nat \<Rightarrow> gnttab_map_entry list"
  m_vmalloc_ref :: "nat \<Rightarrow> u32 list"
  m_map :: "gnttab_map_op list \<Rightarrow> int \<times> gnttab_map_op list"
  m_unmap :: "gnttab_map_entry list \<Rightarrow> int"
  m_ilog2 :: "u32 \<Rightarrow> u32"
  GNTMAP_host_map :: u32
  GNTST_okay :: int
  M_PAGE_SIZE :: nat

text \<open>\<open>map_ops_new\<close>: the pages, the operations and the entries for \<open>nr\<close> references.\<close>

definition map_ops_new ::
  "map_api \<Rightarrow> u32 \<Rightarrow> (nat \<times> gnttab_map_op list \<times> gnttab_map_entry list) option" where
  "map_ops_new M nr = do {
     o_pg \<leftarrow> order (m_ilog2 M) nr;
     Some (m_alloc_pages M o_pg, m_vmalloc_op M (unat nr), m_vmalloc_pte M (unat nr))
   }"

function map_ops_loop ::
  "map_api \<Rightarrow> u32 list \<Rightarrow> nat \<Rightarrow> nat \<Rightarrow> nat \<Rightarrow> gnttab_map_op list \<Rightarrow> gnttab_map_op list option" where
  "map_ops_loop M grefs addr nr i ops =
     (if i < nr then
        (case (arr_get grefs i, arr_get ops i) of
           (Some r, Some x) \<Rightarrow>
             map_ops_loop M grefs addr nr (i + 1)
               (ops[i := x\<lparr>op_ref := r, op_dom := 0, op_flags := GNTMAP_host_map M,
                           op_host_addr := addr + M_PAGE_SIZE M * i\<rparr>])
         | _ \<Rightarrow> None)
      else Some ops)"
  by pat_completeness auto

termination map_ops_loop
  by (relation "measure (\<lambda>(M, g, a, n, i, x). n - i)") auto

declare map_ops_loop.simps [simp del]

text \<open>The results of the hypercall; an entry is only written for a successful operation.\<close>

function map_pte_loop ::
  "map_api \<Rightarrow> gnttab_map_op list \<Rightarrow> nat \<Rightarrow> nat \<Rightarrow> gnttab_map_entry list \<Rightarrow> gnttab_map_entry list option" where
  "map_pte_loop M ops nr i pte =
     (if i < nr then
        (case arr_get ops i of
           None \<Rightarrow> None
         | Some x \<Rightarrow>
             (if op_status x \<noteq> GNTST_okay M then map_pte_loop M ops nr (i + 1) pte
              else (case arr_set pte i \<lparr>pe_host_addr = op_host_addr x, pe_handle = op_handle x\<rparr> of
                      None \<Rightarrow> None
                    | Some pte \<Rightarrow> map_pte_loop M ops nr (i + 1) pte)))
      else Some pte)"
  by pat_completeness auto

termination map_pte_loop
  by (relation "measure (\<lambda>(M, x, n, i, p). n - i)") auto

declare map_pte_loop.simps [simp del]

text \<open>The part of \<open>gnttab_map\<close> that both kinds of references share, for \<open>nr\<close> references.\<close>

definition map_refs ::
  "map_api \<Rightarrow> u32 list \<Rightarrow> nat \<Rightarrow> nat \<Rightarrow> gnttab_map_op list \<Rightarrow> gnttab_map_entry list
     \<Rightarrow> (int \<times> gnttab_map_op list \<times> gnttab_map_entry list) option" where
  "map_refs M grefs nr addr ops pte = do {
     ops \<leftarrow> map_ops_loop M grefs addr nr 0 ops;
     let (err, done) = m_map M (take nr ops);
     let ops = done @ drop nr ops;
     if err \<noteq> 0 then Some (- EINVAL, ops, pte)
     else do {
       pte \<leftarrow> map_pte_loop M ops nr 0 pte;
       Some (0, ops, pte)
     }
   }"

text \<open>
  \<open>gnttab_map\<close>: for the ring pages (\<open>ring\<close> zero) one reference less than were read is mapped,
  and zero references would wrap; the domain that is passed is replaced by 0.
\<close>

definition gnttab_map :: "map_api \<Rightarrow> netmap_gnt \<Rightarrow> u16 \<Rightarrow> int \<Rightarrow> (int \<times> netmap_gnt) option" where
  "gnttab_map M rdesc domid ring =
     (if ring = 0 then do {
        (addr, ops, pte) \<leftarrow> map_ops_new M (g_nr_ring_grefs rdesc);
        if g_nr_ring_grefs rdesc = 0 then None
        else do {
          (err, ops, pte) \<leftarrow> map_refs M (g_ring_grefs rdesc) (unat (g_nr_ring_grefs rdesc) - 1) addr ops pte;
          Some (err, rdesc\<lparr>g_ring_map := ops, g_ring_gnt := pte\<rparr>)
        }
      } else do {
        (addr, ops, pte) \<leftarrow> map_ops_new M (g_nr_bufs_grefs rdesc);
        (err, ops, pte) \<leftarrow> map_refs M (g_bufs_grefs rdesc) (unat (g_nr_bufs_grefs rdesc)) addr ops pte;
        Some (err, rdesc\<lparr>g_bufs_map := ops, g_bufs_gnt := pte\<rparr>)
      })"

text \<open>The entries handed to the hypervisor by \<open>gnttab_unmap\<close>; an error is a \<open>BUG\<close>.\<close>

definition take_all :: "'a list \<Rightarrow> nat \<Rightarrow> 'a list option" where
  "take_all xs n = (if n \<le> length xs then Some (take n xs) else None)"

definition gnttab_unmap :: "map_api \<Rightarrow> netmap_gnt \<Rightarrow> (int \<times> gnttab_map_entry list \<times> netmap_gnt) option" where
  "gnttab_unmap M rdesc = do {
     ring_ops \<leftarrow> take_all (g_ring_gnt rdesc) (unat (g_nr_ring_grefs rdesc));
     bufs_ops \<leftarrow> take_all (g_bufs_gnt rdesc) (unat (g_nr_bufs_grefs rdesc));
     if m_unmap M (ring_ops @ bufs_ops) \<noteq> 0 then None
     else Some (0, ring_ops @ bufs_ops, rdesc\<lparr>g_ring_grefs := [], g_bufs_grefs := []\<rparr>)
   }"

section \<open>The references of the buffers\<close>

function read_bufs_loop :: "nslot list \<Rightarrow> nat \<Rightarrow> nat \<Rightarrow> nat \<Rightarrow> u32 list \<Rightarrow> (nat \<times> u32 list) option" where
  "read_bufs_loop slots n i j refs =
     (if i < n then
        (case arr_get slots i of
           None \<Rightarrow> None
         | Some s \<Rightarrow>
             (if s_ptr s \<noteq> 0 then
                (case arr_set refs j (ucast (s_ptr s)) of
                   None \<Rightarrow> None
                 | Some refs \<Rightarrow> read_bufs_loop slots n (i + 1) (j + 1) refs)
              else read_bufs_loop slots n (i + 1) j refs))
      else Some (j, refs))"
  by pat_completeness auto

termination read_bufs_loop
  by (relation "measure (\<lambda>(s, n, i, j, r). n - i)") auto

declare read_bufs_loop.simps [simp del]

definition xenbus_read_bufs_grefs :: "map_api \<Rightarrow> nring \<Rightarrow> netmap_gnt \<Rightarrow> (int \<times> netmap_gnt) option" where
  "xenbus_read_bufs_grefs M ring rdesc = do {
     let nr = num_slots ring div 2;
     (j, refs) \<leftarrow> read_bufs_loop (r_slots ring) (unat (num_slots ring)) 0 0 (m_vmalloc_ref M (unat nr));
     Some (0, rdesc\<lparr>g_bufs_grefs := refs, g_nr_bufs_grefs := of_nat j\<rparr>)
   }"

section \<open>Event channels\<close>

text \<open>
  Each attempt of the transaction has its own outcomes: of the two writes, and of its end,
  which is given whether to abort. The error paths call \<open>vfree\<close> with a string literal, which
  is not memory that \<open>vmalloc\<close> returned; \<open>xb_vfree\<close> says whether such a call returns.
\<close>

record xb_api =
  xb_printf :: "nat \<Rightarrow> string \<Rightarrow> int"
  xb_end :: "nat \<Rightarrow> bool \<Rightarrow> int"
  xb_vfree :: "string \<Rightarrow> bool"

definition EAGAIN :: int where "EAGAIN = 11"
definition EFAULT :: int where "EFAULT = 14"

definition vfree_literal :: "xb_api \<Rightarrow> string \<Rightarrow> unit option" where
  "vfree_literal X message = (if xb_vfree X message then Some () else None)"

text \<open>The labels \<open>error\<close> and \<open>abort_transaction\<close>; the result of aborting is not looked at.\<close>

definition evtchn_error :: "xb_api \<Rightarrow> string \<Rightarrow> store \<Rightarrow> (int \<times> store) option" where
  "evtchn_error X message st = do { _ \<leftarrow> vfree_literal X message; Some (- EFAULT, st) }"

definition evtchn_abort :: "xb_api \<Rightarrow> nat \<Rightarrow> string \<Rightarrow> store \<Rightarrow> (int \<times> store) option" where
  "evtchn_abort X k message st = do {
     _ \<leftarrow> vfree_literal X message;
     let err = xb_end X k True;
     evtchn_error X message st
   }"

partial_function (option) xenbus_write_evtchn ::
  "xb_api \<Rightarrow> string \<Rightarrow> u32 \<Rightarrow> u32 \<Rightarrow> store \<Rightarrow> nat \<Rightarrow> (int \<times> store) option" where
  "xenbus_write_evtchn X nodename tx rx st k =
     (if xb_printf X k ''event-channel-tx'' \<noteq> 0 then evtchn_abort X k ''Writing event-channel-tx'' st
      else if xb_printf X k ''event-channel-rx'' \<noteq> 0 then evtchn_abort X k ''Writing event-channel-rx'' st
      else if xb_end X k False \<noteq> 0 then
        (if xb_end X k False = - EAGAIN then xenbus_write_evtchn X nodename tx rx st (k + 1)
         else evtchn_error X ''completing transaction'' st)
      else Some (0, st((nodename, ''event-channel-tx'') \<mapsto> fmt_u tx,
                       (nodename, ''event-channel-rx'') \<mapsto> fmt_u rx)))"

section \<open>Set-up and disconnect\<close>

text \<open>
  What the set-up finds: the event channels and interrupts it gets, the store, and the ring
  that is at a mapped address. A ring that does not show the expected number of slots is
  waited for; nothing changes in the meantime here, so this is \<open>None\<close>.
\<close>

record setup_api =
  su_alloc_tx :: "int \<times> u32"
  su_alloc_rx :: "int \<times> u32"
  su_bind :: "u32 \<Rightarrow> u32"
  su_store :: store
  su_nodename :: string
  su_otherend :: string
  su_junk :: u32
  su_ring_at :: "nat \<Rightarrow> nring"

record front_priv =
  fp_txd :: netmap_gnt
  fp_rxd :: netmap_gnt
  fp_tx_rings :: nring
  fp_rx_rings :: nring
  fp_stat :: netfront_csb
  fp_tx_evtchn :: u32
  fp_tx_irq :: u32
  fp_rx_evtchn :: u32
  fp_rx_irq :: u32
  fp_dom :: u16
  fp_store :: store

datatype setup_result =
    Setup_failed int "u32 option"
  | Setup_done front_priv

definition gnt_of :: "ring_grefs_read \<Rightarrow> netmap_gnt" where
  "gnt_of r = \<lparr>g_ring_grefs = ring_grefs r, g_bufs_grefs = [], g_ring_map = [], g_ring_gnt = [],
     g_bufs_map = [], g_bufs_gnt = [], g_nr_ring_grefs = nr_ring_grefs r, g_nr_bufs_grefs = 0,
     g_bufs_base = 0\<rparr>"

text \<open>Mapping one direction's ring and waiting for it.\<close>

definition setup_ring :: "map_api \<Rightarrow> setup_api \<Rightarrow> netmap_gnt \<Rightarrow> u16 \<Rightarrow> u32 \<Rightarrow> (netmap_gnt \<times> nring) option" where
  "setup_ring M S d domid desc = do {
     (_, d) \<leftarrow> gnttab_map M d domid 0;
     e \<leftarrow> arr_get (g_ring_gnt d) 0;
     let ring = su_ring_at S (pe_host_addr e);
     if num_slots ring \<noteq> desc then None else Some (d, ring)
   }"

definition setup_bufs :: "map_api \<Rightarrow> nring \<Rightarrow> netmap_gnt \<Rightarrow> u16 \<Rightarrow> netmap_gnt option" where
  "setup_bufs M ring d domid = do {
     (_, d) \<leftarrow> xenbus_read_bufs_grefs M ring d;
     (_, d) \<leftarrow> gnttab_map M d domid 1;
     e \<leftarrow> arr_get (g_bufs_gnt d) 0;
     Some (d\<lparr>g_bufs_base := pe_host_addr e\<rparr>)
   }"

definition init_csb :: "nring \<Rightarrow> netfront_csb" where
  "init_csb tx = \<lparr>txcur = ucast (r_cur tx), txhead = ucast (r_head tx), guest_need_txkick = 0,
     guest_need_rxkick = 1, host_need_rxkick = 0, host_need_txkick = 1\<rparr>"

text \<open>Each of the four mappings meets its own answers of the allocators and the hypervisor.\<close>

definition setup_netfront_netmap :: "(nat \<Rightarrow> map_api) \<Rightarrow> setup_api \<Rightarrow> xb_api \<Rightarrow> setup_result option" where
  "setup_netfront_netmap M S X =
     (let st = su_store S;
          domid = ucast (xenbus_scan st (su_otherend S) ''backend-id'' (su_junk S));
          tx_desc = xenbus_scan st (su_otherend S) ''feature-netmap-tx-desc'' (su_junk S);
          rx_desc = xenbus_scan st (su_otherend S) ''feature-netmap-rx-desc'' (su_junk S);
          (err_tx, tx_evtchn) = su_alloc_tx S;
          (err_rx, rx_evtchn) = su_alloc_rx S
      in if err_tx \<noteq> 0 then Some (Setup_failed err_tx None)
         else if err_rx \<noteq> 0 then Some (Setup_failed err_rx (Some tx_evtchn))
         else do {
           (tx, rx) \<leftarrow> xenbus_read_ring_grefs (m_vmalloc_ref (M 0)) st (su_nodename S) (su_junk S) (su_junk S);
           (txd, tx_rings) \<leftarrow> setup_ring (M 0) S (gnt_of tx) domid tx_desc;
           (rxd, rx_rings) \<leftarrow> setup_ring (M 1) S (gnt_of rx) domid rx_desc;
           txd \<leftarrow> setup_bufs (M 2) tx_rings txd domid;
           rxd \<leftarrow> setup_bufs (M 3) rx_rings rxd domid;
           (_, st) \<leftarrow> xenbus_write_evtchn X (su_nodename S) tx_evtchn rx_evtchn st 0;
           Some (Setup_done \<lparr>fp_txd = txd, fp_rxd = rxd, fp_tx_rings = tx_rings, fp_rx_rings = rx_rings,
             fp_stat = init_csb tx_rings, fp_tx_evtchn = tx_evtchn, fp_tx_irq = su_bind S tx_evtchn,
             fp_rx_evtchn = rx_evtchn, fp_rx_irq = su_bind S rx_evtchn, fp_dom = domid, fp_store = st\<rparr>)
         })"

text \<open>The disconnect releases the interrupts, the adapter and the memory, not the mappings.\<close>

datatype disconnect_event = Unbind_irq u32 | Netmap_detach | Vfree_stat | Vfree_info

definition xennet_netmap_disconnect :: "front_priv \<Rightarrow> disconnect_event list" where
  "xennet_netmap_disconnect ni =
     [Unbind_irq (fp_rx_irq ni), Unbind_irq (fp_tx_irq ni), Netmap_detach, Vfree_stat, Vfree_info]"

section \<open>What is mapped\<close>

text \<open>A hypercall that succeeds, and areas that hold what was asked for.\<close>

definition map_ok :: "map_api \<Rightarrow> bool" where
  "map_ok M \<longleftrightarrow>
     (\<forall>ops. fst (m_map M ops) = 0 \<and> length (snd (m_map M ops)) = length ops
        \<and> (\<forall>i < length ops. op_status (snd (m_map M ops) ! i) = GNTST_okay M
             \<and> op_ref (snd (m_map M ops) ! i) = op_ref (ops ! i)
             \<and> op_host_addr (snd (m_map M ops) ! i) = op_host_addr (ops ! i)))
   \<and> (\<forall>n. n \<le> length (m_vmalloc_op M n)) \<and> (\<forall>n. n \<le> length (m_vmalloc_pte M n))
   \<and> (\<forall>n. n \<le> length (m_vmalloc_ref M n))
   \<and> (\<forall>w. 1 \<le> unat w \<longrightarrow> 2 ^ unat (m_ilog2 M w) \<le> unat w)"

lemma map_ops_loop_eq:
  "nr \<le> length grefs \<Longrightarrow> nr \<le> length ops \<Longrightarrow> i \<le> nr \<Longrightarrow>
     \<exists>ops'. map_ops_loop M grefs addr nr i ops = Some ops' \<and> length ops' = length ops
       \<and> (\<forall>k < i. ops' ! k = ops ! k)
       \<and> (\<forall>k. i \<le> k \<and> k < nr \<longrightarrow> op_ref (ops' ! k) = grefs ! k
            \<and> op_host_addr (ops' ! k) = addr + M_PAGE_SIZE M * k)"
proof (induction "nr - i" arbitrary: i ops)
  case 0
  then show ?case by (auto simp: map_ops_loop.simps)
next
  case (Suc n)
  then have i: "i < nr" "n = nr - Suc i" "i < length ops" "i < length grefs" by simp_all
  let ?x = "(ops ! i)\<lparr>op_ref := grefs ! i, op_dom := 0, op_flags := GNTMAP_host_map M,
                           op_host_addr := addr + M_PAGE_SIZE M * i\<rparr>"
  obtain ops' where ih: "map_ops_loop M grefs addr nr (Suc i) (ops[i := ?x]) = Some ops'"
    "length ops' = length ops" "\<forall>k < Suc i. ops' ! k = ops[i := ?x] ! k"
    "\<forall>k. Suc i \<le> k \<and> k < nr \<longrightarrow> op_ref (ops' ! k) = grefs ! k
            \<and> op_host_addr (ops' ! k) = addr + M_PAGE_SIZE M * k"
    using Suc.hyps(1) [OF i(2), of "ops[i := ?x]"] Suc.prems i by auto
  have "map_ops_loop M grefs addr nr i ops = Some ops'"
    using i ih(1) by (simp add: map_ops_loop.simps [of M grefs addr nr i] arr_get_Some)
  moreover have "\<forall>k < i. ops' ! k = ops ! k" using ih(3) by (simp add: less_SucI)
  moreover have "op_ref (ops' ! i) = grefs ! i \<and> op_host_addr (ops' ! i) = addr + M_PAGE_SIZE M * i"
    using ih(3) i by simp
  ultimately show ?case using ih(2,4) by (metis le_antisym not_less_eq_eq)
qed

lemma map_pte_loop_eq:
  "nr \<le> length ops \<Longrightarrow> nr \<le> length pte \<Longrightarrow> i \<le> nr \<Longrightarrow> \<forall>k < nr. op_status (ops ! k) = GNTST_okay M \<Longrightarrow>
     \<exists>pte'. map_pte_loop M ops nr i pte = Some pte' \<and> length pte' = length pte
       \<and> (\<forall>k. k < i \<or> nr \<le> k \<longrightarrow> pte' ! k = pte ! k)
       \<and> (\<forall>k. i \<le> k \<and> k < nr \<longrightarrow> pe_host_addr (pte' ! k) = op_host_addr (ops ! k))"
proof (induction "nr - i" arbitrary: i pte)
  case 0
  then show ?case by (auto simp: map_pte_loop.simps)
next
  case (Suc n)
  then have i: "i < nr" "n = nr - Suc i" "i < length ops" "i < length pte" by simp_all
  let ?x = "\<lparr>pe_host_addr = op_host_addr (ops ! i), pe_handle = op_handle (ops ! i)\<rparr>"
  obtain pte' where ih: "map_pte_loop M ops nr (Suc i) (pte[i := ?x]) = Some pte'"
    "length pte' = length pte" "\<forall>k. k < Suc i \<or> nr \<le> k \<longrightarrow> pte' ! k = pte[i := ?x] ! k"
    "\<forall>k. Suc i \<le> k \<and> k < nr \<longrightarrow> pe_host_addr (pte' ! k) = op_host_addr (ops ! k)"
    using Suc.hyps(1) [OF i(2), of "pte[i := ?x]"] Suc.prems i by auto
  have "map_pte_loop M ops nr i pte = Some pte'"
    using i ih(1) Suc.prems(4)
    by (simp add: map_pte_loop.simps [of M ops nr i] arr_get_Some arr_set_Some)
  moreover have "\<forall>k. k < i \<or> nr \<le> k \<longrightarrow> pte' ! k = pte ! k" using ih(3) i by auto
  moreover have "pe_host_addr (pte' ! i) = op_host_addr (ops ! i)" using ih(3) i by simp
  ultimately show ?case using ih(2,4) by (metis le_antisym not_less_eq_eq)
qed

lemma map_refs_ok:
  assumes M: "map_ok M" and l: "nr \<le> length grefs" "nr \<le> length ops" "nr \<le> length pte"
  shows "\<exists>ops' pte'. map_refs M grefs nr addr ops pte = Some (0, ops', pte') \<and> length pte' = length pte
     \<and> (\<forall>k < nr. op_ref (ops' ! k) = grefs ! k \<and> pe_host_addr (pte' ! k) = addr + M_PAGE_SIZE M * k)
     \<and> (\<forall>k. nr \<le> k \<longrightarrow> pte' ! k = pte ! k)"
proof -
  obtain ops1 where o1: "map_ops_loop M grefs addr nr 0 ops = Some ops1" "length ops1 = length ops"
    "\<forall>k < nr. op_ref (ops1 ! k) = grefs ! k \<and> op_host_addr (ops1 ! k) = addr + M_PAGE_SIZE M * k"
    using map_ops_loop_eq [OF l(1,2), of 0 M addr] by auto
  obtain err res where d: "m_map M (take nr ops1) = (err, res)" by fastforce
  have t: "length (take nr ops1) = nr" using o1(2) l(2) by simp
  have h: "err = 0" "length res = nr"
    "\<forall>i < nr. op_status (res ! i) = GNTST_okay M \<and> op_ref (res ! i) = op_ref (ops1 ! i)
       \<and> op_host_addr (res ! i) = op_host_addr (ops1 ! i)"
    using M d t unfolding map_ok_def by (metis fst_conv, metis snd_conv, metis snd_conv nth_take)
  let ?ops = "res @ drop nr ops1"
  have s: "\<forall>k < nr. op_status (?ops ! k) = GNTST_okay M" "nr \<le> length ?ops"
    using h(2,3) by (simp_all add: nth_append)
  obtain pte' where p: "map_pte_loop M ?ops nr 0 pte = Some pte'" "length pte' = length pte"
    "\<forall>k. k < 0 \<or> nr \<le> k \<longrightarrow> pte' ! k = pte ! k"
    "\<forall>k. 0 \<le> k \<and> k < nr \<longrightarrow> pe_host_addr (pte' ! k) = op_host_addr (?ops ! k)"
    using map_pte_loop_eq [OF s(2) l(3) le0 s(1)] by blast
  have "map_refs M grefs nr addr ops pte = Some (0, ?ops, pte')"
    using o1(1) d h(1) p(1) by (simp add: map_refs_def)
  then show ?thesis using p(2-4) h(2,3) o1(3) by (simp add: nth_append)
qed

lemma map_ops_new_ok:
  assumes "map_ok M" "1 \<le> unat nr" "unat nr < 2 ^ 31"
  shows "\<exists>p. map_ops_new M nr = Some (m_alloc_pages M p, m_vmalloc_op M (unat nr), m_vmalloc_pte M (unat nr))"
proof -
  have "2 ^ unat (m_ilog2 M nr) \<le> unat nr" using assms(1,2) by (simp add: map_ok_def)
  then have "unat (m_ilog2 M nr) \<le> 31 \<and> (m_ilog2 M nr = 0 \<or> 2 ^ (unat (m_ilog2 M nr) - 1) < unat nr)"
  proof -
    assume p: "2 ^ unat (m_ilog2 M nr) \<le> unat nr"
    then have "(2 :: nat) ^ unat (m_ilog2 M nr) < 2 ^ 31" using assms(3) by (rule le_less_trans)
    then have l: "unat (m_ilog2 M nr) < 31" by (simp only: power_strict_increasing_iff)
    show ?thesis
    proof (cases "m_ilog2 M nr = 0")
      case False
      then have "unat (m_ilog2 M nr) \<noteq> 0" by (metis unat_0 word_unat_eq_iff)
      then have "(2 :: nat) ^ (unat (m_ilog2 M nr) - 1) < 2 ^ unat (m_ilog2 M nr)"
        by (intro power_strict_increasing) simp_all
      then have "2 ^ (unat (m_ilog2 M nr) - 1) < unat nr" using p by (rule less_le_trans)
      then show ?thesis using l by simp
    qed (use l in simp)
  qed
  then obtain p where "order (m_ilog2 M) nr = Some p"
    using order_loop_least [of nr "m_ilog2 M nr"] assms(2,3) by (auto simp: order_def)
  then show ?thesis by (auto simp: map_ops_new_def)
qed

lemma map_areas:
  assumes "map_ok M"
  shows "n \<le> length (m_vmalloc_op M n)" "n \<le> length (m_vmalloc_pte M n)" "n \<le> length (m_vmalloc_ref M n)"
  using assms by (simp_all add: map_ok_def)

lemma gnttab_map_ring:
  assumes "map_ok M" "n = unat (g_nr_ring_grefs rd)" "1 \<le> n" "n < 2 ^ 31" "n \<le> length (g_ring_grefs rd)"
  obtains ops pte addr p where "addr = m_alloc_pages M p"
    "gnttab_map M rd domid 0 = Some (0, rd\<lparr>g_ring_map := ops, g_ring_gnt := pte\<rparr>)"
    "n \<le> length pte" "\<forall>k. n - 1 \<le> k \<longrightarrow> pte ! k = m_vmalloc_pte M n ! k"
    "\<forall>k < n - 1. op_ref (ops ! k) = g_ring_grefs rd ! k \<and> pe_host_addr (pte ! k) = addr + M_PAGE_SIZE M * k"
proof -
  obtain addr p where a: "map_ops_new M (g_nr_ring_grefs rd) = Some (addr, m_vmalloc_op M n, m_vmalloc_pte M n)"
    "addr = m_alloc_pages M p"
    using map_ops_new_ok [OF assms(1)] assms(2-4) by metis
  have l: "n - 1 \<le> length (g_ring_grefs rd)" "n - 1 \<le> length (m_vmalloc_op M n)"
    "n - 1 \<le> length (m_vmalloc_pte M n)"
    using assms(5) map_areas [OF assms(1), of n] by linarith+
  obtain ops pte where m: "map_refs M (g_ring_grefs rd) (n - 1) addr (m_vmalloc_op M n) (m_vmalloc_pte M n)
      = Some (0, ops, pte)" "length pte = length (m_vmalloc_pte M n)"
    "\<forall>k < n - 1. op_ref (ops ! k) = g_ring_grefs rd ! k \<and> pe_host_addr (pte ! k) = addr + M_PAGE_SIZE M * k"
    "\<forall>k. n - 1 \<le> k \<longrightarrow> pte ! k = m_vmalloc_pte M n ! k"
    using map_refs_ok [OF assms(1) l] by blast
  have nz: "g_nr_ring_grefs rd \<noteq> 0" using assms(2,3) by auto
  have "gnttab_map M rd domid 0 = Some (0, rd\<lparr>g_ring_map := ops, g_ring_gnt := pte\<rparr>)"
    using a(1) nz m(1) assms(2) by (simp add: gnttab_map_def)
  moreover have "n \<le> length pte" using m(2) map_areas(2) [OF assms(1), of n] by simp
  ultimately show thesis using that [OF a(2)] m(3,4) by blast
qed

text \<open>C37: Mapping the ring of \<open>n\<close> references maps all but the last of them to consecutive
  pages; the last entry keeps what the allocation contained, and unmapping hands this entry
  to the hypervisor as well.\<close>
theorem ring_map_skips_last:
  assumes "map_ok M" "n = unat (g_nr_ring_grefs rd)" "1 \<le> n" "n < 2 ^ 31" "n \<le> length (g_ring_grefs rd)"
    and "\<forall>ents. m_unmap M ents = 0" "g_nr_bufs_grefs rd = 0"
  shows "\<exists>d addr ents d'. gnttab_map M rd domid 0 = Some (0, d)
     \<and> (\<forall>k < n - 1. op_ref (g_ring_map d ! k) = g_ring_grefs rd ! k
          \<and> pe_host_addr (g_ring_gnt d ! k) = addr + M_PAGE_SIZE M * k)
     \<and> gnttab_unmap M d = Some (0, ents, d') \<and> length ents = n
     \<and> ents ! (n - 1) = m_vmalloc_pte M n ! (n - 1)"
proof -
  obtain ops pte addr where m:
    "gnttab_map M rd domid 0 = Some (0, rd\<lparr>g_ring_map := ops, g_ring_gnt := pte\<rparr>)"
    "n \<le> length pte" "\<forall>k. n - 1 \<le> k \<longrightarrow> pte ! k = m_vmalloc_pte M n ! k"
    "\<forall>k < n - 1. op_ref (ops ! k) = g_ring_grefs rd ! k \<and> pe_host_addr (pte ! k) = addr + M_PAGE_SIZE M * k"
    by (rule gnttab_map_ring [OF assms(1-5)])
  let ?d = "rd\<lparr>g_ring_map := ops, g_ring_gnt := pte\<rparr>"
  have un: "gnttab_unmap M ?d = Some (0, take n pte, ?d\<lparr>g_ring_grefs := [], g_bufs_grefs := []\<rparr>)"
    using assms(2,6,7) m(2) by (simp add: gnttab_unmap_def take_all_def)
  have "take n pte ! (n - 1) = m_vmalloc_pte M n ! (n - 1)" using m(3) assms(3) by simp
  then show ?thesis using m(1,2,4) un
    by (rule_tac x = ?d in exI, rule_tac x = addr in exI, rule_tac x = "take n pte" in exI,
        rule_tac x = "?d\<lparr>g_ring_grefs := [], g_bufs_grefs := []\<rparr>" in exI) simp
qed

definition sample_map :: map_api where
  "sample_map = \<lparr>m_alloc_pages = \<lambda>_. 65536,
     m_vmalloc_op = \<lambda>n. replicate n \<lparr>op_ref = 0, op_dom = 0, op_flags = 0, op_host_addr = 0, op_status = 1, op_handle = 0\<rparr>,
     m_vmalloc_pte = \<lambda>n. replicate n \<lparr>pe_host_addr = 99, pe_handle = 99\<rparr>,
     m_vmalloc_ref = \<lambda>n. replicate n 0,
     m_map = \<lambda>ops. (0, List.map (\<lambda>x. x\<lparr>op_status := 0\<rparr>) ops), m_unmap = \<lambda>_. 0, m_ilog2 = \<lambda>_. 0,
     GNTMAP_host_map = 2, GNTST_okay = 0, M_PAGE_SIZE = 4096\<rparr>"

lemma sample_map_ok: "map_ok sample_map"
  by (simp add: map_ok_def sample_map_def)

definition sample_rdesc :: netmap_gnt where
  "sample_rdesc = \<lparr>g_ring_grefs = [11, 12, 13], g_bufs_grefs = [], g_ring_map = [], g_ring_gnt = [],
     g_bufs_map = [], g_bufs_gnt = [], g_nr_ring_grefs = 3, g_nr_bufs_grefs = 0, g_bufs_base = 0\<rparr>"

theorem ring_map_skips_last_witness:
  "\<exists>d ents d'. gnttab_map sample_map sample_rdesc 0 0 = Some (0, d) \<and> gnttab_unmap sample_map d = Some (0, ents, d')
     \<and> pe_host_addr (ents ! 2) = 99"
proof -
  have c: "3 = unat (g_nr_ring_grefs sample_rdesc)" "(1 :: nat) \<le> 3" "(3 :: nat) < 2 ^ 31"
    "3 \<le> length (g_ring_grefs sample_rdesc)" "\<forall>ents. m_unmap sample_map ents = 0"
    "g_nr_bufs_grefs sample_rdesc = 0"
    by (simp_all add: sample_rdesc_def sample_map_def)
  have j: "m_vmalloc_pte sample_map 3 ! (3 - 1) = \<lparr>pe_host_addr = 99, pe_handle = 99\<rparr>"
    by (simp add: sample_map_def)
  have "(3 :: nat) - 1 = 2" by simp
  then show ?thesis using ring_map_skips_last [OF sample_map_ok c] unfolding j by fastforce
qed

text \<open>The attempt that decides: the first whose end does not ask for another one.\<close>

definition evtchn_again :: "xb_api \<Rightarrow> nat \<Rightarrow> bool" where
  "evtchn_again X k \<longleftrightarrow> xb_printf X k ''event-channel-tx'' = 0 \<and> xb_printf X k ''event-channel-rx'' = 0
     \<and> xb_end X k False = - EAGAIN"

definition evtchn_failure :: "xb_api \<Rightarrow> nat \<Rightarrow> string option" where
  "evtchn_failure X k =
     (if xb_printf X k ''event-channel-tx'' \<noteq> 0 then Some ''Writing event-channel-tx''
      else if xb_printf X k ''event-channel-rx'' \<noteq> 0 then Some ''Writing event-channel-rx''
      else if xb_end X k False \<noteq> 0 then Some ''completing transaction'' else None)"

lemma write_evtchn_again:
  "evtchn_again X k \<Longrightarrow>
     xenbus_write_evtchn X nodename tx rx st k = xenbus_write_evtchn X nodename tx rx st (Suc k)"
  by (subst xenbus_write_evtchn.simps) (simp add: evtchn_again_def EAGAIN_def)

lemma write_evtchn_last:
  assumes "\<not> evtchn_again X k"
  shows "xenbus_write_evtchn X nodename tx rx st k =
     (case evtchn_failure X k of
        None \<Rightarrow> Some (0, st((nodename, ''event-channel-tx'') \<mapsto> fmt_u tx, (nodename, ''event-channel-rx'') \<mapsto> fmt_u rx))
      | Some message \<Rightarrow> if xb_vfree X message then Some (- EFAULT, st) else None)"
  using assms
  by (subst xenbus_write_evtchn.simps)
     (auto simp: evtchn_again_def evtchn_failure_def evtchn_abort_def evtchn_error_def vfree_literal_def)

text \<open>C38: Writing the event channels tries again as long as the end of the transaction asks for
  it. The first other attempt decides: without an error both channels are in the store;
  otherwise nothing is written and \<open>vfree\<close> is called with a string literal, so the error
  reaches the caller, always as \<open>-EFAULT\<close>, only if that call returns.\<close>
theorem write_evtchn_decided:
  assumes "k \<le> n" "\<forall>m. k \<le> m \<and> m < n \<longrightarrow> evtchn_again X m" "\<not> evtchn_again X n"
  shows "xenbus_write_evtchn X nodename tx rx st k =
     (case evtchn_failure X n of
        None \<Rightarrow> Some (0, st((nodename, ''event-channel-tx'') \<mapsto> fmt_u tx, (nodename, ''event-channel-rx'') \<mapsto> fmt_u rx))
      | Some message \<Rightarrow> if xb_vfree X message then Some (- EFAULT, st) else None)"
  using assms
proof (induction "n - k" arbitrary: k)
  case 0
  then have "n = k" by simp
  then show ?case using write_evtchn_last [OF 0(4)] by simp
next
  case (Suc d)
  then have "evtchn_again X k" "d = n - Suc k" "Suc k \<le> n" by simp_all
  then show ?case using Suc.hyps(1) [of "Suc k"] Suc.prems(2,3) write_evtchn_again [of X k] by simp
qed

theorem write_evtchn_decided_witness:
  "xenbus_write_evtchn \<lparr>xb_printf = \<lambda>_ _. 0, xb_end = \<lambda>k _. if k = 0 then - 11 else 5, xb_vfree = \<lambda>_. True\<rparr>
     ''n'' 5 6 Map.empty 0 = Some (- EFAULT, Map.empty)"
proof -
  let ?X = "\<lparr>xb_printf = \<lambda>_ _. 0, xb_end = \<lambda>k _. if k = 0 then - 11 else 5, xb_vfree = \<lambda>_. True\<rparr>"
  have a: "\<forall>m. 0 \<le> m \<and> m < 1 \<longrightarrow> evtchn_again ?X m" "\<not> evtchn_again ?X 1"
    by (simp_all add: evtchn_again_def EAGAIN_def)
  have "evtchn_failure ?X 1 = Some ''completing transaction''" by (simp add: evtchn_failure_def)
  then show ?thesis using write_evtchn_decided [OF _ a, of "''n''" 5 6 Map.empty] by simp
qed

end
