(* ===== verification/Grant_Exchange.thy ===== *)
theory Grant_Exchange
  imports Netfront_Grants
begin

text \<open>
  The two ends of the page sharing put together: what the back end grants
  (\<open>Netback_Grants\<close>), the front end finds in the slots and maps (\<open>Netfront_Grants\<close>), so that
  the address the front end computes for the buffer of a slot lies on the granted page that
  holds this buffer.
\<close>

definition nonzero_ptrs :: "nslot list \<Rightarrow> u32 list" where
  "nonzero_ptrs slots = map ucast (filter (\<lambda>p. p \<noteq> 0) (map s_ptr slots))"

lemma read_bufs_loop_eq:
  "i \<le> length slots \<Longrightarrow> j + length (nonzero_ptrs (drop i slots)) \<le> length refs \<Longrightarrow>
     read_bufs_loop slots (length slots) i j refs =
       Some (j + length (nonzero_ptrs (drop i slots)), overwrite refs j (nonzero_ptrs (drop i slots)))"
proof (induction "length slots - i" arbitrary: i j refs)
  case 0
  then show ?case by (simp add: read_bufs_loop.simps nonzero_ptrs_def)
next
  case (Suc n)
  then have i: "i < length slots" "n = length slots - Suc i" by simp_all
  have d: "drop i slots = slots ! i # drop (Suc i) slots" using i by (simp add: Cons_nth_drop_Suc)
  show ?case
  proof (cases "s_ptr (slots ! i) = 0")
    case True
    then have "nonzero_ptrs (drop i slots) = nonzero_ptrs (drop (Suc i) slots)"
      by (simp add: nonzero_ptrs_def d)
    then show ?thesis using Suc.hyps(1) [OF i(2), of j refs] Suc.prems i True
      by (simp add: read_bufs_loop.simps [of slots _ i] arr_get_Some)
  next
    case False
    let ?v = "ucast (s_ptr (slots ! i)) :: u32"
    have e: "nonzero_ptrs (drop i slots) = ?v # nonzero_ptrs (drop (Suc i) slots)"
      using False by (simp add: nonzero_ptrs_def d)
    have j: "j < length refs" using Suc.prems(2) e by simp
    have "read_bufs_loop slots (length slots) i j refs
        = read_bufs_loop slots (length slots) (Suc i) (Suc j) (refs[j := ?v])"
      using i j False by (simp add: read_bufs_loop.simps [of slots _ i] arr_get_Some arr_set_Some)
    also have "\<dots> = Some (Suc j + length (nonzero_ptrs (drop (Suc i) slots)),
        overwrite (refs[j := ?v]) (Suc j) (nonzero_ptrs (drop (Suc i) slots)))"
      using Suc.hyps(1) [OF i(2), of "Suc j" "refs[j := ?v]"] Suc.prems e i by simp
    finally show ?thesis using j e by (simp add: overwrite_Cons)
  qed
qed

lemma read_bufs_grefs_ok:
  assumes "unat (num_slots ring) = length (r_slots ring)" "map_ok M"
    "length (nonzero_ptrs (r_slots ring)) \<le> unat (num_slots ring div 2)"
  obtains rd' where "xenbus_read_bufs_grefs M ring rd = Some (0, rd')"
    "g_nr_ring_grefs rd' = g_nr_ring_grefs rd" "g_ring_map rd' = g_ring_map rd" "g_ring_gnt rd' = g_ring_gnt rd"
    "unat (g_nr_bufs_grefs rd') = length (nonzero_ptrs (r_slots ring))"
    "take (length (nonzero_ptrs (r_slots ring))) (g_bufs_grefs rd') = nonzero_ptrs (r_slots ring)"
    "length (nonzero_ptrs (r_slots ring)) \<le> length (g_bufs_grefs rd')"
proof -
  let ?new = "nonzero_ptrs (r_slots ring)" and ?vm = "m_vmalloc_ref M (unat (num_slots ring div 2))"
  have l: "length ?new \<le> length ?vm"
    using assms(3) map_areas(3) [OF assms(2)] by (rule le_trans)
  have lu: "length ?new < 4294967296" using assms(3) unat_u32_less by (rule le_less_trans)
  have "read_bufs_loop (r_slots ring) (unat (num_slots ring)) 0 0 ?vm = Some (length ?new, overwrite ?vm 0 ?new)"
    using read_bufs_loop_eq [of 0 "r_slots ring" 0 ?vm] l by (simp add: assms(1))
  then have r: "xenbus_read_bufs_grefs M ring rd =
      Some (0, rd\<lparr>g_bufs_grefs := overwrite ?vm 0 ?new, g_nr_bufs_grefs := of_nat (length ?new)\<rparr>)"
    by (simp add: xenbus_read_bufs_grefs_def)
  show thesis
    by (rule that [OF r]) (use l lu in \<open>simp_all add: unat_of_nat take_overwrite_0 length_overwrite\<close>)
qed

text \<open>Buffers that lie one after the other in the pool, two to a page.\<close>

lemma remdups_halves: "remdups_adj (map (\<lambda>i. i div 2) [0..<n]) = [0..<(n + 1) div 2]"
proof (induction n)
  case 0
  then show ?case by simp
next
  case (Suc n)
  show ?case
  proof (cases n)
    case 0
    then show ?thesis by simp
  next
    case (Suc m)
    then have ne: "map (\<lambda>i. i div 2) [0..<n] \<noteq> []" by simp
    have last: "last (map (\<lambda>i. i div 2) [0..<n]) = m div 2" using Suc by simp
    have "remdups_adj (map (\<lambda>i. i div 2) [0..<Suc n])
        = remdups_adj (map (\<lambda>i. i div 2) [0..<n] @ [n div 2])" by simp
    also have "\<dots> = [0..<(n + 1) div 2] @ remdups_adj (dropWhile (\<lambda>y. y = m div 2) [n div 2])"
      unfolding remdups_adj_append'' [OF ne] Suc.IH last ..
    also have "\<dots> = [0..<(Suc n + 1) div 2]"
    proof (cases "even n")
      case True
      then have "n div 2 \<noteq> m div 2" "(Suc n + 1) div 2 = Suc (n div 2)" "(n + 1) div 2 = n div 2"
        using Suc by (auto elim!: evenE)
      then show ?thesis by simp
    next
      case False
      then have "n div 2 = m div 2" "(Suc n + 1) div 2 = (n + 1) div 2"
        using Suc by (auto elim!: oddE)
      then show ?thesis by simp
    qed
    finally show ?thesis .
  qed
qed

lemma sequential_buffer_pages:
  assumes "\<forall>i < length slots. slot_page X lut (slots ! i) = p0 + i div 2"
  shows "buffer_pages X lut slots = map (\<lambda>j. p0 + j) [0..<(length slots + 1) div 2]"
proof -
  have "map (slot_page X lut) slots = map (\<lambda>j. p0 + j) (map (\<lambda>i. i div 2) [0..<length slots])"
    using assms by (intro nth_equalityI) simp_all
  moreover have "inj (\<lambda>j. p0 + j)" by simp
  ultimately show ?thesis
    by (simp only: buffer_pages_def remdups_adj_map_injective remdups_halves)
qed

text \<open>The front end maps the pages of the buffers in the order of their references.\<close>

lemma buffers_mapped:
  assumes "map_ok M" "unat (num_slots ring) = length (r_slots ring)" "nonzero_ptrs (r_slots ring) = rs"
    and "length rs = length (r_slots ring) div 2" "rs \<noteq> []"
  obtains rd1 rd2 base where "xenbus_read_bufs_grefs M ring rd = Some (0, rd1)"
    "gnttab_map M rd1 dom0 1 = Some (0, rd2)" "g_bufs_gnt rd2 \<noteq> []"
    "\<forall>k < length rs. op_ref (g_bufs_map rd2 ! k) = rs ! k
       \<and> pe_host_addr (g_bufs_gnt rd2 ! k) = base + M_PAGE_SIZE M * k"
    "g_nr_ring_grefs rd2 = g_nr_ring_grefs rd" "g_ring_map rd2 = g_ring_map rd" "g_ring_gnt rd2 = g_ring_gnt rd"
    "unat (g_nr_bufs_grefs rd2) = length rs"
proof -
  let ?h = "length rs"
  have h: "length (nonzero_ptrs (r_slots ring)) \<le> unat (num_slots ring div 2)"
    using assms(2-4) by (simp add: unat_div)
  obtain rd1 where rd1: "xenbus_read_bufs_grefs M ring rd = Some (0, rd1)"
    "g_nr_ring_grefs rd1 = g_nr_ring_grefs rd" "g_ring_map rd1 = g_ring_map rd" "g_ring_gnt rd1 = g_ring_gnt rd"
    "unat (g_nr_bufs_grefs rd1) = ?h" "take ?h (g_bufs_grefs rd1) = rs" "?h \<le> length (g_bufs_grefs rd1)"
    using read_bufs_grefs_ok [OF assms(2,1) h] assms(3) by metis
  have pos: "1 \<le> ?h" using assms(5) by (cases rs) simp_all
  have "?h < 2 ^ 31" using assms(2,4) unat_u32_less [of "num_slots ring"] by simp
  then obtain base where mo: "map_ops_new M (g_nr_bufs_grefs rd1) = Some (base, m_vmalloc_op M ?h, m_vmalloc_pte M ?h)"
    using map_ops_new_ok [OF assms(1), of "g_nr_bufs_grefs rd1"] rd1(5) pos by metis
  obtain ops pte where m: "map_refs M (g_bufs_grefs rd1) ?h base (m_vmalloc_op M ?h) (m_vmalloc_pte M ?h)
      = Some (0, ops, pte)" "length pte = length (m_vmalloc_pte M ?h)"
    "\<forall>k < ?h. op_ref (ops ! k) = g_bufs_grefs rd1 ! k \<and> pe_host_addr (pte ! k) = base + M_PAGE_SIZE M * k"
    using map_refs_ok [OF assms(1) rd1(7) map_areas(1,2) [OF assms(1)]] by blast
  let ?rd2 = "rd1\<lparr>g_bufs_map := ops, g_bufs_gnt := pte\<rparr>"
  have map: "gnttab_map M rd1 dom0 1 = Some (0, ?rd2)"
    using mo m(1) rd1(5) by (simp add: gnttab_map_def)
  have "1 \<le> length pte" using m(2) pos map_areas(2) [OF assms(1), of ?h] by linarith
  then have "g_bufs_gnt ?rd2 \<noteq> []" by auto
  moreover have "\<forall>k < ?h. g_bufs_grefs rd1 ! k = rs ! k" using rd1(6) by (metis nth_take)
  then have "\<forall>k < ?h. op_ref (g_bufs_map ?rd2 ! k) = rs ! k
      \<and> pe_host_addr (g_bufs_gnt ?rd2 ! k) = base + M_PAGE_SIZE M * k"
    using m(3) by simp
  ultimately show thesis using that [OF rd1(1) map, of base] rd1(2-5) by simp
qed

text \<open>For every slot, the address that the front end computes for its buffer is on a mapped page
  that was granted and holds this buffer. Which byte of the page it is, is in \<open>Shared_Memory\<close>.\<close>

definition bufs_reached ::
  "xen_api \<Rightarrow> (u32 \<Rightarrow> nat) \<Rightarrow> nslot list \<Rightarrow> nat \<Rightarrow> grants \<Rightarrow> netmap_gnt \<Rightarrow> bool" where
  "bufs_reached X lut slots domid g rd \<longleftrightarrow>
     (\<forall>i < length slots.
        let page = g_bufs_gnt rd ! (i div 2); ref = op_ref (g_bufs_map rd ! (i div 2));
            addr = pe_host_addr (g_bufs_gnt rd ! 0) + NETFRONT_BUF (of_nat i)
        in pe_host_addr page \<le> addr \<and> addr + 2048 \<le> pe_host_addr page + 4096
         \<and> g ref = Some (domid, page_mfn X (slot_page X lut (slots ! i))))"

text \<open>The buffers of a ring lie one after the other, two to a page.\<close>

definition paired :: "xen_api \<Rightarrow> (u32 \<Rightarrow> nat) \<Rightarrow> nring \<Rightarrow> bool" where
  "paired X lut ring \<longleftrightarrow> unat (num_slots ring) = length (r_slots ring) \<and> even (length (r_slots ring))
     \<and> (\<exists>p0. \<forall>i < length (r_slots ring). slot_page X lut (r_slots ring ! i) = p0 + i div 2)"

lemma paired_half:
  assumes "paired X lut ring"
  shows "length (buffer_pages X lut (r_slots ring)) = length (r_slots ring) div 2"
    "i < length (r_slots ring) \<Longrightarrow> buffer_pages X lut (r_slots ring) ! (i div 2) = slot_page X lut (r_slots ring ! i)"
proof -
  obtain p0 where p0: "\<forall>i < length (r_slots ring). slot_page X lut (r_slots ring ! i) = p0 + i div 2"
    "even (length (r_slots ring))"
    using assms by (auto simp: paired_def)
  have R: "buffer_pages X lut (r_slots ring) = map (\<lambda>j. p0 + j) [0..<(length (r_slots ring) + 1) div 2]"
    by (rule sequential_buffer_pages) (use p0 in blast)
  show "length (buffer_pages X lut (r_slots ring)) = length (r_slots ring) div 2"
    using p0(2) by (simp add: R)
  assume i: "i < length (r_slots ring)"
  then have "i div 2 < (length (r_slots ring) + 1) div 2" using p0(2) by (auto elim!: evenE)
  then show "buffer_pages X lut (r_slots ring) ! (i div 2) = slot_page X lut (r_slots ring ! i)"
    using p0(1) i by (simp add: R)
qed

lemma bufs_reachedI:
  assumes "paired X lut ring" "length (r_slots ring) \<le> 65536" "rs \<noteq> []"
    and "\<forall>k < length rs. g (rs ! k) = Some (domid, page_mfn X (buffer_pages X lut (r_slots ring) ! k))"
    and "length rs = length (r_slots ring) div 2"
    and "\<forall>k < length rs. op_ref (g_bufs_map rd ! k) = rs ! k \<and> pe_host_addr (g_bufs_gnt rd ! k) = base + 4096 * k"
  shows "bufs_reached X lut (r_slots ring) domid g rd"
  unfolding bufs_reached_def
proof (intro allI impI)
  fix i assume i: "i < length (r_slots ring)"
  have i2: "i div 2 < length rs" using i assms(1,5) by (auto simp: paired_def elim!: evenE)
  have b0: "pe_host_addr (g_bufs_gnt rd ! 0) = base" using assms(3,6) by (cases rs) simp_all
  have "2048 * i < 2 ^ LENGTH(32)" using i assms(2) by simp
  then have buf: "NETFRONT_BUF (of_nat i) = 2048 * i"
    using i assms(2)
    by (simp add: NETFRONT_BUF_def NETFRONT_BUF_SIZE_def unat_word_ariths unat_of_nat mult.commute)
  have "i = 2 * (i div 2) + i mod 2" "i mod 2 \<le> 1" by simp_all
  then have "2048 * i + 2048 \<le> 4096 * (i div 2) + 4096" "4096 * (i div 2) \<le> 2048 * i" by linarith+
  then show "let page = g_bufs_gnt rd ! (i div 2); ref = op_ref (g_bufs_map rd ! (i div 2));
            addr = pe_host_addr (g_bufs_gnt rd ! 0) + NETFRONT_BUF (of_nat i)
        in pe_host_addr page \<le> addr \<and> addr + 2048 \<le> pe_host_addr page + 4096
         \<and> g ref = Some (domid, page_mfn X (slot_page X lut (r_slots ring ! i)))"
    using assms(4,6) i2 buf b0 paired_half(2) [OF assms(1) i] by (simp add: Let_def)
qed

text \<open>C10: If the buffers of a shared ring lie one after the other, two to a page, then for
  every slot the address that the front end computes for its buffer lies on a page mapped by
  the front end, the reference mapped there is one the back end granted to the front end's
  domain, and it denotes the frame of the page that holds the slot's buffer.\<close>
theorem shared_buffers_reached:
  assumes "xen_ok X" "shareable X lut va ring" "n = length (r_slots ring)" "paired X lut ring"
    and "card (dom g) + ring_room X lut va ring \<le> gnttab_max X" "map_ok M" "M_PAGE_SIZE M = 4096"
  shows "\<exists>gnt ring' g' rd1 rd2. xenvif_grant_ring X lut va ring n domid g = Some (gnt, ring', g')
     \<and> xenbus_read_bufs_grefs M ring' rd = Some (0, rd1) \<and> gnttab_map M rd1 dom0 1 = Some (0, rd2)
     \<and> bufs_reached X lut (r_slots ring) domid g' rd2"
proof -
  let ?R = "buffer_pages X lut (r_slots ring)"
  obtain gnt slots rs g' where r:
    "xenvif_grant_ring X lut va ring (length (r_slots ring)) domid g = Some (gnt, ring\<lparr>r_slots := slots\<rparr>, g')"
    and s: "length rs = length ?R" "\<forall>i < length ?R. g' (rs ! i) = Some (domid, page_mfn X (?R ! i))"
      "filter (\<lambda>p. p \<noteq> 0) (map s_ptr slots) = map ucast rs" "length slots = length (r_slots ring)"
    by (rule shared_ring [OF assms(1,2,5)])
  let ?ring = "ring\<lparr>r_slots := slots\<rparr>"
  have ne: "r_slots ring \<noteq> []" "length (r_slots ring) \<le> 65536"
    using assms(2) by (simp_all add: shareable_def Let_def)
  have rs: "rs \<noteq> []" using s(1) buffer_pages_bounds(1) [OF ne(1), of X lut] by auto
  have half: "length rs = length (r_slots ring) div 2" using s(1) paired_half(1) [OF assms(4)] by simp
  have p: "unat (num_slots ?ring) = length (r_slots ?ring)" "nonzero_ptrs (r_slots ?ring) = rs"
    "length rs = length (r_slots ?ring) div 2"
    using assms(4) s(3,4) half by (simp_all add: paired_def nonzero_ptrs_def comp_def)
  obtain rd1 rd2 base where f: "xenbus_read_bufs_grefs M ?ring rd = Some (0, rd1)"
    "gnttab_map M rd1 dom0 1 = Some (0, rd2)"
    "\<forall>k < length rs. op_ref (g_bufs_map rd2 ! k) = rs ! k
       \<and> pe_host_addr (g_bufs_gnt rd2 ! k) = base + M_PAGE_SIZE M * k"
    by (rule buffers_mapped [OF assms(6) p rs])
  have "bufs_reached X lut (r_slots ring) domid g' rd2"
    using s(1,2) half f(3) assms(7) by (intro bufs_reachedI [OF assms(4) ne(2) rs, where base = base]) simp_all
  then show ?thesis using r f(1,2) unfolding assms(3) by blast
qed

definition sample_slot_at :: "u32 \<Rightarrow> nslot" where
  "sample_slot_at idx = \<lparr>s_buf_idx = idx, s_len = 2048, s_flags = 0, s_ptr = 0\<rparr>"

definition sample_ring4 :: nring where
  "sample_ring4 = \<lparr>num_slots = 4, r_head = 0, r_cur = 0, r_tail = 3,
     r_slots = [sample_slot_at 4, sample_slot_at 5, sample_slot_at 6, sample_slot_at 7]\<rparr>"

lemma sample_pages4:
  "ring_pages sample_xen 40960 4 = [10]"
  "buffer_pages sample_xen sample_lut (r_slots sample_ring4) = [22, 23]"
  by (simp_all add: ring_pages_def buffer_pages_def slot_page_def sample_xen_def sample_lut_def
      sample_ring4_def sample_slot_at_def)

lemma sample_shareable4: "shareable sample_xen sample_lut 40960 sample_ring4"
proof -
  have "length (r_slots sample_ring4) = 4" "r_slots sample_ring4 \<noteq> []"
    "\<exists>b. BUFS_NR_PAGES sample_xen sample_ring4 = Some b"
    "slot_page sample_xen sample_lut (r_slots sample_ring4 ! 0) = 22"
    by (simp_all add: sample_ring4_def BUFS_NR_PAGES_def arr_get_def slot_page_def sample_xen_def
        sample_lut_def sample_slot_at_def)
  moreover have "vmalloc_pg sample_xen n = replicate (n + 8) 77"
    "vmalloc_ref sample_xen n = replicate (n + 8) 0" for n
    by (simp_all add: sample_xen_def)
  ultimately show ?thesis by (auto simp: shareable_def Let_def sample_pages4)
qed

lemma sample_paired4: "paired sample_xen sample_lut sample_ring4"
proof -
  have pg: "slot_page sample_xen sample_lut (r_slots sample_ring4 ! 0) = 22"
    "slot_page sample_xen sample_lut (r_slots sample_ring4 ! 1) = 22"
    "slot_page sample_xen sample_lut (r_slots sample_ring4 ! 2) = 23"
    "slot_page sample_xen sample_lut (r_slots sample_ring4 ! 3) = 23"
    by (simp_all add: slot_page_def sample_xen_def sample_lut_def sample_ring4_def sample_slot_at_def)
  have "slot_page sample_xen sample_lut (r_slots sample_ring4 ! i) = 22 + i div 2" if "i < 4" for i
  proof -
    have "i = 0 \<or> i = 1 \<or> i = 2 \<or> i = 3" using that by auto
    then show ?thesis using pg by auto
  qed
  then have "\<forall>i < length (r_slots sample_ring4). slot_page sample_xen sample_lut (r_slots sample_ring4 ! i) = 22 + i div 2"
    by (simp add: sample_ring4_def)
  then show ?thesis by (auto simp: paired_def) (simp_all add: sample_ring4_def)
qed

lemma sample_room4: "ring_room sample_xen sample_lut 40960 sample_ring4 = 4"
proof -
  have "length (r_slots sample_ring4) = 4" by (simp add: sample_ring4_def)
  then show ?thesis by (simp add: ring_room_def sample_pages4)
qed

theorem shared_buffers_reached_witness:
  "\<exists>gnt ring' g' rd1 rd2. xenvif_grant_ring sample_xen sample_lut 40960 sample_ring4 4 1 Map.empty = Some (gnt, ring', g')
     \<and> xenbus_read_bufs_grefs sample_map ring' sample_rdesc = Some (0, rd1)
     \<and> gnttab_map sample_map rd1 0 1 = Some (0, rd2)
     \<and> bufs_reached sample_xen sample_lut (r_slots sample_ring4) 1 g' rd2"
proof -
  have n: "4 = length (r_slots sample_ring4)" "M_PAGE_SIZE sample_map = 4096"
    by (simp_all add: sample_ring4_def sample_map_def)
  have room: "card (dom (Map.empty :: grants)) + ring_room sample_xen sample_lut 40960 sample_ring4 \<le> gnttab_max sample_xen"
    by (simp add: sample_room4) (simp add: sample_xen_def)
  show ?thesis
    by (rule shared_buffers_reached [OF sample_xen_ok sample_shareable4 n(1) sample_paired4 room sample_map_ok n(2)])
qed

end
