(* ===== verification/Shared_Memory.thy ===== *)
theory Shared_Memory
  imports Grant_Exchange
begin

text \<open>
  The memory behind the buffers of a ring, as both domains see it. A byte of the machine is a
  frame and an offset. The back end reaches it through its own page frames, at the address
  that the lookup table of netmap gives for a slot; the front end through the pages it has
  mapped, at the address it computes from the number of the slot. When the buffers of a ring
  lie one after the other from the beginning of a page on, both mean the same byte.
\<close>

section \<open>Addresses\<close>

type_synonym machine_byte = "nat \<times> nat"
type_synonym memory = "machine_byte \<Rightarrow> u8"

definition back_byte :: "xen_api \<Rightarrow> nat \<Rightarrow> machine_byte" where
  "back_byte X va = (page_mfn X (virt_to_page X va), va mod 4096)"

text \<open>A mapped page is the frame that its reference stands for, if the other domain has granted it
  to this one.\<close>

definition front_byte :: "nat \<Rightarrow> grants \<Rightarrow> netmap_gnt \<Rightarrow> nat \<Rightarrow> machine_byte option" where
  "front_byte domid g rd a = do {
     k \<leftarrow> find (\<lambda>k. pe_host_addr (g_bufs_gnt rd ! k) \<le> a \<and> a < pe_host_addr (g_bufs_gnt rd ! k) + 4096)
           [0..<unat (g_nr_bufs_grefs rd)];
     (d, mfn) \<leftarrow> g (op_ref (g_bufs_map rd ! k));
     if d = domid then Some (mfn, a - pe_host_addr (g_bufs_gnt rd ! k)) else None
   }"

text \<open>The pages of the kernel's own memory have consecutive numbers and frames of their own.\<close>

definition pages_ok :: "xen_api \<Rightarrow> bool" where
  "pages_ok X \<longleftrightarrow> inj (page_mfn X) \<and> (\<forall>va. virt_to_page X va = virt_to_page X 0 + va div 4096)"

text \<open>The buffers lie one after the other in the order of the slots, from the beginning of a page.\<close>

definition placed :: "(u32 \<Rightarrow> nat) \<Rightarrow> nring \<Rightarrow> nat \<Rightarrow> bool" where
  "placed lut ring va \<longleftrightarrow> unat (num_slots ring) = length (r_slots ring) \<and> even (length (r_slots ring))
     \<and> va mod 4096 = 0 \<and> (\<forall>i < length (r_slots ring). lut (s_buf_idx (r_slots ring ! i)) = va + 2048 * i)"

lemma placed_paired:
  assumes "pages_ok X" "placed lut ring va"
  shows "paired X lut ring"
proof -
  have "(va + 2048 * i) div 4096 = va div 4096 + i div 2" for i
  proof -
    have "va = 4096 * (va div 4096)" using assms(2) by (auto simp: placed_def)
    then have "(va + 2048 * i) div 4096 = (4096 * (va div 4096) + 2048 * i) div 4096" by simp
    also have "\<dots> = va div 4096 + (2048 * i) div (2048 * 2)" by simp
    finally show ?thesis by simp
  qed
  then have "slot_page X lut (r_slots ring ! i) = (virt_to_page X 0 + va div 4096) + i div 2"
    if "i < length (r_slots ring)" for i
    using assms that unfolding slot_page_def pages_ok_def placed_def by (metis add.assoc)
  then show ?thesis using assms(2) unfolding paired_def placed_def by blast
qed

lemma back_byte_inject:
  assumes "pages_ok X" "back_byte X a = back_byte X b"
  shows "a = b"
proof -
  have "inj (page_mfn X)" using assms(1) unfolding pages_ok_def by blast
  moreover have "page_mfn X (virt_to_page X a) = page_mfn X (virt_to_page X b)"
    using assms(2) by (simp only: back_byte_def prod.inject)
  ultimately have "virt_to_page X a = virt_to_page X b" by (rule injD)
  then have "virt_to_page X 0 + a div 4096 = virt_to_page X 0 + b div 4096"
    using assms(1) unfolding pages_ok_def by metis
  moreover have "a mod 4096 = b mod 4096" using assms(2) by (simp add: back_byte_def)
  ultimately have "4096 * (a div 4096) + a mod 4096 = 4096 * (b div 4096) + b mod 4096" by simp
  then show ?thesis by (simp only: mult_div_mod_eq)
qed

text \<open>For every byte of a slot's buffer, the address that the front end computes from the number
  of the slot denotes the byte of the machine that the back end finds at the address of the
  buffer.\<close>

definition bufs_located ::
  "xen_api \<Rightarrow> (u32 \<Rightarrow> nat) \<Rightarrow> nslot list \<Rightarrow> nat \<Rightarrow> grants \<Rightarrow> netmap_gnt \<Rightarrow> bool" where
  "bufs_located X lut slots domid g rd \<longleftrightarrow>
     (\<forall>i < length slots. \<forall>x < 2048.
        front_byte domid g rd (g_bufs_base rd + NETFRONT_BUF (of_nat i) + x)
          = Some (back_byte X (lut (s_buf_idx (slots ! i)) + x)))"

lemma NETFRONT_BUF_of_nat: "i < 65536 \<Longrightarrow> NETFRONT_BUF (of_nat i) = 2048 * i"
  by (simp add: NETFRONT_BUF_def NETFRONT_BUF_SIZE_def unat_word_ariths unat_of_nat)

lemma bufs_locatedI:
  assumes X: "pages_ok X" and pl: "placed lut ring va" and len: "length (r_slots ring) \<le> 65536"
    and rs: "\<forall>k < length rs. g (rs ! k) = Some (domid, page_mfn X (buffer_pages X lut (r_slots ring) ! k))"
    and half: "length rs = length (r_slots ring) div 2"
    and map: "\<forall>k < length rs. op_ref (g_bufs_map rd ! k) = rs ! k \<and> pe_host_addr (g_bufs_gnt rd ! k) = base + 4096 * k"
    and nr: "unat (g_nr_bufs_grefs rd) = length rs" and b: "g_bufs_base rd = base"
  shows "bufs_located X lut (r_slots ring) domid g rd"
  unfolding bufs_located_def
proof (intro allI impI)
  fix i x :: nat assume i: "i < length (r_slots ring)" and x: "x < 2048"
  let ?k = "i div 2" and ?a = "base + 2048 * i + x"
  have k: "?k < length rs" using i pl half by (auto simp: placed_def elim!: evenE)
  have "2 * ?k + i mod 2 = i" by (rule mult_div_mod_eq)
  then have split: "2048 * i = 4096 * ?k + 2048 * (i mod 2)" "i mod 2 \<le> 1" by linarith+
  have "find (\<lambda>k. pe_host_addr (g_bufs_gnt rd ! k) \<le> ?a \<and> ?a < pe_host_addr (g_bufs_gnt rd ! k) + 4096)
      [0..<unat (g_nr_bufs_grefs rd)] = Some ?k"
    unfolding find_Some_iff nr
  proof (intro exI [of _ ?k] conjI allI impI)
    fix j assume "j < ?k"
    moreover from this k have "pe_host_addr (g_bufs_gnt rd ! j) = base + 4096 * j" "j < length rs" using map by auto
    ultimately show "\<not> (pe_host_addr (g_bufs_gnt rd ! ([0..<length rs] ! j)) \<le> ?a
        \<and> ?a < pe_host_addr (g_bufs_gnt rd ! ([0..<length rs] ! j)) + 4096)"
      using split by simp
  qed (use k map split x in auto)
  moreover have "g (op_ref (g_bufs_map rd ! ?k)) = Some (domid, page_mfn X (slot_page X lut (r_slots ring ! i)))"
    using map rs k paired_half(2) [OF placed_paired [OF X pl] i] by simp
  moreover have "?a - pe_host_addr (g_bufs_gnt rd ! ?k) = 2048 * (i mod 2) + x" using map k split by simp
  ultimately have f: "front_byte domid g rd ?a =
      Some (page_mfn X (slot_page X lut (r_slots ring ! i)), 2048 * (i mod 2) + x)"
    by (simp add: front_byte_def)
  have l: "lut (s_buf_idx (r_slots ring ! i)) = va + 2048 * i" "va mod 4096 = 0" using pl i by (simp_all add: placed_def)
  obtain q where q: "va = 4096 * q" using l(2) by auto
  have small: "2048 * (i mod 2) + x < 4096" "2048 * (i mod 2) < 4096" using split(2) x by linarith+
  have sum: "va + 2048 * i + x = (2048 * (i mod 2) + x) + 4096 * (q + ?k)"
    "va + 2048 * i = 2048 * (i mod 2) + 4096 * (q + ?k)" using q split(1) by simp_all
  have m: "(va + 2048 * i + x) mod 4096 = 2048 * (i mod 2) + x"
    unfolding sum(1) mod_mult_self2 using small(1) by (rule mod_less)
  have d: "(va + 2048 * i + x) div 4096 = q + ?k" "(va + 2048 * i) div 4096 = q + ?k"
    subgoal unfolding sum(1) using small(1) by simp
    subgoal unfolding sum(2) using small(2) by simp
    done
  then have "virt_to_page X (va + 2048 * i + x) = virt_to_page X (va + 2048 * i)"
    using X d unfolding pages_ok_def by metis
  then show "front_byte domid g rd (g_bufs_base rd + NETFRONT_BUF (of_nat i) + x)
      = Some (back_byte X (lut (s_buf_idx (r_slots ring ! i)) + x))"
    using f i len m by (simp add: b NETFRONT_BUF_of_nat l(1) back_byte_def slot_page_def)
qed

text \<open>The same for the whole area of the buffers.\<close>

lemma area_located:
  assumes "bufs_located X lut (r_slots ring) domid g rd" "placed lut ring va" "length (r_slots ring) \<le> 65536"
    and "x < 2048 * length (r_slots ring)"
  shows "front_byte domid g rd (g_bufs_base rd + x) = Some (back_byte X (va + x))"
proof -
  let ?i = "x div 2048" and ?o = "x mod 2048"
  have i: "?i < length (r_slots ring)" "?o < 2048" using assms(4) by (simp_all add: less_mult_imp_div_less mult.commute)
  have "front_byte domid g rd (g_bufs_base rd + 2048 * ?i + ?o) = Some (back_byte X (va + 2048 * ?i + ?o))"
  proof -
    have "front_byte domid g rd (g_bufs_base rd + NETFRONT_BUF (of_nat ?i) + ?o)
        = Some (back_byte X (lut (s_buf_idx (r_slots ring ! ?i)) + ?o))"
      using assms(1) i unfolding bufs_located_def by blast
    moreover have "lut (s_buf_idx (r_slots ring ! ?i)) = va + 2048 * ?i" using assms(2) i(1) by (simp add: placed_def)
    moreover have "NETFRONT_BUF (of_nat ?i) = 2048 * ?i" using i(1) assms(3) by (intro NETFRONT_BUF_of_nat) simp
    ultimately show ?thesis by simp
  qed
  then show ?thesis by (simp only: add.assoc mult_div_mod_eq)
qed

section \<open>Loads and stores\<close>

fun load_at :: "(nat \<Rightarrow> machine_byte option) \<Rightarrow> memory \<Rightarrow> nat \<Rightarrow> nat \<Rightarrow> u8 list option" where
  "load_at loc mem a 0 = Some []"
| "load_at loc mem a (Suc n) = do {
     l \<leftarrow> loc a;
     bs \<leftarrow> load_at loc mem (Suc a) n;
     Some (mem l # bs)
   }"

fun store_at :: "(nat \<Rightarrow> machine_byte option) \<Rightarrow> nat \<Rightarrow> u8 list \<Rightarrow> memory \<Rightarrow> memory option" where
  "store_at loc a [] mem = Some mem"
| "store_at loc a (b # bs) mem = do {
     l \<leftarrow> loc a;
     store_at loc (Suc a) bs (mem(l := b))
   }"

lemma load_at_eq:
  "\<forall>x < n. loc (a + x) = Some (L x) \<Longrightarrow> load_at loc mem a n = Some (map (\<lambda>x. mem (L x)) [0..<n])"
proof (induction n arbitrary: a L)
  case 0
  then show ?case by simp
next
  case (Suc n)
  have "\<forall>x < n. loc (Suc a + x) = Some (L (Suc x))" using Suc.prems by (auto simp flip: add_Suc_right)
  from Suc.IH [OF this] have "load_at loc mem (Suc a) n = Some (map (\<lambda>x. mem (L (Suc x))) [0..<n])" .
  moreover have "loc a = Some (L 0)" using Suc.prems by force
  ultimately show ?case by (simp add: map_upt_Suc del: upt_Suc)
qed

lemma store_at_eq:
  "\<forall>x < length bs. loc (a + x) = Some (L x) \<Longrightarrow> inj L \<Longrightarrow>
   \<exists>mem'. store_at loc a bs mem = Some mem' \<and> (\<forall>x < length bs. mem' (L x) = bs ! x)
     \<and> (\<forall>l. l \<notin> L ` {..<length bs} \<longrightarrow> mem' l = mem l)"
proof (induction bs arbitrary: a L mem)
  case Nil
  then show ?case by simp
next
  case (Cons b bs)
  have "\<forall>x < length bs. loc (Suc a + x) = Some (L (Suc x))" using Cons.prems(1) by (auto simp flip: add_Suc_right)
  moreover have "inj (\<lambda>x. L (Suc x))" using Cons.prems(2) by (auto simp: inj_def)
  ultimately obtain mem' where m: "store_at loc (Suc a) bs (mem(L 0 := b)) = Some mem'"
    "\<forall>x < length bs. mem' (L (Suc x)) = bs ! x"
    "\<forall>l. l \<notin> (\<lambda>x. L (Suc x)) ` {..<length bs} \<longrightarrow> mem' l = (mem(L 0 := b)) l"
    using Cons.IH [of "Suc a" "\<lambda>x. L (Suc x)" "mem(L 0 := b)"] by blast
  have "loc a = Some (L 0)" using Cons.prems(1) by force
  then have "store_at loc a (b # bs) mem = Some mem'" using m(1) by simp
  moreover have "L 0 \<notin> (\<lambda>x. L (Suc x)) ` {..<length bs}" using Cons.prems(2) by (auto simp: inj_eq)
  then have "mem' (L 0) = (mem(L 0 := b)) (L 0)" using m(3) by blast
  then have "mem' (L 0) = b" by simp
  then have "\<forall>x < length (b # bs). mem' (L x) = (b # bs) ! x" using m(2) by (auto simp: less_Suc_eq_0_disj)
  moreover have "mem' l = mem l" if "l \<notin> L ` {..<length (b # bs)}" for l
  proof -
    have "l \<noteq> L 0" using that by force
    have "l \<notin> (\<lambda>x. L (Suc x)) ` {..<length bs}" using that by fastforce
    then have "mem' l = (mem(L 0 := b)) l" using m(3) by blast
    then show ?thesis using \<open>l \<noteq> L 0\<close> by simp
  qed
  ultimately show ?case by blast
qed

text \<open>The buffers of a ring as the front end has them before it, and the packet of a slot as the
  bridge reads it.\<close>

definition front_area :: "nat \<Rightarrow> grants \<Rightarrow> netmap_gnt \<Rightarrow> nat \<Rightarrow> memory \<Rightarrow> u8 list option" where
  "front_area domid g rd n mem = load_at (front_byte domid g rd) mem (g_bufs_base rd) (2048 * n)"

definition store_area :: "nat \<Rightarrow> grants \<Rightarrow> netmap_gnt \<Rightarrow> u8 list \<Rightarrow> memory \<Rightarrow> memory option" where
  "store_area domid g rd bufs mem = store_at (front_byte domid g rd) (g_bufs_base rd) bufs mem"

definition back_cell :: "xen_api \<Rightarrow> (u32 \<Rightarrow> nat) \<Rightarrow> memory \<Rightarrow> nslot list \<Rightarrow> nat \<Rightarrow> u8 list option" where
  "back_cell X lut mem slots i = do {
     s \<leftarrow> arr_get slots i;
     load_at (\<lambda>va. Some (back_byte X va)) mem (lut (s_buf_idx s)) (unat (s_len s))
   }"

text \<open>All that the two sides have to agree on: the buffers of the numbers \<open>idxs\<close>.\<close>

definition linked :: "xen_api \<Rightarrow> (u32 \<Rightarrow> nat) \<Rightarrow> nat \<Rightarrow> grants \<Rightarrow> netmap_gnt \<Rightarrow> nat \<Rightarrow> u32 list \<Rightarrow> bool" where
  "linked X lut domid g rd va idxs \<longleftrightarrow> pages_ok X \<and> length idxs \<le> 65536
     \<and> (\<forall>i < length idxs. lut (idxs ! i) = va + 2048 * i)
     \<and> (\<forall>x < 2048 * length idxs. front_byte domid g rd (g_bufs_base rd + x) = Some (back_byte X (va + x)))"

lemma located_linked:
  assumes "pages_ok X" "bufs_located X lut (r_slots ring) domid g rd" "placed lut ring va"
    and "length (r_slots ring) \<le> 65536"
  shows "linked X lut domid g rd va (map s_buf_idx (r_slots ring))"
  using assms area_located [OF assms(2-4)] by (simp add: linked_def placed_def)

lemma front_area_eq:
  "linked X lut domid g rd va idxs \<Longrightarrow>
   front_area domid g rd (length idxs) mem = Some (map (\<lambda>x. mem (back_byte X (va + x))) [0..<2048 * length idxs])"
  unfolding front_area_def by (rule load_at_eq) (simp add: linked_def)

lemma store_area_eq:
  assumes l: "linked X lut domid g rd va idxs" and n: "length bufs = 2048 * length idxs"
  obtains mem' where "store_area domid g rd bufs mem = Some mem'"
    "front_area domid g rd (length idxs) mem' = Some bufs"
proof -
  let ?L = "\<lambda>x. back_byte X (va + x)"
  have "inj ?L"
  proof (rule injI)
    fix x y assume "?L x = ?L y"
    then have "va + x = va + y" using l back_byte_inject [of X] unfolding linked_def by blast
    then show "x = y" by simp
  qed
  moreover have "\<forall>x < length bufs. front_byte domid g rd (g_bufs_base rd + x) = Some (?L x)"
    using l n by (simp add: linked_def)
  ultimately obtain mem' where m: "store_area domid g rd bufs mem = Some mem'" "\<forall>x < length bufs. mem' (?L x) = bufs ! x"
    using store_at_eq [of bufs "front_byte domid g rd" "g_bufs_base rd" ?L mem] unfolding store_area_def by blast
  have "map (\<lambda>x. mem' (?L x)) [0..<2048 * length idxs] = bufs"
    using m(2) n by (intro nth_equalityI) simp_all
  then show thesis using that [OF m(1)] front_area_eq [OF l] by simp
qed

text \<open>The packet that the bridge reads in a slot is the one that the front end has there.\<close>

lemma back_cell_eq:
  assumes l: "linked X lut domid g rd va (map s_buf_idx slots)"
    and a: "front_area domid g rd (length slots) mem = Some bufs"
    and i: "i < length slots" "unat (s_len (slots ! i)) \<le> 2048"
  shows "back_cell X lut mem slots i = cell_get sh_addr (slots, bufs) i"
proof -
  let ?len = "unat (s_len (slots ! i))"
  have b: "bufs = map (\<lambda>x. mem (back_byte X (va + x))) [0..<2048 * length slots]"
    using front_area_eq [OF l, of mem] a by simp
  have e: "lut (s_buf_idx (slots ! i)) = va + 2048 * i" "i < 65536" using l i(1) by (auto simp: linked_def)
  have "back_cell X lut mem slots i = Some (map (\<lambda>x. mem (back_byte X (va + 2048 * i + x))) [0..<?len])"
    using i(1) e(1) by (simp add: back_cell_def arr_get_Some load_at_eq [of _ _ _ "\<lambda>x. back_byte X (va + 2048 * i + x)"])
  moreover have le: "2048 * i + ?len \<le> length bufs"
  proof -
    have "2048 * i + 2048 \<le> 2048 * length slots" using i(1) by simp
    then show ?thesis using i(2) by (simp add: b)
  qed
  moreover have "take ?len (drop (2048 * i) bufs) = map (\<lambda>x. mem (back_byte X (va + 2048 * i + x))) [0..<?len]"
    using le by (intro nth_equalityI) (simp_all add: b add.assoc)
  ultimately show ?thesis
    using i(1) e(2) by (simp add: cell_get_def arr_get_Some sh_addr_def NETFRONT_BUF_of_nat rd_bytes_def)
qed

end
