(* ===== verification/Netback_Setup.thy ===== *)
theory Netback_Setup
  imports Xenbus Netback_Thread
begin

text \<open>
  How the back end comes and goes, \<open>LINUX/netback_netmap_linux.h\<close>: the registration of a
  netmap port, which shares both rings with the front end and writes the references to the
  store in one transaction (\<open>xenvif_netmap_map\<close>), and the detach, which takes the grants
  back (\<open>xenvif_netmap_unmap\<close>). The answers of XenStore, the memory of the slots and
  the allocator are parameters; the number of slots of a ring is less than \<open>2 ^ 31\<close>, so that
  the \<open>int\<close> that is passed on is that number.
\<close>

section \<open>State\<close>

text \<open>
  \<open>xs_start\<close> is the error of starting a transaction and its number, \<open>xs_xbt\<close> what the
  variable for the number holds before. Writes of a transaction are seen when it ends
  without an error and without being given up.
\<close>

record xs_api =
  xs_start :: "int \<times> u32"
  xs_printf :: "string \<times> string \<Rightarrow> int"
  xs_end :: "u32 \<Rightarrow> bool \<Rightarrow> int"
  xs_xbt :: u32

datatype back_log =
    Dev_fatal int string
  | Transaction_end u32 bool
  | Native_flags bool
  | Malloc_vwna
  | Netmap_detached

record back_if =
  bi_flags :: u32
  bi_domid :: nat
  bi_nodename :: string
  bi_otherend :: string
  bi_num_tx_desc :: u32
  bi_num_rx_desc :: u32
  bi_tx_va :: nat
  bi_rx_va :: nat
  bi_tx_ring :: nring
  bi_rx_ring :: nring
  bi_nmtx :: nm_grant_ring
  bi_nmrx :: nm_grant_ring
  bi_vwna :: "netmap_vpwrap_adapter option"
  bi_grants :: grants
  bi_store :: store
  bi_log :: "back_log list"

definition note_log :: "back_log \<Rightarrow> back_if \<Rightarrow> back_if" where
  "note_log e b = b\<lparr>bi_log := bi_log b @ [e]\<rparr>"

section \<open>Sharing and taking back\<close>

text \<open>\<open>xenbus_transaction_end(xbt, 0)\<close>: the writes \<open>st\<close> are to be kept.\<close>

definition transaction_commit :: "xs_api \<Rightarrow> u32 \<Rightarrow> store \<Rightarrow> back_if \<Rightarrow> back_if" where
  "transaction_commit T xbt st b =
     (note_log (Transaction_end xbt False) b)\<lparr>bi_store := (if xs_end T xbt False = 0 then st else bi_store b)\<rparr>"

text \<open>
  \<open>abort_transaction\<close> is reached with and without an error and always keeps the writes; when
  no transaction was started it ends the one that the uninitialised variable names.
\<close>

definition xenvif_netmap_map :: "xen_api \<Rightarrow> (u32 \<Rightarrow> nat) \<Rightarrow> xs_api \<Rightarrow> back_if \<Rightarrow> back_if option" where
  "xenvif_netmap_map X lut T b =
     (if nr_ring_pgs (bi_nmtx b) \<noteq> 0 then Some b
      else do {
        (nmtx, tx, g) \<leftarrow> xenvif_grant_ring X lut (bi_tx_va b) (bi_tx_ring b) (unat (bi_num_tx_desc b))
                          (bi_domid b) (bi_grants b);
        (nmrx, rx, g) \<leftarrow> xenvif_grant_ring X lut (bi_rx_va b) (bi_rx_ring b) (unat (bi_num_rx_desc b))
                          (bi_domid b) g;
        let b = b\<lparr>bi_nmtx := nmtx, bi_nmrx := nmrx, bi_tx_ring := tx, bi_rx_ring := rx, bi_grants := g\<rparr>;
        let (err, xbt) = xs_start T;
        if err \<noteq> 0 then
          Some (transaction_commit T (xs_xbt T) (bi_store b) (note_log (Dev_fatal err ''starting transaction'') b))
        else do {
          let (_, st) = xenbus_printf (xs_printf T) (bi_store b) (bi_nodename b) ''feature-netmap-tx-desc''
                          (fmt_u (bi_num_tx_desc b));
          let (_, st) = xenbus_printf (xs_printf T) st (bi_nodename b) ''feature-netmap-rx-desc''
                          (fmt_u (bi_num_rx_desc b));
          (err, st) \<leftarrow> xenbus_write_grefs (xs_printf T) (bi_otherend b) nmtx nmrx st;
          Some (transaction_commit T xbt st b)
        }
      })"

definition xenvif_netmap_unmap :: "back_if \<Rightarrow> back_if option" where
  "xenvif_netmap_unmap b =
     (if nr_ring_pgs (bi_nmtx b) = 0 then Some b
      else do {
        (nmtx, g) \<leftarrow> xenvif_revoke_ring (bi_nmtx b) (bi_grants b);
        (nmrx, g) \<leftarrow> xenvif_revoke_ring (bi_nmrx b) g;
        Some (b\<lparr>bi_nmtx := nmtx, bi_nmrx := nmrx, bi_grants := g\<rparr>)
      })"

section \<open>Registration and detach\<close>

text \<open>
  The flags of the port after a registration; the memory for them is asked for without
  waiting and used without looking at the answer \<open>malloc_vwna\<close>.
\<close>

definition xenvif_netmap_reg ::
  "xen_api \<Rightarrow> (u32 \<Rightarrow> nat) \<Rightarrow> xs_api \<Rightarrow> u32 \<Rightarrow> bool \<Rightarrow> back_if \<Rightarrow> int \<Rightarrow> (int \<times> back_if) option" where
  "xenvif_netmap_reg X lut T IFF_UP malloc_vwna b onoff =
     (if c_not (bi_flags b) AND IFF_UP \<noteq> 0 then Some (EINVAL, b)
      else if onoff \<noteq> 0 then do {
        b \<leftarrow> xenvif_netmap_map X lut T b;
        let b = note_log Malloc_vwna (note_log (Native_flags True) b);
        if \<not> malloc_vwna then None
        else Some (0, b\<lparr>bi_vwna := Some \<lparr>vw_guest_need_rxkick = 1, vw_guest_need_txkick = 0\<rparr>\<rparr>)
      }
      else Some (0, note_log (Native_flags False) b))"

definition xenvif_netmap_detach :: "back_if \<Rightarrow> back_if option" where
  "xenvif_netmap_detach b = do {
     b \<leftarrow> xenvif_netmap_unmap b;
     Some (note_log Netmap_detached b)
   }"

section \<open>The adapter\<close>

text \<open>The two sync methods change places: the port of the bridge sees the rings swapped.
  \<open>reg\<close> is \<open>xenvif_netmap_reg\<close> with what it finds.\<close>

record back_adapter =
  ba_num_tx_desc :: u32
  ba_num_rx_desc :: u32
  ba_num_tx_rings :: u32
  ba_num_rx_rings :: u32
  ba_nm_register :: "back_if \<Rightarrow> int \<Rightarrow> (int \<times> back_if) option"
  ba_nm_notify :: "bool \<Rightarrow> u32 \<Rightarrow> u32 \<Rightarrow> txrx \<Rightarrow> xenvif \<Rightarrow> (int \<times> xenvif) option"
  ba_nm_txsync :: "kring \<Rightarrow> u32 \<Rightarrow> (int \<times> kring) option"
  ba_nm_rxsync :: "kring \<Rightarrow> u32 \<Rightarrow> (int \<times> kring) option"

definition default_tx_desc :: u32 where "default_tx_desc = 1024"
definition default_rx_desc :: u32 where "default_rx_desc = 1024"

definition xenvif_netmap_attach ::
  "netmap_api \<Rightarrow> bridge_api \<Rightarrow> (back_if \<Rightarrow> int \<Rightarrow> (int \<times> back_if) option) \<Rightarrow> bool \<Rightarrow> bool \<Rightarrow> back_adapter option" where
  "xenvif_netmap_attach A B reg attached carrier =
     (if attached then None
      else Some \<lparr>ba_num_tx_desc = default_tx_desc, ba_num_rx_desc = default_rx_desc,
                 ba_num_tx_rings = 1, ba_num_rx_rings = 1,
                 ba_nm_register = reg, ba_nm_notify = xenvif_notify A B,
                 ba_nm_txsync = xenvif_netmap_rxsync A carrier,
                 ba_nm_rxsync = (\<lambda>k flags. Some (xenvif_netmap_txsync k flags))\<rparr>)"

text \<open>A history of registrations, each switching the port on or off.\<close>

fun reg_all ::
  "xen_api \<Rightarrow> (u32 \<Rightarrow> nat) \<Rightarrow> xs_api \<Rightarrow> u32 \<Rightarrow> int list \<Rightarrow> back_if \<Rightarrow> back_if option" where
  "reg_all X lut T IFF_UP [] b = Some b"
| "reg_all X lut T IFF_UP (onoff # rest) b = do {
     (_, b) \<leftarrow> xenvif_netmap_reg X lut T IFF_UP True b onoff;
     reg_all X lut T IFF_UP rest b
   }"

section \<open>What a registration shares\<close>

definition back_ready :: "xen_api \<Rightarrow> (u32 \<Rightarrow> nat) \<Rightarrow> back_if \<Rightarrow> bool" where
  "back_ready X lut b \<longleftrightarrow>
     nr_ring_pgs (bi_nmtx b) = 0
   \<and> shareable X lut (bi_tx_va b) (bi_tx_ring b) \<and> shareable X lut (bi_rx_va b) (bi_rx_ring b)
   \<and> unat (bi_num_tx_desc b) = length (r_slots (bi_tx_ring b))
   \<and> unat (bi_num_rx_desc b) = length (r_slots (bi_rx_ring b))
   \<and> card (dom (bi_grants b)) + ring_room X lut (bi_tx_va b) (bi_tx_ring b)
       + ring_room X lut (bi_rx_va b) (bi_rx_ring b) \<le> gnttab_max X"

lemma write_refs_loop_total:
  "nr < length refs \<Longrightarrow> \<exists>err st'. write_refs_loop E dir pre refs nr i st = Some (err, st')"
proof (induction "Suc nr - i" arbitrary: i st)
  case 0
  then show ?case by (simp add: write_refs_loop.simps)
next
  case (Suc n)
  then have i: "i \<le> nr" "n = Suc nr - Suc i" by simp_all
  then show ?case
    using Suc.hyps(1) [OF i(2)] Suc.prems
    by (subst write_refs_loop.simps) (auto simp: arr_get_Some xenbus_printf_def Let_def)
qed

lemma write_grefs_total:
  assumes "unat (nr_ring_pgs nmtx) < length (ring_ref nmtx)" "unat (nr_ring_pgs nmrx) < length (ring_ref nmrx)"
  shows "\<exists>err st'. xenbus_write_grefs E dir nmtx nmrx st = Some (err, st')"
proof -
  obtain e1 s1 where "write_refs_loop E dir ''tx-ring-ref'' (ring_ref nmtx) (unat (nr_ring_pgs nmtx)) 0 st = Some (e1, s1)"
    using write_refs_loop_total [OF assms(1)] by blast
  moreover obtain e2 s2 where "write_refs_loop E dir ''rx-ring-ref'' (ring_ref nmrx) (unat (nr_ring_pgs nmrx)) 0
      (snd (xenbus_printf E s1 dir (nr_name ''tx-ring-refs'') (fmt_u (ucast (nr_ring_pgs nmtx) + 1)))) = Some (e2, s2)"
    using write_refs_loop_total [OF assms(2)] by blast
  ultimately show ?thesis by (simp add: xenbus_write_grefs_def split_def)
qed

text \<open>The pages of a ring, granted in the order of the references that are exchanged.\<close>

definition ring_shared :: "xen_api \<Rightarrow> nat \<Rightarrow> nat \<Rightarrow> nring \<Rightarrow> nm_grant_ring \<Rightarrow> grants \<Rightarrow> bool" where
  "ring_shared X domid va ring gnt g \<longleftrightarrow>
     (let P = ring_pages X va (length (r_slots ring))
      in unat (nr_ring_pgs gnt) = length P \<and> length P < length (ring_ref gnt)
       \<and> (\<forall>i < length P. g (ring_ref gnt ! i) = Some (domid, page_mfn X (P ! i))))"

text \<open>The ring after sharing: the nonzero \<open>ptr\<close> fields are the references of its buffers' pages.\<close>

definition bufs_shared :: "xen_api \<Rightarrow> (u32 \<Rightarrow> nat) \<Rightarrow> nat \<Rightarrow> nring \<Rightarrow> nring \<Rightarrow> grants \<Rightarrow> bool" where
  "bufs_shared X lut domid ring ring' g \<longleftrightarrow>
     (\<exists>slots rs. ring' = ring\<lparr>r_slots := slots\<rparr> \<and> length slots = length (r_slots ring)
        \<and> filter (\<lambda>p. p \<noteq> 0) (map s_ptr slots) = map ucast rs
        \<and> length rs = length (buffer_pages X lut (r_slots ring))
        \<and> (\<forall>i < length rs. g (rs ! i) = Some (domid, page_mfn X (buffer_pages X lut (r_slots ring) ! i))))"

lemma bufs_sharedI:
  assumes "length ss = length (r_slots ring)" "filter (\<lambda>p. p \<noteq> 0) (map s_ptr ss) = map ucast rs"
    and "length rs = length (buffer_pages X lut (r_slots ring))"
    and "\<forall>i < length (buffer_pages X lut (r_slots ring)).
           g (rs ! i) = Some (domid, page_mfn X (buffer_pages X lut (r_slots ring) ! i))"
  shows "bufs_shared X lut domid ring (ring\<lparr>r_slots := ss\<rparr>) g"
  unfolding bufs_shared_def
  by (rule exI [of _ ss], rule exI [of _ rs], intro conjI) (simp_all add: assms(1,3,4) assms(2))

text \<open>What both calls of \<open>xenvif_grant_ring\<close> and both revocations do together.\<close>

definition both_shared :: "xen_api \<Rightarrow> (u32 \<Rightarrow> nat) \<Rightarrow> back_if \<Rightarrow> nm_grant_ring \<Rightarrow> nm_grant_ring \<Rightarrow> grants \<Rightarrow> bool" where
  "both_shared X lut b nmtx nmrx g \<longleftrightarrow>
     ring_shared X (bi_domid b) (bi_tx_va b) (bi_tx_ring b) nmtx g
   \<and> ring_shared X (bi_domid b) (bi_rx_va b) (bi_rx_ring b) nmrx g
   \<and> card (dom g) = card (dom (bi_grants b)) + ring_room X lut (bi_tx_va b) (bi_tx_ring b)
       + ring_room X lut (bi_rx_va b) (bi_rx_ring b)
   \<and> (\<exists>h. xenvif_revoke_ring nmtx g = Some (released nmtx, h)
        \<and> xenvif_revoke_ring nmrx h = Some (released nmrx, bi_grants b))"

lemma share_both:
  assumes X: "xen_ok X" and ready: "back_ready X lut b"
  obtains nmtx tx g1 nmrx rx g2 where
    "xenvif_grant_ring X lut (bi_tx_va b) (bi_tx_ring b) (unat (bi_num_tx_desc b)) (bi_domid b) (bi_grants b)
       = Some (nmtx, tx, g1)"
    "xenvif_grant_ring X lut (bi_rx_va b) (bi_rx_ring b) (unat (bi_num_rx_desc b)) (bi_domid b) g1
       = Some (nmrx, rx, g2)"
    "both_shared X lut b nmtx nmrx g2"
    "bufs_shared X lut (bi_domid b) (bi_tx_ring b) tx g2" "bufs_shared X lut (bi_domid b) (bi_rx_ring b) rx g2"
proof -
  let ?Rt = "buffer_pages X lut (r_slots (bi_tx_ring b))" and ?Rr = "buffer_pages X lut (r_slots (bi_rx_ring b))"
  let ?t = "bi_tx_ring b" and ?r = "bi_rx_ring b"
  let ?Pt = "ring_pages X (bi_tx_va b) (length (r_slots ?t))" and ?Pr = "ring_pages X (bi_rx_va b) (length (r_slots ?r))"
  have sh: "shareable X lut (bi_tx_va b) ?t" "shareable X lut (bi_rx_va b) ?r"
    and d: "unat (bi_num_tx_desc b) = length (r_slots ?t)" "unat (bi_num_rx_desc b) = length (r_slots ?r)"
    and room: "card (dom (bi_grants b)) + ring_room X lut (bi_tx_va b) ?t + ring_room X lut (bi_rx_va b) ?r
      \<le> gnttab_max X"
    using ready by (simp_all add: back_ready_def)
  have room1: "card (dom (bi_grants b)) + ring_room X lut (bi_tx_va b) ?t \<le> gnttab_max X" using room by simp
  obtain nmtx ss rs rs' g1 where t:
    "xenvif_grant_ring X lut (bi_tx_va b) ?t (length (r_slots ?t)) (bi_domid b) (bi_grants b)
       = Some (nmtx, ?t\<lparr>r_slots := ss\<rparr>, g1)"
    "take (length ?Pt + 1) (ring_ref nmtx) = rs'" "unat (nr_ring_pgs nmtx) = length ?Pt"
    "length ?Pt < length (ring_ref nmtx)"
    "\<forall>i < length ?Pt. g1 (rs' ! i) = Some (bi_domid b, page_mfn X (?Pt ! i))"
    "card (dom g1) = card (dom (bi_grants b)) + ring_room X lut (bi_tx_va b) ?t"
    "forget rs (forget rs' g1) = bi_grants b" and tb: "length rs = length ?Rt"
    "\<forall>i < length ?Rt. g1 (rs ! i) = Some (bi_domid b, page_mfn X (?Rt ! i))"
    "filter (\<lambda>p. p \<noteq> 0) (map s_ptr ss) = map ucast rs" "length ss = length (r_slots ?t)"
    and trev:
    "\<forall>h. xenvif_revoke_ring nmtx h = Some (released nmtx, forget rs (forget rs' h))"
    by (rule shared_ring [OF X sh(1) room1])
  have room2: "card (dom g1) + ring_room X lut (bi_rx_va b) ?r \<le> gnttab_max X" using room t(6) by simp
  obtain nmrx ss2 qs qs' g2 where r:
    "xenvif_grant_ring X lut (bi_rx_va b) ?r (length (r_slots ?r)) (bi_domid b) g1
       = Some (nmrx, ?r\<lparr>r_slots := ss2\<rparr>, g2)"
    "take (length ?Pr + 1) (ring_ref nmrx) = qs'" "unat (nr_ring_pgs nmrx) = length ?Pr"
    "length ?Pr < length (ring_ref nmrx)"
    "\<forall>i < length ?Pr. g2 (qs' ! i) = Some (bi_domid b, page_mfn X (?Pr ! i))"
    "set qs \<inter> dom g1 = {}" "set qs' \<inter> dom g1 = {}" "\<forall>r. r \<notin> set qs \<union> set qs' \<longrightarrow> g2 r = g1 r"
    "card (dom g2) = card (dom g1) + ring_room X lut (bi_rx_va b) ?r"
    "forget qs (forget qs' g2) = g1" and rb: "length qs = length ?Rr"
    "\<forall>i < length ?Rr. g2 (qs ! i) = Some (bi_domid b, page_mfn X (?Rr ! i))"
    "filter (\<lambda>p. p \<noteq> 0) (map s_ptr ss2) = map ucast qs" "length ss2 = length (r_slots ?r)"
    and rrev:
    "\<forall>h. xenvif_revoke_ring nmrx h = Some (released nmrx, forget qs (forget qs' h))"
    by (rule shared_ring [OF X sh(2) room2])
  have keep: "g2 x = g1 x" if "x \<in> dom g1" for x using r(6-8) that by blast
  have "g2 (ring_ref nmtx ! i) = Some (bi_domid b, page_mfn X (?Pt ! i))" if "i < length ?Pt" for i
  proof -
    have "g1 (ring_ref nmtx ! i) = Some (bi_domid b, page_mfn X (?Pt ! i))"
      using t(2,5) that by (metis nth_take trans_less_add1)
    then show ?thesis using keep by (metis domI)
  qed
  then have st: "ring_shared X (bi_domid b) (bi_tx_va b) ?t nmtx g2"
    using t(3,4) by (simp add: ring_shared_def)
  have "g2 (ring_ref nmrx ! i) = Some (bi_domid b, page_mfn X (?Pr ! i))" if "i < length ?Pr" for i
    using r(2,5) that by (metis nth_take trans_less_add1)
  then have sr: "ring_shared X (bi_domid b) (bi_rx_va b) ?r nmrx g2"
    using r(3,4) by (simp add: ring_shared_def)
  have "forget qs (forget qs' (forget rs (forget rs' g2))) = forget rs (forget rs' (forget qs (forget qs' g2)))"
    by (metis forget_comm)
  then have "forget qs (forget qs' (forget rs (forget rs' g2))) = bi_grants b" using t(7) r(10) by simp
  then have "both_shared X lut b nmtx nmrx g2"
    using st sr t(6) trev r(9) rrev by (simp add: both_shared_def)
  then show thesis
  proof (rule that [rotated 2])
    show "xenvif_grant_ring X lut (bi_tx_va b) ?t (unat (bi_num_tx_desc b)) (bi_domid b) (bi_grants b)
       = Some (nmtx, ?t\<lparr>r_slots := ss\<rparr>, g1)" using t(1) by (simp only: d)
    show "xenvif_grant_ring X lut (bi_rx_va b) ?r (unat (bi_num_rx_desc b)) (bi_domid b) g1
       = Some (nmrx, ?r\<lparr>r_slots := ss2\<rparr>, g2)" using r(1) by (simp only: d)
    have "\<forall>i < length ?Rt. g2 (rs ! i) = Some (bi_domid b, page_mfn X (?Rt ! i))"
    proof (intro allI impI)
      fix i assume "i < length ?Rt"
      then have "g1 (rs ! i) = Some (bi_domid b, page_mfn X (?Rt ! i))" using tb(2) by blast
      then show "g2 (rs ! i) = Some (bi_domid b, page_mfn X (?Rt ! i))" using keep [of "rs ! i"] by (simp add: domI)
    qed
    then show "bufs_shared X lut (bi_domid b) ?t (?t\<lparr>r_slots := ss\<rparr>) g2"
      by (rule bufs_sharedI [OF tb(4,3,1)])
    show "bufs_shared X lut (bi_domid b) ?r (?r\<lparr>r_slots := ss2\<rparr>) g2"
      by (rule bufs_sharedI [OF rb(4,3,1,2)])
  qed
qed

text \<open>The store after the two counts, and the port after both rings are shared.\<close>

definition desc_store :: "xs_api \<Rightarrow> back_if \<Rightarrow> store" where
  "desc_store T b =
     snd (xenbus_printf (xs_printf T)
       (snd (xenbus_printf (xs_printf T) (bi_store b) (bi_nodename b) ''feature-netmap-tx-desc''
          (fmt_u (bi_num_tx_desc b))))
       (bi_nodename b) ''feature-netmap-rx-desc'' (fmt_u (bi_num_rx_desc b)))"

lemma map_eq:
  assumes "xen_ok X" "back_ready X lut b"
  obtains nmtx tx nmrx rx g b1 where "both_shared X lut b nmtx nmrx g"
    "bufs_shared X lut (bi_domid b) (bi_tx_ring b) tx g" "bufs_shared X lut (bi_domid b) (bi_rx_ring b) rx g"
    "b1 = b\<lparr>bi_nmtx := nmtx, bi_nmrx := nmrx, bi_tx_ring := tx, bi_rx_ring := rx, bi_grants := g\<rparr>"
    "\<forall>T. xenvif_netmap_map X lut T b =
       (if fst (xs_start T) \<noteq> 0
        then Some (transaction_commit T (xs_xbt T) (bi_store b)
               (note_log (Dev_fatal (fst (xs_start T)) ''starting transaction'') b1))
        else map_option (\<lambda>(_, st). transaction_commit T (snd (xs_start T)) st b1)
               (xenbus_write_grefs (xs_printf T) (bi_otherend b) nmtx nmrx (desc_store T b)))"
proof -
  obtain nmtx tx g1 nmrx rx g2 where s:
    "xenvif_grant_ring X lut (bi_tx_va b) (bi_tx_ring b) (unat (bi_num_tx_desc b)) (bi_domid b) (bi_grants b)
       = Some (nmtx, tx, g1)"
    "xenvif_grant_ring X lut (bi_rx_va b) (bi_rx_ring b) (unat (bi_num_rx_desc b)) (bi_domid b) g1
       = Some (nmrx, rx, g2)"
    "both_shared X lut b nmtx nmrx g2"
    "bufs_shared X lut (bi_domid b) (bi_tx_ring b) tx g2" "bufs_shared X lut (bi_domid b) (bi_rx_ring b) rx g2"
    by (rule share_both [OF assms])
  have z: "nr_ring_pgs (bi_nmtx b) = 0" using assms(2) by (simp add: back_ready_def)
  have "xenvif_netmap_map X lut T b =
       (if fst (xs_start T) \<noteq> 0
        then Some (transaction_commit T (xs_xbt T) (bi_store b)
               (note_log (Dev_fatal (fst (xs_start T)) ''starting transaction'')
                 (b\<lparr>bi_nmtx := nmtx, bi_nmrx := nmrx, bi_tx_ring := tx, bi_rx_ring := rx, bi_grants := g2\<rparr>)))
        else map_option (\<lambda>(_, st). transaction_commit T (snd (xs_start T)) st
                 (b\<lparr>bi_nmtx := nmtx, bi_nmrx := nmrx, bi_tx_ring := tx, bi_rx_ring := rx, bi_grants := g2\<rparr>))
               (xenbus_write_grefs (xs_printf T) (bi_otherend b) nmtx nmrx (desc_store T b)))" for T
    using s(1,2) z
    by (cases "xenbus_write_grefs (xs_printf T) (bi_otherend b) nmtx nmrx (desc_store T b)")
       (simp_all add: xenvif_netmap_map_def desc_store_def split_def Let_def)
  then show thesis using that [OF s(3-5) refl] by simp
qed

lemma commit_fields [simp]:
  "bi_nmtx (transaction_commit T xbt st b) = bi_nmtx b" "bi_nmrx (transaction_commit T xbt st b) = bi_nmrx b"
  "bi_grants (transaction_commit T xbt st b) = bi_grants b" "bi_flags (transaction_commit T xbt st b) = bi_flags b"
  "bi_store (transaction_commit T xbt st b) = (if xs_end T xbt False = 0 then st else bi_store b)"
  "bi_log (transaction_commit T xbt st b) = bi_log b @ [Transaction_end xbt False]"
  by (simp_all add: transaction_commit_def note_log_def)

lemma note_log_fields [simp]:
  "bi_nmtx (note_log e b) = bi_nmtx b" "bi_nmrx (note_log e b) = bi_nmrx b"
  "bi_grants (note_log e b) = bi_grants b" "bi_flags (note_log e b) = bi_flags b"
  "bi_store (note_log e b) = bi_store b" "bi_log (note_log e b) = bi_log b @ [e]"
  by (simp_all add: note_log_def)

text \<open>Registering for the first time shares both rings, whatever the store answers.\<close>

lemma map_shares:
  assumes "xen_ok X" "back_ready X lut b"
  obtains b' where "xenvif_netmap_map X lut T b = Some b'" "bi_flags b' = bi_flags b"
    "both_shared X lut b (bi_nmtx b') (bi_nmrx b') (bi_grants b')" "nr_ring_pgs (bi_nmtx b') \<noteq> 0"
proof -
  obtain nmtx tx nmrx rx g b1 where s: "both_shared X lut b nmtx nmrx g"
    "b1 = b\<lparr>bi_nmtx := nmtx, bi_nmrx := nmrx, bi_tx_ring := tx, bi_rx_ring := rx, bi_grants := g\<rparr>"
    "\<forall>T. xenvif_netmap_map X lut T b =
       (if fst (xs_start T) \<noteq> 0
        then Some (transaction_commit T (xs_xbt T) (bi_store b)
               (note_log (Dev_fatal (fst (xs_start T)) ''starting transaction'') b1))
        else map_option (\<lambda>(_, st). transaction_commit T (snd (xs_start T)) st b1)
               (xenbus_write_grefs (xs_printf T) (bi_otherend b) nmtx nmrx (desc_store T b)))"
    using map_eq [OF assms] by metis
  have l: "unat (nr_ring_pgs nmtx) < length (ring_ref nmtx)" "unat (nr_ring_pgs nmrx) < length (ring_ref nmrx)"
    using s(1) by (simp_all add: both_shared_def ring_shared_def Let_def)
  have "ring_pages X (bi_tx_va b) (length (r_slots (bi_tx_ring b))) \<noteq> []"
    using assms(2) by (simp add: back_ready_def shareable_def Let_def)
  then have nz: "nr_ring_pgs nmtx \<noteq> 0"
    using s(1) by (auto simp: both_shared_def ring_shared_def Let_def)
  obtain e st where w: "xenbus_write_grefs (xs_printf T) (bi_otherend b) nmtx nmrx (desc_store T b) = Some (e, st)"
    using write_grefs_total [OF l] by blast
  show thesis
  proof (cases "fst (xs_start T) = 0")
    case True
    then show thesis using that s(1) nz by (simp add: s(3) w) (simp add: s(2))
  next
    case False
    then show thesis using that s(1) nz by (simp add: s(3)) (simp add: s(2))
  qed
qed

lemma reg_mapped:
  assumes "nr_ring_pgs (bi_nmtx b) \<noteq> 0"
  shows "\<exists>r b'. xenvif_netmap_reg X lut T IFF_UP True b onoff = Some (r, b') \<and> bi_nmtx b' = bi_nmtx b
     \<and> bi_nmrx b' = bi_nmrx b \<and> bi_grants b' = bi_grants b"
  using assms
  by (cases "c_not (bi_flags b) AND IFF_UP = 0"; cases "onoff = 0")
     (simp_all add: xenvif_netmap_reg_def xenvif_netmap_map_def Let_def)

lemma reg_keeps:
  "nr_ring_pgs (bi_nmtx b) \<noteq> 0 \<Longrightarrow>
     \<exists>b'. reg_all X lut T IFF_UP os b = Some b' \<and> bi_nmtx b' = bi_nmtx b \<and> bi_nmrx b' = bi_nmrx b
        \<and> bi_grants b' = bi_grants b"
proof (induction os arbitrary: b)
  case (Cons onoff os)
  obtain r b1 where "xenvif_netmap_reg X lut T IFF_UP True b onoff = Some (r, b1)"
    "bi_nmtx b1 = bi_nmtx b" "bi_nmrx b1 = bi_nmrx b" "bi_grants b1 = bi_grants b"
    using reg_mapped [OF Cons.prems] by blast
  then show ?case using Cons.IH [of b1] Cons.prems by simp
qed simp

text \<open>C12: Switching a port on shares both rings with the front end once: however often it is
  then switched off and on, the grants stay the same, and a detach gives back the grant table
  as it was before.\<close>
theorem reg_detach_restores:
  assumes "xen_ok X" "back_ready X lut b" "c_not (bi_flags b) AND IFF_UP = 0"
  shows "\<exists>b' b''. reg_all X lut T IFF_UP (1 # os) b = Some b'
     \<and> ring_shared X (bi_domid b) (bi_tx_va b) (bi_tx_ring b) (bi_nmtx b') (bi_grants b')
     \<and> ring_shared X (bi_domid b) (bi_rx_va b) (bi_rx_ring b) (bi_nmrx b') (bi_grants b')
     \<and> card (dom (bi_grants b')) = card (dom (bi_grants b)) + ring_room X lut (bi_tx_va b) (bi_tx_ring b)
         + ring_room X lut (bi_rx_va b) (bi_rx_ring b)
     \<and> xenvif_netmap_detach b' = Some b''
     \<and> bi_grants b'' = bi_grants b \<and> nr_ring_pgs (bi_nmtx b'') = 0"
proof -
  obtain b1 where b1: "xenvif_netmap_map X lut T b = Some b1"
    "both_shared X lut b (bi_nmtx b1) (bi_nmrx b1) (bi_grants b1)" "nr_ring_pgs (bi_nmtx b1) \<noteq> 0"
    by (rule map_shares [OF assms(1,2)])
  obtain b2 where b2: "xenvif_netmap_reg X lut T IFF_UP True b 1 = Some (0, b2)"
    "bi_nmtx b2 = bi_nmtx b1" "bi_nmrx b2 = bi_nmrx b1" "bi_grants b2 = bi_grants b1"
    using b1(1) assms(3) by (simp add: xenvif_netmap_reg_def)
  have "nr_ring_pgs (bi_nmtx b2) \<noteq> 0" using b1(3) b2(2) by simp
  then obtain b' where b': "reg_all X lut T IFF_UP os b2 = Some b'" "bi_nmtx b' = bi_nmtx b2"
    "bi_nmrx b' = bi_nmrx b2" "bi_grants b' = bi_grants b2"
    using reg_keeps by metis
  have r: "reg_all X lut T IFF_UP (1 # os) b = Some b'" using b2(1) b'(1) by simp
  have e: "bi_nmtx b' = bi_nmtx b1" "bi_nmrx b' = bi_nmrx b1" "bi_grants b' = bi_grants b1"
    using b' b2 by simp_all
  obtain h where h: "xenvif_revoke_ring (bi_nmtx b1) (bi_grants b1) = Some (released (bi_nmtx b1), h)"
    "xenvif_revoke_ring (bi_nmrx b1) h = Some (released (bi_nmrx b1), bi_grants b)"
    using b1(2) by (auto simp: both_shared_def)
  then have "\<exists>b''. xenvif_netmap_detach b' = Some b'' \<and> bi_grants b'' = bi_grants b \<and> nr_ring_pgs (bi_nmtx b'') = 0"
    using b1(3) by (simp add: xenvif_netmap_detach_def xenvif_netmap_unmap_def e released_def)
  then show ?thesis using r b1(2) e by (auto simp: both_shared_def)
qed

text \<open>Writing references touches no other node, and stops at the first write that fails.\<close>

lemma write_refs_loop_frame:
  "write_refs_loop E dir pre refs nr i st = Some (err, st') \<Longrightarrow>
     d \<noteq> dir \<or> node \<notin> range (gref_name pre) \<Longrightarrow> st' (d, node) = st (d, node)"
proof (induction "Suc nr - i" arbitrary: i st)
  case 0
  then show ?case by (simp add: write_refs_loop.simps)
next
  case (Suc n)
  then have i: "i \<le> nr" "n = Suc nr - (i + 1)" by simp_all
  obtain r where r: "arr_get refs i = Some r"
    using Suc.prems(1) i(1) by (auto simp: write_refs_loop.simps [of E dir pre refs nr i] split: option.splits)
  let ?st = "st((dir, gref_name pre i) \<mapsto> fmt_u r)"
  have "?st (d, node) = st (d, node)" using Suc.prems(2) by auto
  then show ?case
    using Suc.prems(1) i(1) r Suc.hyps(1) [OF i(2) _ Suc.prems(2), of ?st]
    by (auto simp: write_refs_loop.simps [of E dir pre refs nr i] xenbus_printf_def split: if_splits)
qed

lemma write_refs_loop_fails:
  "write_refs_loop E dir pre refs nr i st = Some (err, st') \<Longrightarrow> i \<le> k \<Longrightarrow> k \<le> nr \<Longrightarrow>
     E (dir, gref_name pre k) \<noteq> 0 \<Longrightarrow> err \<noteq> 0"
proof (induction "Suc nr - i" arbitrary: i st)
  case 0
  then show ?case by simp
next
  case (Suc n)
  then have i: "i \<le> nr" "n = Suc nr - (i + 1)" by simp_all
  obtain r where r: "arr_get refs i = Some r"
    using Suc.prems(1) i(1) by (auto simp: write_refs_loop.simps [of E dir pre refs nr i] split: option.splits)
  show ?case
  proof (cases "E (dir, gref_name pre i) = 0")
    case True
    then have "i + 1 \<le> k" using Suc.prems(2,4) by (cases "i = k") simp_all
    then show ?thesis
      using Suc.prems True i(1) r Suc.hyps(1) [OF i(2), of "st((dir, gref_name pre i) \<mapsto> fmt_u r)"]
      by (simp add: write_refs_loop.simps [of E dir pre refs nr i] xenbus_printf_def)
  next
    case False
    then show ?thesis using Suc.prems(1) i(1) r
      by (auto simp: write_refs_loop.simps [of E dir pre refs nr i] xenbus_printf_def)
  qed
qed

text \<open>The names of the references differ from those of the counts at their first digit.\<close>

lemma gref_name_nth:
  assumes "length pre = 11"
  shows "11 < length (gref_name pre k)" "take 11 (gref_name pre k) = pre" "is_digit (gref_name pre k ! 11)"
proof -
  obtain c cs where d: "dec_nat k = c # cs" using dec_nat_not_Nil [of k] by (cases "dec_nat k") auto
  have g: "gref_name pre k = pre @ c # take 1 cs" using assms by (simp add: gref_name_def snprintf_def d)
  have "is_digit c" using dec_nat_digits [of k] by (simp add: d)
  then show "11 < length (gref_name pre k)" "take 11 (gref_name pre k) = pre" "is_digit (gref_name pre k ! 11)"
    using assms by (simp_all add: g nth_append)
qed

lemma count_node_apart:
  "''tx-ring-refs'' \<notin> range (gref_name ''tx-ring-ref'')" "''rx-ring-refs'' \<notin> range (gref_name ''rx-ring-ref'')"
  "''tx-ring-refs'' \<notin> range (gref_name ''rx-ring-ref'')" "''rx-ring-refs'' \<notin> range (gref_name ''tx-ring-ref'')"
  "''feature-netmap-tx-desc'' \<notin> range (gref_name ''tx-ring-ref'')"
  "''feature-netmap-tx-desc'' \<notin> range (gref_name ''rx-ring-ref'')"
proof -
  have out: "node \<notin> range (gref_name pre)" if "length pre = 11" "take 11 node \<noteq> pre \<or> \<not> is_digit (node ! 11)" for pre node
    using gref_name_nth(2,3) [OF that(1)] that(2) by (metis rangeE)
  show "''tx-ring-refs'' \<notin> range (gref_name ''tx-ring-ref'')" "''rx-ring-refs'' \<notin> range (gref_name ''rx-ring-ref'')"
    "''tx-ring-refs'' \<notin> range (gref_name ''rx-ring-ref'')" "''rx-ring-refs'' \<notin> range (gref_name ''tx-ring-ref'')"
    "''feature-netmap-tx-desc'' \<notin> range (gref_name ''tx-ring-ref'')"
    "''feature-netmap-tx-desc'' \<notin> range (gref_name ''rx-ring-ref'')"
    by (rule out; simp add: is_digit_def)+
qed

text \<open>The direction of a ring as it is spelled in the names of its nodes.\<close>

definition ref_node :: "txrx \<Rightarrow> string" where
  "ref_node d = (case d of NR_TX \<Rightarrow> ''tx-ring-ref'' | NR_RX \<Rightarrow> ''rx-ring-ref'')"

definition count_node :: "txrx \<Rightarrow> string" where
  "count_node d = (case d of NR_TX \<Rightarrow> ''tx-ring-refs'' | NR_RX \<Rightarrow> ''rx-ring-refs'')"

definition dir_gnt :: "txrx \<Rightarrow> nm_grant_ring \<Rightarrow> nm_grant_ring \<Rightarrow> nm_grant_ring" where
  "dir_gnt d nmtx nmrx = (case d of NR_TX \<Rightarrow> nmtx | NR_RX \<Rightarrow> nmrx)"

lemma write_grefs_fails:
  assumes "xenbus_write_grefs E dir nmtx nmrx st = Some (err, st')"
    and "k \<le> unat (nr_ring_pgs (dir_gnt d nmtx nmrx))" "E (dir, gref_name (ref_node d) k) \<noteq> 0"
  shows "err \<noteq> 0" "st' (dir, count_node d) = st (dir, count_node d)"
    "d = NR_TX \<Longrightarrow> st' (dir, ''rx-ring-refs'') = st (dir, ''rx-ring-refs'')"
    "st' (x, ''feature-netmap-tx-desc'') = st (x, ''feature-netmap-tx-desc'')"
proof -
  obtain e1 s1 where t: "write_refs_loop E dir ''tx-ring-ref'' (ring_ref nmtx) (unat (nr_ring_pgs nmtx)) 0 st = Some (e1, s1)"
    using assms(1) by (auto simp: xenbus_write_grefs_def bind_eq_Some_conv)
  note f1 = write_refs_loop_frame [OF t]
  have c1: "s1 (dir, ''tx-ring-refs'') = st (dir, ''tx-ring-refs'')" "s1 (dir, ''rx-ring-refs'') = st (dir, ''rx-ring-refs'')"
    "s1 (x, ''feature-netmap-tx-desc'') = st (x, ''feature-netmap-tx-desc'')"
    using f1 count_node_apart by blast+
  note nm = nr_name_eq
  let ?p = "xenbus_printf E s1 dir ''tx-ring-refs'' (fmt_u (ucast (nr_ring_pgs nmtx) + 1))"
  have "(err \<noteq> 0) \<and> st' (dir, count_node d) = st (dir, count_node d)
     \<and> (d = NR_TX \<longrightarrow> st' (dir, ''rx-ring-refs'') = st (dir, ''rx-ring-refs''))
     \<and> st' (x, ''feature-netmap-tx-desc'') = st (x, ''feature-netmap-tx-desc'')"
  proof (cases "e1 = 0")
    case False
    then show ?thesis using assms(1) t c1
      by (cases d) (auto simp: xenbus_write_grefs_def count_node_def)
  next
    case True
    have d: "d = NR_RX"
      using write_refs_loop_fails [OF t, of k] assms(2,3) True by (cases d) (auto simp: dir_gnt_def ref_node_def)
    obtain e2 s2 where r: "write_refs_loop E dir ''rx-ring-ref'' (ring_ref nmrx) (unat (nr_ring_pgs nmrx)) 0 (snd ?p) = Some (e2, s2)"
      using assms(1) t True by (auto simp: xenbus_write_grefs_def bind_eq_Some_conv split_def nm)
    have e2: "e2 \<noteq> 0"
      using write_refs_loop_fails [OF r, of k] assms(2,3) d by (simp add: dir_gnt_def ref_node_def)
    note f2 = write_refs_loop_frame [OF r]
    have "s2 (dir, ''rx-ring-refs'') = snd ?p (dir, ''rx-ring-refs'')"
      "s2 (x, ''feature-netmap-tx-desc'') = snd ?p (x, ''feature-netmap-tx-desc'')"
      using f2 count_node_apart by blast+
    then have c2: "s2 (dir, ''rx-ring-refs'') = st (dir, ''rx-ring-refs'')"
      "s2 (x, ''feature-netmap-tx-desc'') = st (x, ''feature-netmap-tx-desc'')"
      using c1 by (simp_all add: xenbus_printf_def)
    have "err = e2 \<and> st' = s2"
      using assms(1) t True r e2 by (auto simp: xenbus_write_grefs_def split_def nm)
    then show ?thesis using e2 c2 d by (simp add: count_node_def)
  qed
  then show "err \<noteq> 0" "st' (dir, count_node d) = st (dir, count_node d)"
    "d = NR_TX \<Longrightarrow> st' (dir, ''rx-ring-refs'') = st (dir, ''rx-ring-refs'')"
    "st' (x, ''feature-netmap-tx-desc'') = st (x, ''feature-netmap-tx-desc'')" by blast+
qed

text \<open>C39: A failing write of any reference of either ring is not noticed by anybody: the
  registration succeeds, the port is switched on with both rings shared, and the transaction is
  ended by keeping what was written before the failure, without the number of references of
  that ring (and, if it is the transmit ring, without that of the receive ring).\<close>
theorem failed_write_committed:
  assumes "xen_ok X" "back_ready X lut b" "c_not (bi_flags b) AND IFF_UP = 0"
    and "xs_start T = (0, xbt)" "xs_end T xbt False = 0"
    and "xs_printf T (bi_nodename b, ''feature-netmap-tx-desc'') = 0"
    and "n = (case d of NR_TX \<Rightarrow> length (ring_pages X (bi_tx_va b) (length (r_slots (bi_tx_ring b))))
                      | NR_RX \<Rightarrow> length (ring_pages X (bi_rx_va b) (length (r_slots (bi_rx_ring b)))))"
    and "k \<le> n" "xs_printf T (bi_otherend b, gref_name (ref_node d) k) \<noteq> 0"
  shows "\<exists>b'. xenvif_netmap_reg X lut T IFF_UP True b 1 = Some (0, b')
     \<and> bi_vwna b' = Some \<lparr>vw_guest_need_rxkick = 1, vw_guest_need_txkick = 0\<rparr>
     \<and> both_shared X lut b (bi_nmtx b') (bi_nmrx b') (bi_grants b')
     \<and> bi_log b' = bi_log b @ [Transaction_end xbt False, Native_flags True, Malloc_vwna]
     \<and> bi_store b' (bi_nodename b, ''feature-netmap-tx-desc'') = Some (fmt_u (bi_num_tx_desc b))
     \<and> bi_store b' (bi_otherend b, count_node d) = bi_store b (bi_otherend b, count_node d)
     \<and> (d = NR_TX \<longrightarrow> bi_store b' (bi_otherend b, ''rx-ring-refs'') = bi_store b (bi_otherend b, ''rx-ring-refs''))"
proof -
  obtain nmtx tx nmrx rx g b1 where s: "both_shared X lut b nmtx nmrx g"
    "b1 = b\<lparr>bi_nmtx := nmtx, bi_nmrx := nmrx, bi_tx_ring := tx, bi_rx_ring := rx, bi_grants := g\<rparr>"
    "\<forall>T. xenvif_netmap_map X lut T b =
       (if fst (xs_start T) \<noteq> 0
        then Some (transaction_commit T (xs_xbt T) (bi_store b)
               (note_log (Dev_fatal (fst (xs_start T)) ''starting transaction'') b1))
        else map_option (\<lambda>(_, st). transaction_commit T (snd (xs_start T)) st b1)
               (xenbus_write_grefs (xs_printf T) (bi_otherend b) nmtx nmrx (desc_store T b)))"
    using map_eq [OF assms(1,2)] by metis
  have pgs: "unat (nr_ring_pgs nmtx) = length (ring_pages X (bi_tx_va b) (length (r_slots (bi_tx_ring b))))"
    "unat (nr_ring_pgs nmrx) = length (ring_pages X (bi_rx_va b) (length (r_slots (bi_rx_ring b))))"
    "unat (nr_ring_pgs nmtx) < length (ring_ref nmtx)" "unat (nr_ring_pgs nmrx) < length (ring_ref nmrx)"
    using s(1) by (auto simp: both_shared_def ring_shared_def Let_def)
  obtain err st where w: "xenbus_write_grefs (xs_printf T) (bi_otherend b) nmtx nmrx (desc_store T b) = Some (err, st)"
    using write_grefs_total [OF pgs(3,4)] by blast
  have k: "k \<le> unat (nr_ring_pgs (dir_gnt d nmtx nmrx))"
    using assms(7,8) pgs(1,2) by (cases d) (simp_all add: dir_gnt_def)
  note kept = write_grefs_fails(2-4) [OF w k assms(9)]
  have m: "xenvif_netmap_map X lut T b = Some (transaction_commit T xbt st b1)"
    by (simp add: s(3) assms(4) w)
  have d: "st (bi_nodename b, ''feature-netmap-tx-desc'') = Some (fmt_u (bi_num_tx_desc b))"
    "st (bi_otherend b, count_node d) = bi_store b (bi_otherend b, count_node d)"
    "d = NR_TX \<longrightarrow> st (bi_otherend b, ''rx-ring-refs'') = bi_store b (bi_otherend b, ''rx-ring-refs'')"
    using assms(6) kept by (cases d; simp add: desc_store_def xenbus_printf_def count_node_def)+
  show ?thesis
    by (rule exI [of _ "(note_log Malloc_vwna (note_log (Native_flags True)
          (transaction_commit T xbt st b1)))
        \<lparr>bi_vwna := Some \<lparr>vw_guest_need_rxkick = 1, vw_guest_need_txkick = 0\<rparr>\<rparr>"])
       (use s(1) d assms(3,5) m in \<open>simp add: xenvif_netmap_reg_def Let_def s(2)\<close>)
qed

section \<open>A concrete instance\<close>

definition sample_back :: back_if where
  "sample_back = \<lparr>bi_flags = 1, bi_domid = 1, bi_nodename = ''b'', bi_otherend = ''f'',
     bi_num_tx_desc = 3, bi_num_rx_desc = 3, bi_tx_va = 40960, bi_rx_va = 45056,
     bi_tx_ring = sample_ring, bi_rx_ring = sample_ring, bi_nmtx = sample_gnt 0 [], bi_nmrx = sample_gnt 0 [],
     bi_vwna = None, bi_grants = Map.empty, bi_store = Map.empty, bi_log = []\<rparr>"

definition sample_xs :: "string \<Rightarrow> xs_api" where
  "sample_xs bad = \<lparr>xs_start = (0, 7), xs_printf = (\<lambda>(dir, node). if node = bad then 5 else 0),
     xs_end = (\<lambda>_ _. 0), xs_xbt = 0\<rparr>"

lemma sample_rx_pages: "ring_pages sample_xen 45056 3 = [11]"
  by (simp add: ring_pages_def sample_xen_def)

lemma sample_rx_shareable: "shareable sample_xen sample_lut 45056 sample_ring"
proof -
  have "length (r_slots sample_ring) = 3" by (simp add: sample_ring_def)
  then show ?thesis
    using sample_shareable by (simp add: shareable_def Let_def sample_pages sample_rx_pages)
qed

lemma sample_back_fields [simp]:
  "bi_flags sample_back = 1" "bi_domid sample_back = 1" "bi_nodename sample_back = ''b''"
  "bi_otherend sample_back = ''f''" "bi_num_tx_desc sample_back = 3" "bi_num_rx_desc sample_back = 3"
  "bi_tx_va sample_back = 40960" "bi_rx_va sample_back = 45056" "bi_tx_ring sample_back = sample_ring"
  "bi_rx_ring sample_back = sample_ring" "bi_nmtx sample_back = sample_gnt 0 []"
  "bi_grants sample_back = Map.empty" "bi_store sample_back = Map.empty" "bi_log sample_back = []"
  by (simp_all add: sample_back_def)

lemma sample_room_both:
  "ring_room sample_xen sample_lut 40960 sample_ring = 4" "ring_room sample_xen sample_lut 45056 sample_ring = 4"
proof -
  have "length (r_slots sample_ring) = 3" by (simp add: sample_ring_def)
  then show "ring_room sample_xen sample_lut 40960 sample_ring = 4" "ring_room sample_xen sample_lut 45056 sample_ring = 4"
    by (simp_all add: ring_room_def sample_pages sample_rx_pages)
qed

lemma sample_back_ready: "back_ready sample_xen sample_lut sample_back"
proof -
  have "length (r_slots sample_ring) = 3" by (simp add: sample_ring_def)
  moreover have "gnttab_max sample_xen = 900" by (simp add: sample_xen_def)
  ultimately show ?thesis
    using sample_shareable sample_rx_shareable
    by (simp add: back_ready_def sample_room_both) (simp add: sample_gnt_def)
qed

theorem reg_detach_restores_witness:
  "\<exists>b' b''. reg_all sample_xen sample_lut (sample_xs ''x'') 1 [1, 0, 1] sample_back = Some b'
     \<and> card (dom (bi_grants b')) = 8 \<and> xenvif_netmap_detach b' = Some b'' \<and> bi_grants b'' = Map.empty"
proof -
  have "c_not (bi_flags sample_back) AND 1 = 0" by (simp add: c_not_def)
  moreover have "card (dom (bi_grants sample_back)) + ring_room sample_xen sample_lut (bi_tx_va sample_back) (bi_tx_ring sample_back)
      + ring_room sample_xen sample_lut (bi_rx_va sample_back) (bi_rx_ring sample_back) = 8"
    by (simp add: sample_room_both)
  ultimately show ?thesis
    using reg_detach_restores [OF sample_xen_ok sample_back_ready, of 1 "sample_xs ''x''" "[0, 1]"] by simp blast
qed

theorem failed_write_committed_witness:
  "\<exists>b'. xenvif_netmap_reg sample_xen sample_lut (sample_xs ''rx-ring-ref1'') 1 True sample_back 1 = Some (0, b')
     \<and> bi_log b' = [Transaction_end 7 False, Native_flags True, Malloc_vwna]
     \<and> bi_store b' (''f'', ''rx-ring-refs'') = None"
proof -
  let ?T = "sample_xs ''rx-ring-ref1''"
  have "length (r_slots sample_ring) = 3" by (simp add: sample_ring_def)
  then have n: "1 = (case NR_RX of NR_TX \<Rightarrow> length (ring_pages sample_xen (bi_tx_va sample_back) (length (r_slots (bi_tx_ring sample_back))))
       | NR_RX \<Rightarrow> length (ring_pages sample_xen (bi_rx_va sample_back) (length (r_slots (bi_rx_ring sample_back)))))"
    by (simp add: sample_rx_pages)
  have g: "gref_name (ref_node NR_RX) 1 = ''rx-ring-ref1''" by code_simp
  have c: "c_not (bi_flags sample_back) AND 1 = 0" "xs_start ?T = (0, 7)" "xs_end ?T 7 False = 0"
    "xs_printf ?T (bi_nodename sample_back, ''feature-netmap-tx-desc'') = 0"
    "xs_printf ?T (bi_otherend sample_back, gref_name (ref_node NR_RX) 1) \<noteq> 0"
    unfolding g by (simp_all add: c_not_def sample_xs_def)
  show ?thesis
    using failed_write_committed [OF sample_xen_ok sample_back_ready c(1-4) n order_refl c(5)]
    by (auto simp: count_node_def)
qed

end
