(* ===== verification/Ring_Exchange.thy ===== *)
theory Ring_Exchange
  imports Netfront_Grants Netback_Setup
begin

text \<open>
  The exchange of the rings from end to end: what the registration of the back end writes to
  the store (\<open>Netback_Setup\<close>), the front end reads and maps (\<open>Netfront_Grants\<close>). The back end
  grants and announces one page too many, the front end maps one reference too few, and
  together they map exactly the pages of the ring.
\<close>

text \<open>The front end sees the ring at consecutive pages.\<close>

definition ring_mapped :: "xen_api \<Rightarrow> map_api \<Rightarrow> back_if \<Rightarrow> nat \<Rightarrow> nring \<Rightarrow> netmap_gnt \<Rightarrow> bool" where
  "ring_mapped X M b va ring d \<longleftrightarrow>
     (let P = ring_pages X va (length (r_slots ring))
      in unat (g_nr_ring_grefs d) = length P + 1
       \<and> (\<exists>addr. \<forall>k < length P.
            bi_grants b (op_ref (g_ring_map d ! k)) = Some (bi_domid b, page_mfn X (P ! k))
          \<and> pe_host_addr (g_ring_gnt d ! k) = addr + M_PAGE_SIZE M * k))"

lemma map_ring_pages:
  assumes "map_ok M" "ring_shared X (bi_domid b) va ring gnt (bi_grants b)" "unat (nr_ring_pgs gnt) < 100"
    and "nr_ring_grefs r = ucast (nr_ring_pgs gnt) + 1"
    and "take (unat (nr_ring_pgs gnt) + 1) (ring_grefs r) = take (unat (nr_ring_pgs gnt) + 1) (ring_ref gnt)"
    and "ring_pages X va (length (r_slots ring)) \<noteq> []"
  shows "\<exists>d p. gnttab_map M (gnt_of r) domid 0 = Some (0, d) \<and> ring_mapped X M b va ring d
     \<and> g_ring_gnt d \<noteq> [] \<and> pe_host_addr (g_ring_gnt d ! 0) = m_alloc_pages M p"
proof -
  let ?P = "ring_pages X va (length (r_slots ring))" and ?nr = "nr_ring_pgs gnt"
  let ?n = "unat (g_nr_ring_grefs (gnt_of r))"
  have p: "unat ?nr = length ?P" "length ?P < length (ring_ref gnt)"
    "\<forall>i < length ?P. bi_grants b (ring_ref gnt ! i) = Some (bi_domid b, page_mfn X (?P ! i))"
    using assms(2) by (simp_all add: ring_shared_def Let_def)
  have "unat (ucast ?nr :: u32) = unat ?nr"
    using assms(3) by (simp add: unsigned_ucast_eq take_bit_nat_eq_self)
  then have n: "?n = length ?P + 1"
    using unat_plus_1 [of "ucast ?nr :: u32"] assms(3,4) p(1) by (simp add: gnt_of_def)
  have "length (take (unat ?nr + 1) (ring_grefs r)) = unat ?nr + 1"
    unfolding assms(5) using p(1,2) by simp
  then have l: "?n \<le> length (g_ring_grefs (gnt_of r))" using n p(1) by (simp add: gnt_of_def)
  obtain ops pte addr p where a: "addr = m_alloc_pages M p" "?n \<le> length pte" and m:
    "gnttab_map M (gnt_of r) domid 0 = Some (0, (gnt_of r)\<lparr>g_ring_map := ops, g_ring_gnt := pte\<rparr>)"
    "\<forall>k < ?n - 1. op_ref (ops ! k) = g_ring_grefs (gnt_of r) ! k \<and> pe_host_addr (pte ! k) = addr + M_PAGE_SIZE M * k"
  proof (rule gnttab_map_ring [OF assms(1) refl _ _ l, where domid = domid])
    show "1 \<le> ?n" "?n < 2 ^ 31" using n p(1) assms(3) by simp_all
  qed
  have "ring_grefs r ! k = ring_ref gnt ! k" if "k < length ?P" for k
    using assms(5) that p(1) by (metis nth_take trans_less_add1)
  then have "\<forall>k < length ?P. bi_grants b (op_ref (ops ! k)) = Some (bi_domid b, page_mfn X (?P ! k))
      \<and> pe_host_addr (pte ! k) = addr + M_PAGE_SIZE M * k"
    using m(2) p(3) n by (simp add: gnt_of_def)
  then have "ring_mapped X M b va ring ((gnt_of r)\<lparr>g_ring_map := ops, g_ring_gnt := pte\<rparr>)"
    using n by (auto simp: ring_mapped_def Let_def gnt_of_def)
  moreover have "pte \<noteq> []" using a(2) n by auto
  moreover have "pe_host_addr (pte ! 0) = addr" using m(2) n assms(6) by simp
  ultimately show ?thesis using m(1) a(1) by auto
qed

text \<open>What the registration leaves for the front end when the store takes every write.\<close>

lemma registered:
  assumes "xen_ok X" "back_ready X lut b" "\<forall>n. n \<le> length (vm n)"
    and "fst (xs_start T) = 0" "\<forall>k. xs_printf T k = 0" "xs_end T (snd (xs_start T)) False = 0"
    and "length (ring_pages X (bi_tx_va b) (length (r_slots (bi_tx_ring b)))) < 100"
    and "length (ring_pages X (bi_rx_va b) (length (r_slots (bi_rx_ring b)))) < 100"
  obtains b' t r where "xenvif_netmap_map X lut T b = Some b'" "bi_domid b' = bi_domid b"
    "bi_nodename b' = bi_nodename b" "bi_otherend b' = bi_otherend b"
    "both_shared X lut b (bi_nmtx b') (bi_nmrx b') (bi_grants b')"
    "bufs_shared X lut (bi_domid b) (bi_tx_ring b) (bi_tx_ring b') (bi_grants b')"
    "bufs_shared X lut (bi_domid b) (bi_rx_ring b) (bi_rx_ring b') (bi_grants b')"
    "xenbus_read_ring_grefs vm (bi_store b') (bi_otherend b) old_tx old_rx = Some (t, r)"
    "nr_ring_grefs t = ucast (nr_ring_pgs (bi_nmtx b')) + 1"
    "take (unat (nr_ring_pgs (bi_nmtx b')) + 1) (ring_grefs t)
       = take (unat (nr_ring_pgs (bi_nmtx b')) + 1) (ring_ref (bi_nmtx b'))"
    "nr_ring_grefs r = ucast (nr_ring_pgs (bi_nmrx b')) + 1"
    "take (unat (nr_ring_pgs (bi_nmrx b')) + 1) (ring_grefs r)
       = take (unat (nr_ring_pgs (bi_nmrx b')) + 1) (ring_ref (bi_nmrx b'))"
    "bi_store b' (bi_nodename b, ''feature-netmap-tx-desc'') = Some (fmt_u (bi_num_tx_desc b))"
    "bi_store b' (bi_nodename b, ''feature-netmap-rx-desc'') = Some (fmt_u (bi_num_rx_desc b))"
proof -
  obtain nmtx tx nmrx rx g b1 where s: "both_shared X lut b nmtx nmrx g"
    "bufs_shared X lut (bi_domid b) (bi_tx_ring b) tx g" "bufs_shared X lut (bi_domid b) (bi_rx_ring b) rx g"
    and b1: "b1 = b\<lparr>bi_nmtx := nmtx, bi_nmrx := nmrx, bi_tx_ring := tx, bi_rx_ring := rx, bi_grants := g\<rparr>"
    and m: "\<forall>T. xenvif_netmap_map X lut T b =
       (if fst (xs_start T) \<noteq> 0
        then Some (transaction_commit T (xs_xbt T) (bi_store b)
               (note_log (Dev_fatal (fst (xs_start T)) ''starting transaction'') b1))
        else map_option (\<lambda>(_, st). transaction_commit T (snd (xs_start T)) st b1)
               (xenbus_write_grefs (xs_printf T) (bi_otherend b) nmtx nmrx (desc_store T b)))"
    by (rule map_eq [OF assms(1,2)])
  have l: "unat (nr_ring_pgs nmtx) < 100" "unat (nr_ring_pgs nmtx) < length (ring_ref nmtx)"
    "unat (nr_ring_pgs nmrx) < 100" "unat (nr_ring_pgs nmrx) < length (ring_ref nmrx)"
    using s(1) assms(7,8) by (simp_all add: both_shared_def ring_shared_def Let_def)
  obtain st t r where
    w: "xenbus_write_grefs (xs_printf T) (bi_otherend b) nmtx nmrx (desc_store T b) = Some (0, st)"
    and x: "xenbus_read_ring_grefs vm st (bi_otherend b) old_tx old_rx = Some (t, r)"
    "nr_ring_grefs t = ucast (nr_ring_pgs nmtx) + 1"
    "take (unat (nr_ring_pgs nmtx) + 1) (ring_grefs t) = take (unat (nr_ring_pgs nmtx) + 1) (ring_ref nmtx)"
    "nr_ring_grefs r = ucast (nr_ring_pgs nmrx) + 1"
    "take (unat (nr_ring_pgs nmrx) + 1) (ring_grefs r) = take (unat (nr_ring_pgs nmrx) + 1) (ring_ref nmrx)"
    and f: "\<forall>d. st (d, ''feature-netmap-tx-desc'') = desc_store T b (d, ''feature-netmap-tx-desc'')
          \<and> st (d, ''feature-netmap-rx-desc'') = desc_store T b (d, ''feature-netmap-rx-desc'')"
    using ring_refs_roundtrip [OF assms(5,3) l] by blast
  let ?b = "transaction_commit T (snd (xs_start T)) st b1"
  have e: "bi_nmtx ?b = nmtx" "bi_nmrx ?b = nmrx" "bi_tx_ring ?b = tx" "bi_rx_ring ?b = rx"
    "bi_grants ?b = g" "bi_store ?b = st" "bi_domid ?b = bi_domid b"
    "bi_nodename ?b = bi_nodename b" "bi_otherend ?b = bi_otherend b"
    using assms(6) by (simp_all add: b1 transaction_commit_def note_log_def)
  have "xenvif_netmap_map X lut T b = Some ?b" using w assms(4) by (simp add: m)
  moreover have "st (bi_nodename b, ''feature-netmap-tx-desc'') = Some (fmt_u (bi_num_tx_desc b))"
    "st (bi_nodename b, ''feature-netmap-rx-desc'') = Some (fmt_u (bi_num_rx_desc b))"
    using f assms(5) by (simp_all add: desc_store_def xenbus_printf_def)
  ultimately show thesis using that [of ?b t r, unfolded e] s x by blast
qed

lemma both_sharedD:
  assumes "both_shared X lut b nmtx nmrx g" "back_ready X lut b"
  shows "ring_shared X (bi_domid b) (bi_tx_va b) (bi_tx_ring b) nmtx g"
    "ring_shared X (bi_domid b) (bi_rx_va b) (bi_rx_ring b) nmrx g"
    "unat (nr_ring_pgs nmtx) = length (ring_pages X (bi_tx_va b) (length (r_slots (bi_tx_ring b))))"
    "unat (nr_ring_pgs nmrx) = length (ring_pages X (bi_rx_va b) (length (r_slots (bi_rx_ring b))))"
    "ring_pages X (bi_tx_va b) (length (r_slots (bi_tx_ring b))) \<noteq> []"
    "ring_pages X (bi_rx_va b) (length (r_slots (bi_rx_ring b))) \<noteq> []"
  using assms by (simp_all add: both_shared_def ring_shared_def back_ready_def shareable_def Let_def)

text \<open>C9: If the store takes every write and a ring has at most 99 pages, then the registration
  of the back end followed by the reading and mapping of the front end leaves every page of
  both rings mapped, at consecutive addresses, by a reference that the back end granted for
  this page; the number of references read is one more than there are pages.\<close>
theorem rings_reach_front:
  assumes "xen_ok X" "back_ready X lut b" "map_ok M"
    and "fst (xs_start T) = 0" "\<forall>k. xs_printf T k = 0" "xs_end T (snd (xs_start T)) False = 0"
    and "length (ring_pages X (bi_tx_va b) (length (r_slots (bi_tx_ring b)))) < 100"
    and "length (ring_pages X (bi_rx_va b) (length (r_slots (bi_rx_ring b)))) < 100"
  shows "\<exists>b' tx rx txd rxd. xenvif_netmap_map X lut T b = Some b'
     \<and> xenbus_read_ring_grefs (m_vmalloc_ref M) (bi_store b') (bi_otherend b) old_tx old_rx = Some (tx, rx)
     \<and> gnttab_map M (gnt_of tx) domid 0 = Some (0, txd) \<and> ring_mapped X M b' (bi_tx_va b) (bi_tx_ring b) txd
     \<and> gnttab_map M (gnt_of rx) domid 0 = Some (0, rxd) \<and> ring_mapped X M b' (bi_rx_va b) (bi_rx_ring b) rxd"
proof -
  have vm: "\<forall>n. n \<le> length (m_vmalloc_ref M n)" using assms(3) by (simp add: map_ok_def)
  obtain b' t r where b: "xenvif_netmap_map X lut T b = Some b'" "bi_domid b' = bi_domid b"
    "both_shared X lut b (bi_nmtx b') (bi_nmrx b') (bi_grants b')"
    and x: "xenbus_read_ring_grefs (m_vmalloc_ref M) (bi_store b') (bi_otherend b) old_tx old_rx = Some (t, r)"
    "nr_ring_grefs t = ucast (nr_ring_pgs (bi_nmtx b')) + 1"
    "take (unat (nr_ring_pgs (bi_nmtx b')) + 1) (ring_grefs t)
       = take (unat (nr_ring_pgs (bi_nmtx b')) + 1) (ring_ref (bi_nmtx b'))"
    "nr_ring_grefs r = ucast (nr_ring_pgs (bi_nmrx b')) + 1"
    "take (unat (nr_ring_pgs (bi_nmrx b')) + 1) (ring_grefs r)
       = take (unat (nr_ring_pgs (bi_nmrx b')) + 1) (ring_ref (bi_nmrx b'))"
    by (rule registered [OF assms(1,2) vm assms(4-8)])
  note sh = both_sharedD [OF b(3) assms(2)]
  have l: "unat (nr_ring_pgs (bi_nmtx b')) < 100" "unat (nr_ring_pgs (bi_nmrx b')) < 100"
    using sh(3,4) assms(7,8) by simp_all
  obtain txd where t: "gnttab_map M (gnt_of t) domid 0 = Some (0, txd)"
    "ring_mapped X M b' (bi_tx_va b) (bi_tx_ring b) txd"
    using map_ring_pages [OF assms(3) sh(1) [folded b(2)] l(1) x(2,3) sh(5)] by blast
  obtain rxd where "gnttab_map M (gnt_of r) domid 0 = Some (0, rxd)"
    "ring_mapped X M b' (bi_rx_va b) (bi_rx_ring b) rxd"
    using map_ring_pages [OF assms(3) sh(2) [folded b(2)] l(2) x(4,5) sh(6)] by blast
  then show ?thesis using b(1) x(1) t by blast
qed

theorem rings_reach_front_witness:
  "\<exists>b' tx rx txd. xenvif_netmap_map sample_xen sample_lut (sample_xs ''x'' \<lparr>xs_printf := \<lambda>_. 0\<rparr>) sample_back = Some b'
     \<and> xenbus_read_ring_grefs (m_vmalloc_ref sample_map) (bi_store b') ''f'' 0 0 = Some (tx, rx)
     \<and> gnttab_map sample_map (gnt_of tx) 0 0 = Some (0, txd) \<and> ring_mapped sample_xen sample_map b' 40960 sample_ring txd"
proof -
  let ?T = "sample_xs ''x'' \<lparr>xs_printf := \<lambda>_. 0\<rparr>"
  have "length (r_slots sample_ring) = 3" by (simp add: sample_ring_def)
  then have "length (ring_pages sample_xen (bi_tx_va sample_back) (length (r_slots (bi_tx_ring sample_back)))) < 100"
    "length (ring_pages sample_xen (bi_rx_va sample_back) (length (r_slots (bi_rx_ring sample_back)))) < 100"
    by (simp_all add: sample_pages sample_rx_pages)
  moreover have "fst (xs_start ?T) = 0" "\<forall>k. xs_printf ?T k = 0" "xs_end ?T (snd (xs_start ?T)) False = 0"
    by (simp_all add: sample_xs_def)
  ultimately show ?thesis
    using rings_reach_front [OF sample_xen_ok sample_back_ready sample_map_ok, of ?T 0 0 0]
    unfolding sample_back_fields by blast
qed

end
