(* ===== verification/Handshake.thy ===== *)
theory Handshake
  imports Shared_Memory Ring_Exchange
begin

text \<open>
  The whole handshake: the registration of the back end (\<open>Netback_Setup\<close>), then the set-up
  of the front end (\<open>Netfront_Grants\<close>) on the store and the rings the registration left. Both
  mappings of a ring are composed here from \<open>Ring_Exchange\<close> and \<open>Grant_Exchange\<close>.
\<close>

lemma ring_set_up:
  assumes "map_ok M" "ring_shared X (bi_domid b) va ring gnt (bi_grants b)" "unat (nr_ring_pgs gnt) < 100"
    and "nr_ring_grefs r = ucast (nr_ring_pgs gnt) + 1"
    and "take (unat (nr_ring_pgs gnt) + 1) (ring_grefs r) = take (unat (nr_ring_pgs gnt) + 1) (ring_ref gnt)"
    and "ring_pages X va (length (r_slots ring)) \<noteq> []"
    and "\<forall>p. su_ring_at S (m_alloc_pages M p) = ring'" "num_slots ring' = desc"
  obtains d where "setup_ring M S (gnt_of r) domid desc = Some (d, ring')" "ring_mapped X M b va ring d"
proof -
  obtain d p where d: "gnttab_map M (gnt_of r) domid 0 = Some (0, d)" "ring_mapped X M b va ring d"
    "g_ring_gnt d \<noteq> []" "pe_host_addr (g_ring_gnt d ! 0) = m_alloc_pages M p"
    using map_ring_pages [OF assms(1-6)] by blast
  have "arr_get (g_ring_gnt d) 0 = Some (g_ring_gnt d ! 0)"
    using d(3) by (intro arr_get_Some) simp
  then have "setup_ring M S (gnt_of r) domid desc = Some (d, ring')"
    using d(1,4) assms(7,8) by (simp add: setup_ring_def)
  then show thesis using that d(2) by blast
qed

lemma bufs_set_up:
  assumes "map_ok M" "M_PAGE_SIZE M = 4096" "pages_ok X" "placed lut ring a" "shareable X lut va ring"
    and "bufs_shared X lut domid ring ring' g"
  obtains rd' where "setup_bufs M ring' rd dom0 = Some rd'" "bufs_located X lut (r_slots ring) domid g rd'"
    "g_nr_ring_grefs rd' = g_nr_ring_grefs rd" "g_ring_map rd' = g_ring_map rd" "g_ring_gnt rd' = g_ring_gnt rd"
proof -
  let ?R = "buffer_pages X lut (r_slots ring)"
  note pair = placed_paired [OF assms(3,4)]
  obtain slots rs where r: "ring' = ring\<lparr>r_slots := slots\<rparr>" "length slots = length (r_slots ring)"
    "filter (\<lambda>p. p \<noteq> 0) (map s_ptr slots) = map ucast rs" "length rs = length ?R"
    "\<forall>i < length rs. g (rs ! i) = Some (domid, page_mfn X (?R ! i))"
    using assms(6) unfolding bufs_shared_def by blast
  have ne: "r_slots ring \<noteq> []" "length (r_slots ring) \<le> 65536"
    using assms(5) by (simp_all add: shareable_def Let_def)
  have rs: "rs \<noteq> []" using r(4) buffer_pages_bounds(1) [OF ne(1), of X lut] by auto
  have half: "length rs = length (r_slots ring) div 2" using r(4) paired_half(1) [OF pair] by simp
  have p: "unat (num_slots ring') = length (r_slots ring')" "nonzero_ptrs (r_slots ring') = rs"
    "length rs = length (r_slots ring') div 2"
    using pair r(1-3) half by (simp_all add: paired_def nonzero_ptrs_def comp_def)
  obtain rd1 rd2 base where f: "xenbus_read_bufs_grefs M ring' rd = Some (0, rd1)"
    "gnttab_map M rd1 dom0 1 = Some (0, rd2)" "g_bufs_gnt rd2 \<noteq> []"
    "\<forall>k < length rs. op_ref (g_bufs_map rd2 ! k) = rs ! k
       \<and> pe_host_addr (g_bufs_gnt rd2 ! k) = base + M_PAGE_SIZE M * k"
    "g_nr_ring_grefs rd2 = g_nr_ring_grefs rd" "g_ring_map rd2 = g_ring_map rd" "g_ring_gnt rd2 = g_ring_gnt rd"
    "unat (g_nr_bufs_grefs rd2) = length rs"
    by (rule buffers_mapped [OF assms(1) p rs])
  let ?rd = "rd2\<lparr>g_bufs_base := pe_host_addr (g_bufs_gnt rd2 ! 0)\<rparr>"
  have "arr_get (g_bufs_gnt rd2) 0 = Some (g_bufs_gnt rd2 ! 0)" using f(3) by (intro arr_get_Some) simp
  then have "setup_bufs M ring' rd dom0 = Some ?rd" using f(1,2) by (simp add: setup_bufs_def)
  moreover have "pe_host_addr (g_bufs_gnt rd2 ! 0) = base" using f(4) rs by (cases rs) simp_all
  then have "bufs_located X lut (r_slots ring) domid g ?rd"
    using r(4,5) half f(4,8) assms(2) by (intro bufs_locatedI [OF assms(3,4) ne(2), where base = base and rs = rs]) simp_all
  ultimately show thesis using that [of ?rd] f(5-7) by simp
qed

lemma write_evtchn_once:
  assumes "\<forall>node. xb_printf Y k node = 0" "xb_end Y k False = 0"
  shows "xenbus_write_evtchn Y nodename tx rx st k =
     Some (0, st((nodename, ''event-channel-tx'') \<mapsto> fmt_u tx, (nodename, ''event-channel-rx'') \<mapsto> fmt_u rx))"
  using assms by (subst xenbus_write_evtchn.simps) simp

lemma bufs_shared_slots: "bufs_shared X lut domid ring ring' g \<Longrightarrow> num_slots ring' = num_slots ring"
  by (auto simp: bufs_shared_def)

text \<open>The front end finds what the registration left: the store, and each ring at the address of
  its mapping.\<close>

definition front_meets :: "(nat \<Rightarrow> map_api) \<Rightarrow> setup_api \<Rightarrow> back_if \<Rightarrow> bool" where
  "front_meets M S b \<longleftrightarrow> su_store S = bi_store b \<and> su_nodename S = bi_otherend b \<and> su_otherend S = bi_nodename b
     \<and> fst (su_alloc_tx S) = 0 \<and> fst (su_alloc_rx S) = 0
     \<and> (\<forall>p. su_ring_at S (m_alloc_pages (M 0) p) = bi_tx_ring b)
     \<and> (\<forall>p. su_ring_at S (m_alloc_pages (M 1) p) = bi_rx_ring b)"

lemma front_set_up:
  assumes "xen_ok X" "back_ready X lut b" "pages_ok X" "placed lut (bi_tx_ring b) ta" "placed lut (bi_rx_ring b) ra"
    and "fst (xs_start T) = 0" "\<forall>k. xs_printf T k = 0" "xs_end T (snd (xs_start T)) False = 0"
    and "length (ring_pages X (bi_tx_va b) (length (r_slots (bi_tx_ring b)))) < 100"
    and "length (ring_pages X (bi_rx_va b) (length (r_slots (bi_rx_ring b)))) < 100"
    and M: "\<forall>k. map_ok (M k) \<and> M_PAGE_SIZE (M k) = 4096"
    and Y: "\<forall>node. xb_printf Y 0 node = 0" "xb_end Y 0 False = 0"
    and map: "xenvif_netmap_map X lut T b = Some b'" and meets: "front_meets M S b'"
  shows "\<exists>p. setup_netfront_netmap M S Y = Some (Setup_done p)
             \<and> ring_mapped X (M 0) b' (bi_tx_va b) (bi_tx_ring b) (fp_txd p)
             \<and> ring_mapped X (M 1) b' (bi_rx_va b) (bi_rx_ring b) (fp_rxd p)
             \<and> bufs_located X lut (r_slots (bi_tx_ring b)) (bi_domid b) (bi_grants b') (fp_txd p)
             \<and> bufs_located X lut (r_slots (bi_rx_ring b)) (bi_domid b) (bi_grants b') (fp_rxd p)
             \<and> fp_tx_rings p = bi_tx_ring b' \<and> fp_rx_rings p = bi_rx_ring b'
             \<and> fp_stat p = init_csb (bi_tx_ring b')
             \<and> fp_store p (bi_otherend b, ''event-channel-tx'') = Some (fmt_u (snd (su_alloc_tx S)))
             \<and> fp_store p (bi_otherend b, ''event-channel-rx'') = Some (fmt_u (snd (su_alloc_rx S)))"
proof -
  have ok: "map_ok (M k)" "M_PAGE_SIZE (M k) = 4096" for k using M by blast+
  have vm: "\<forall>n. n \<le> length (m_vmalloc_ref (M 0) n)" using ok(1) by (simp add: map_ok_def)
  obtain b'' t r where b'': "xenvif_netmap_map X lut T b = Some b''" and d'': "bi_domid b'' = bi_domid b"
    "bi_nodename b'' = bi_nodename b" "bi_otherend b'' = bi_otherend b"
    and bo'': "both_shared X lut b (bi_nmtx b'') (bi_nmrx b'') (bi_grants b'')"
    and bufs'': "bufs_shared X lut (bi_domid b) (bi_tx_ring b) (bi_tx_ring b'') (bi_grants b'')"
    "bufs_shared X lut (bi_domid b) (bi_rx_ring b) (bi_rx_ring b'') (bi_grants b'')"
    and x'': "xenbus_read_ring_grefs (m_vmalloc_ref (M 0)) (bi_store b'') (bi_otherend b) (su_junk S) (su_junk S) = Some (t, r)"
    "nr_ring_grefs t = ucast (nr_ring_pgs (bi_nmtx b'')) + 1"
    "take (unat (nr_ring_pgs (bi_nmtx b'')) + 1) (ring_grefs t)
       = take (unat (nr_ring_pgs (bi_nmtx b'')) + 1) (ring_ref (bi_nmtx b''))"
    "nr_ring_grefs r = ucast (nr_ring_pgs (bi_nmrx b'')) + 1"
    "take (unat (nr_ring_pgs (bi_nmrx b'')) + 1) (ring_grefs r)
       = take (unat (nr_ring_pgs (bi_nmrx b'')) + 1) (ring_ref (bi_nmrx b''))"
    and n'': "bi_store b'' (bi_nodename b, ''feature-netmap-tx-desc'') = Some (fmt_u (bi_num_tx_desc b))"
    "bi_store b'' (bi_nodename b, ''feature-netmap-rx-desc'') = Some (fmt_u (bi_num_rx_desc b))"
    by (rule registered [OF assms(1,2) vm assms(6-10)])
  have e: "b'' = b'" using b'' map by simp
  note d = d'' [unfolded e] and bo = bo'' [unfolded e] and bufs = bufs'' [unfolded e]
    and x = x'' [unfolded e] and n = n'' [unfolded e]
  note sh = both_sharedD [OF bo assms(2)]
  have l: "unat (nr_ring_pgs (bi_nmtx b')) < 100" "unat (nr_ring_pgs (bi_nmrx b')) < 100"
    using sh(3,4) assms(9,10) by simp_all
  have S: "su_store S = bi_store b'" "su_nodename S = bi_otherend b" "su_otherend S = bi_nodename b"
    "fst (su_alloc_tx S) = 0" "fst (su_alloc_rx S) = 0"
    and at: "\<forall>p. su_ring_at S (m_alloc_pages (M 0) p) = bi_tx_ring b'"
    "\<forall>p. su_ring_at S (m_alloc_pages (M 1) p) = bi_rx_ring b'"
    using meets d by (simp_all add: front_meets_def)
  have desc: "xenbus_scan (bi_store b') (bi_nodename b) ''feature-netmap-tx-desc'' (su_junk S) = bi_num_tx_desc b"
    "xenbus_scan (bi_store b') (bi_nodename b) ''feature-netmap-rx-desc'' (su_junk S) = bi_num_rx_desc b"
    using n by (simp_all add: xenbus_scan_fmt)
  have "unat (num_slots (bi_tx_ring b)) = unat (bi_num_tx_desc b)" "unat (num_slots (bi_rx_ring b)) = unat (bi_num_rx_desc b)"
    using assms(2,4,5) by (simp_all add: placed_def back_ready_def)
  then have num: "num_slots (bi_tx_ring b') = bi_num_tx_desc b" "num_slots (bi_rx_ring b') = bi_num_rx_desc b"
    using bufs_shared_slots [OF bufs(1)] bufs_shared_slots [OF bufs(2)] by (simp_all add: word_unat_eq_iff)
  have share: "shareable X lut (bi_tx_va b) (bi_tx_ring b)" "shareable X lut (bi_rx_va b) (bi_rx_ring b)"
    using assms(2) by (simp_all add: back_ready_def)
  let ?dom = "ucast (xenbus_scan (bi_store b') (bi_nodename b) ''backend-id'' (su_junk S)) :: u16"
  obtain td where td: "setup_ring (M 0) S (gnt_of t) ?dom (bi_num_tx_desc b) = Some (td, bi_tx_ring b')"
    "ring_mapped X (M 0) b' (bi_tx_va b) (bi_tx_ring b) td"
    by (rule ring_set_up [OF ok(1) sh(1) [folded d(1)] l(1) x(2,3) sh(5) at(1) num(1)])
  obtain rd where rd: "setup_ring (M 1) S (gnt_of r) ?dom (bi_num_rx_desc b) = Some (rd, bi_rx_ring b')"
    "ring_mapped X (M 1) b' (bi_rx_va b) (bi_rx_ring b) rd"
    by (rule ring_set_up [OF ok(1) sh(2) [folded d(1)] l(2) x(4,5) sh(6) at(2) num(2)])
  obtain tb where tb: "setup_bufs (M 2) (bi_tx_ring b') td ?dom = Some tb"
    "bufs_located X lut (r_slots (bi_tx_ring b)) (bi_domid b) (bi_grants b') tb"
    "g_nr_ring_grefs tb = g_nr_ring_grefs td" "g_ring_map tb = g_ring_map td" "g_ring_gnt tb = g_ring_gnt td"
    by (rule bufs_set_up [OF ok assms(3,4) share(1) bufs(1)])
  obtain rb where rb: "setup_bufs (M 3) (bi_rx_ring b') rd ?dom = Some rb"
    "bufs_located X lut (r_slots (bi_rx_ring b)) (bi_domid b) (bi_grants b') rb"
    "g_nr_ring_grefs rb = g_nr_ring_grefs rd" "g_ring_map rb = g_ring_map rd" "g_ring_gnt rb = g_ring_gnt rd"
    by (rule bufs_set_up [OF ok assms(3,5) share(2) bufs(2)])
  have m: "ring_mapped X (M 0) b' (bi_tx_va b) (bi_tx_ring b) tb" "ring_mapped X (M 1) b' (bi_rx_va b) (bi_rx_ring b) rb"
    using td(2) rd(2) tb(3-5) rb(3-5) by (simp_all add: ring_mapped_def)
  show ?thesis
    by (cases "su_alloc_tx S"; cases "su_alloc_rx S")
       (use S(4,5) m tb(2) rb(2) in \<open>simp add: setup_netfront_netmap_def Let_def S(1-3) desc x(1) td(1) rd(1) [unfolded One_nat_def]
          tb(1) rb(1) write_evtchn_once [OF Y]\<close>)
qed

text \<open>C1: The whole handshake: if the store takes every write, the rings have fewer than 100 pages
  and their buffers lie one after the other in the order of the slots from the beginning of a
  page, then after the registration of the back end the set-up of the front end is done: both
  rings are found and mapped page by page, every byte of every slot's buffer is found at the
  address the front end computes for it (the machine byte is the one that the back end finds at
  its own address of the buffer), and the event channels are in the store.\<close>
theorem handshake_done:
  assumes "xen_ok X" "back_ready X lut b" "pages_ok X" "placed lut (bi_tx_ring b) ta" "placed lut (bi_rx_ring b) ra"
    and "fst (xs_start T) = 0" "\<forall>k. xs_printf T k = 0" "xs_end T (snd (xs_start T)) False = 0"
    and "length (ring_pages X (bi_tx_va b) (length (r_slots (bi_tx_ring b)))) < 100"
    and "length (ring_pages X (bi_rx_va b) (length (r_slots (bi_rx_ring b)))) < 100"
    and "\<forall>k. map_ok (M k) \<and> M_PAGE_SIZE (M k) = 4096"
    and "\<forall>node. xb_printf Y 0 node = 0" "xb_end Y 0 False = 0"
  shows "\<exists>b'. xenvif_netmap_map X lut T b = Some b'
     \<and> (\<forall>S. front_meets M S b' \<longrightarrow>
          (\<exists>p. setup_netfront_netmap M S Y = Some (Setup_done p)
             \<and> ring_mapped X (M 0) b' (bi_tx_va b) (bi_tx_ring b) (fp_txd p)
             \<and> ring_mapped X (M 1) b' (bi_rx_va b) (bi_rx_ring b) (fp_rxd p)
             \<and> bufs_located X lut (r_slots (bi_tx_ring b)) (bi_domid b) (bi_grants b') (fp_txd p)
             \<and> bufs_located X lut (r_slots (bi_rx_ring b)) (bi_domid b) (bi_grants b') (fp_rxd p)
             \<and> fp_tx_rings p = bi_tx_ring b' \<and> fp_rx_rings p = bi_rx_ring b'
             \<and> fp_stat p = init_csb (bi_tx_ring b')
             \<and> fp_store p (bi_otherend b, ''event-channel-tx'') = Some (fmt_u (snd (su_alloc_tx S)))
             \<and> fp_store p (bi_otherend b, ''event-channel-rx'') = Some (fmt_u (snd (su_alloc_rx S)))))"
proof -
  have "\<forall>n. n \<le> length (m_vmalloc_ref (M 0) n)" using assms(11) by (simp add: map_ok_def)
  then obtain b' where b': "xenvif_netmap_map X lut T b = Some b'"
    by (rule registered [OF assms(1,2) _ assms(6-10)])
  show ?thesis
    using b' front_set_up [OF assms b'] by blast
qed

definition sample_back4 :: back_if where
  "sample_back4 = sample_back\<lparr>bi_num_tx_desc := 4, bi_num_rx_desc := 4,
     bi_tx_ring := sample_ring4, bi_rx_ring := sample_ring4\<rparr>"

lemma sample_back4_fields [simp]:
  "bi_domid sample_back4 = 1" "bi_nodename sample_back4 = ''b''"
  "bi_otherend sample_back4 = ''f''" "bi_num_tx_desc sample_back4 = 4" "bi_num_rx_desc sample_back4 = 4"
  "bi_tx_va sample_back4 = 40960" "bi_rx_va sample_back4 = 45056" "bi_tx_ring sample_back4 = sample_ring4"
  "bi_rx_ring sample_back4 = sample_ring4" "bi_nmtx sample_back4 = sample_gnt 0 []"
  "bi_grants sample_back4 = Map.empty" "bi_store sample_back4 = Map.empty"
  by (simp_all add: sample_back4_def)

lemma sample_back4_ready: "back_ready sample_xen sample_lut sample_back4"
proof -
  have l: "length (r_slots sample_ring4) = 4" by (simp add: sample_ring4_def)
  have pg: "ring_pages sample_xen 45056 4 = [11]" by (simp add: ring_pages_def sample_xen_def)
  have "shareable sample_xen sample_lut 45056 sample_ring4"
    using sample_shareable4 by (simp add: shareable_def Let_def l pg sample_pages4)
  moreover have "ring_room sample_xen sample_lut 45056 sample_ring4 = 4"
    by (simp add: ring_room_def l pg sample_pages4)
  moreover have "gnttab_max sample_xen = 900" by (simp add: sample_xen_def)
  ultimately show ?thesis
    using sample_shareable4 by (simp add: back_ready_def l sample_room4) (simp add: sample_gnt_def)
qed

lemma sample_pages_ok: "pages_ok sample_xen"
  by (simp add: pages_ok_def sample_xen_def inj_def)

lemma sample_placed4: "placed sample_lut sample_ring4 90112"
proof -
  have "sample_lut (s_buf_idx (r_slots sample_ring4 ! i)) = 90112 + 2048 * i" if "i < 4" for i
  proof -
    have "i = 0 \<or> i = 1 \<or> i = 2 \<or> i = 3" using that by auto
    then show ?thesis by (auto simp: sample_lut_def sample_ring4_def sample_slot_at_def)
  qed
  moreover have "length (r_slots sample_ring4) = 4" by (simp add: sample_ring4_def)
  ultimately show ?thesis by (simp add: placed_def) (simp add: sample_ring4_def)
qed

text \<open>Each mapping gets pages of its own.\<close>

definition sample_maps :: "nat \<Rightarrow> map_api" where
  "sample_maps k = sample_map\<lparr>m_alloc_pages := \<lambda>_. 65536 * (k + 1)\<rparr>"

definition sample_front :: "back_if \<Rightarrow> setup_api" where
  "sample_front b = \<lparr>su_alloc_tx = (0, 5), su_alloc_rx = (0, 6), su_bind = (\<lambda>e. e + 16), su_store = bi_store b,
     su_nodename = bi_otherend b, su_otherend = bi_nodename b, su_junk = 0,
     su_ring_at = (\<lambda>a. if a = 65536 then bi_tx_ring b else bi_rx_ring b)\<rparr>"

lemma sample_meets: "front_meets sample_maps (sample_front b) b"
  by (simp add: front_meets_def sample_front_def sample_maps_def)

theorem handshake_done_witness:
  "\<exists>b' p. xenvif_netmap_map sample_xen sample_lut (sample_xs ''x'' \<lparr>xs_printf := \<lambda>_. 0\<rparr>) sample_back4 = Some b'
     \<and> setup_netfront_netmap sample_maps (sample_front b') \<lparr>xb_printf = \<lambda>_ _. 0, xb_end = \<lambda>_ _. 0, xb_vfree = \<lambda>_. False\<rparr> = Some (Setup_done p)
     \<and> bufs_located sample_xen sample_lut (r_slots sample_ring4) 1 (bi_grants b') (fp_rxd p)"
proof -
  let ?T = "sample_xs ''x'' \<lparr>xs_printf := \<lambda>_. 0\<rparr>" and ?Y = "\<lparr>xb_printf = \<lambda>_ _. 0, xb_end = \<lambda>_ _. 0, xb_vfree = \<lambda>_. False\<rparr>"
  have l: "length (r_slots sample_ring4) = 4" by (simp add: sample_ring4_def)
  have "ring_pages sample_xen 45056 4 = [11]" by (simp add: ring_pages_def sample_xen_def)
  then have p: "length (ring_pages sample_xen (bi_tx_va sample_back4) (length (r_slots (bi_tx_ring sample_back4)))) < 100"
    "length (ring_pages sample_xen (bi_rx_va sample_back4) (length (r_slots (bi_rx_ring sample_back4)))) < 100"
    by (simp_all add: l sample_pages4)
  have q: "placed sample_lut (bi_tx_ring sample_back4) 90112" "placed sample_lut (bi_rx_ring sample_back4) 90112"
    by (simp_all add: sample_placed4)
  have t: "fst (xs_start ?T) = 0" "\<forall>k. xs_printf ?T k = 0" "xs_end ?T (snd (xs_start ?T)) False = 0"
    "\<forall>node. xb_printf ?Y 0 node = 0" "xb_end ?Y 0 False = 0"
    by (simp_all add: sample_xs_def)
  have m: "\<forall>k. map_ok (sample_maps k) \<and> M_PAGE_SIZE (sample_maps k) = 4096"
    using sample_map_ok by (simp add: sample_maps_def map_ok_def) (simp add: sample_map_def)
  obtain b' where "xenvif_netmap_map sample_xen sample_lut ?T sample_back4 = Some b'"
    "\<exists>p. setup_netfront_netmap sample_maps (sample_front b') ?Y = Some (Setup_done p)
       \<and> bufs_located sample_xen sample_lut (r_slots (bi_rx_ring sample_back4)) (bi_domid sample_back4) (bi_grants b') (fp_rxd p)"
    using handshake_done [OF sample_xen_ok sample_back4_ready sample_pages_ok q t(1-3) p m t(4,5)] sample_meets by blast
  then show ?thesis by auto
qed

end
