(* ===== verification/Tx_Delivery.thy ===== *)
theory Tx_Delivery
  imports Kick_Protocol
begin

text \<open>
  The way of transmitted packets across the two drivers, in rounds: \<open>netfront_netmap_xmit\<close>
  publishes a packet and kicks (\<open>Netfront_Rings\<close>), \<open>xenvif_netmap_irqsched\<close> and one pass of the
  thread hand the ring to the bridge and notify (\<open>Netback_Thread\<close>), and
  \<open>netfront_tx_interrupt\<close> gives the front end its right to kick back. The ring is one memory
  for both sides, and so are its buffers.
\<close>

text \<open>What netmap documents of the beginning of a transmit sync and of the sync of a port of the
  bridge: it forwards the slots from its cursor to the head and gives all of them back.\<close>

definition sync_ok :: "bridge_api \<Rightarrow> bool" where
  "sync_ok B \<longleftrightarrow>
     (\<forall>k. r_head (k_ring k) < nkr_num_slots k \<longrightarrow>
        (let k' = b_txsync_prologue B k
         in nr_rhead k' = r_head (k_ring k) \<and> nr_hwcur k' = nr_hwcur k \<and> nkr_num_slots k' = nkr_num_slots k
          \<and> (\<exists>t. k_ring k' = k_ring k\<lparr>r_tail := t\<rparr>)))
   \<and> (\<forall>k. nr_rhead k < nkr_num_slots k \<longrightarrow>
        (let k' = b_nm_txsync B k
         in nr_hwcur k' = nr_rhead k \<and> nkr_num_slots k' = nkr_num_slots k
          \<and> k_ring k' = k_ring k\<lparr>r_tail := if nr_rhead k = 0 then nkr_num_slots k - 1 else nr_rhead k - 1\<rparr>))"

text \<open>The packets of the slots that a sync finds between its cursor and the head, in the one area of
  buffers of this theory. The bridge itself looks a buffer up by its index; that it finds the
  same bytes there follows from the set-up (\<open>handed_mem\<close> in \<open>Shared_Traffic\<close>, \<open>Traffic_Start\<close>).\<close>

definition handed :: "kring \<Rightarrow> u8 list \<Rightarrow> u8 list option list" where
  "handed k bufs =
     (let ss = r_slots (k_ring k); n = length ss
      in map (cell_get sh_addr (ss, bufs))
           (ring_seq n (unat (nr_hwcur k)) (ring_dist n (unat (nr_hwcur k)) (unat (nr_rhead k)))))"

text \<open>One round; its first result is what the bridge is handed.\<close>

definition tx_round ::
  "netmap_api \<Rightarrow> bridge_api \<Rightarrow> u8 list \<Rightarrow> netmap_info \<times> xenvif \<Rightarrow> (u8 list option list \<times> netmap_info \<times> xenvif) option" where
  "tx_round A B pkt s = (case s of (np, vif) \<Rightarrow> do {
     (sent, np) \<leftarrow> netfront_netmap_xmit A np pkt (of_nat (length pkt));
     let vif = vif\<lparr>v_tx_kring := (v_tx_kring vif)\<lparr>k_ring := ni_tx_rings np\<rparr>\<rparr>;
     let vif = snd (xenvif_netmap_irqsched vif 1);
     let out = handed (b_txsync_prologue B (v_tx_kring vif)) (ni_tx_bufs np);
     let vif = kthread_pass B vif;
     let np = np\<lparr>ni_tx_rings := k_ring (v_tx_kring vif)\<rparr>;
     Some (out, netfront_tx_interrupt np, vif)
   })"

fun tx_rounds ::
  "netmap_api \<Rightarrow> bridge_api \<Rightarrow> u8 list list \<Rightarrow> netmap_info \<times> xenvif \<Rightarrow> (u8 list option list \<times> netmap_info \<times> xenvif) option" where
  "tx_rounds A B [] s = Some ([], s)"
| "tx_rounds A B (p # ps) s = do {
     (out, s) \<leftarrow> tx_round A B p s;
     (outs, s) \<leftarrow> tx_rounds A B ps s;
     Some (out @ outs, s)
   }"

text \<open>Between two rounds everything published was forwarded and the front end may kick.\<close>

definition round_ready :: "netmap_info \<times> xenvif \<Rightarrow> bool" where
  "round_ready s \<longleftrightarrow> (case s of (np, vif) \<Rightarrow>
     wf_tx np \<and> tx_in_sync np \<and> host_need_txkick (ni_stat np) \<noteq> 0 \<and> nf_carrier np
   \<and> r_cur (ni_tx_rings np) \<noteq> r_tail (ni_tx_rings np) \<and> 2 \<le> length (r_slots (ni_tx_rings np))
   \<and> nkr_num_slots (v_tx_kring vif) = num_slots (ni_tx_rings np)
   \<and> nr_hwcur (v_tx_kring vif) = r_cur (ni_tx_rings np)
   \<and> back_up vif \<and> vw_guest_need_rxkick (v_vwna vif) \<noteq> 0)"

lemma xmit_kick_head:
  assumes "netfront_netmap_xmit A np buf len = Some (1, np')" "host_need_txkick (ni_stat np) \<noteq> 0"
  shows "r_head (ni_tx_rings np') = r_cur (ni_tx_rings np')" "num_slots (ni_tx_rings np') = num_slots (ni_tx_rings np)"
  using assms
  by (auto simp: netfront_netmap_xmit_def notify_def bind_eq_Some_conv Let_def split: if_splits)

lemma thread_after_kick:
  assumes "back_up vif" "vw_guest_need_rxkick (v_vwna vif) \<noteq> 0"
  shows "kthread_pass B (snd (xenvif_netmap_irqsched vif 1)) =
     vif\<lparr>v_vwna := (v_vwna vif)\<lparr>vw_guest_need_txkick := 0\<rparr>, v_awake := True,
         v_tx_kring := b_nm_txsync B (b_txsync_prologue B (v_tx_kring vif)),
         v_events := v_events vif @ [Notify_front Tx_irq]\<rparr>"
    "v_tx_kring (snd (xenvif_netmap_irqsched vif 1)) = v_tx_kring vif"
  using assms
  by (simp_all add: kthread_pass_def xenvif_netmap_irqsched_def xenvif_netmap_irq_def irq_tx_sync_def
      irq_tx_clear_def irq_tx_notify_def post_def back_up_def tx_work_todo_def rx_work_todo_def)

text \<open>A sync hands over what was published since the last one and makes all slots free.\<close>

lemma sync_hands_over:
  assumes "sync_ok B" "wf_ring (k_ring k)" "nkr_num_slots k = num_slots (k_ring k)"
    and "r_head (k_ring k) = r_cur (k_ring k)" "2 \<le> length (r_slots (k_ring k))"
  obtains t where "handed (b_txsync_prologue B k) bufs =
       map (cell_get sh_addr (r_slots (k_ring k), bufs))
         (ring_seq (length (r_slots (k_ring k))) (unat (nr_hwcur k))
           (ring_dist (length (r_slots (k_ring k))) (unat (nr_hwcur k)) (unat (r_cur (k_ring k)))))"
    "k_ring (b_nm_txsync B (b_txsync_prologue B k)) = k_ring k\<lparr>r_tail := t\<rparr>" "t < num_slots (k_ring k)"
    "t \<noteq> r_cur (k_ring k)" "nr_hwcur (b_nm_txsync B (b_txsync_prologue B k)) = r_cur (k_ring k)"
    "nkr_num_slots (b_nm_txsync B (b_txsync_prologue B k)) = nkr_num_slots k"
    "r_slots (k_ring (b_txsync_prologue B k)) = r_slots (k_ring k)"
proof -
  let ?p = "b_txsync_prologue B k" and ?c = "r_cur (k_ring k)" and ?N = "num_slots (k_ring k)"
  have c: "?c < ?N" "unat ?N = length (r_slots (k_ring k))" using assms(2) by (auto simp: wf_ring_def)
  obtain t0 where p: "nr_rhead ?p = ?c" "nr_hwcur ?p = nr_hwcur k" "nkr_num_slots ?p = ?N"
    "k_ring ?p = k_ring k\<lparr>r_tail := t0\<rparr>"
    using assms(1,3,4) c(1) unfolding sync_ok_def Let_def by metis
  let ?t = "if ?c = 0 then ?N - 1 else ?c - 1"
  have s: "nr_hwcur (b_nm_txsync B ?p) = ?c" "nkr_num_slots (b_nm_txsync B ?p) = ?N"
    "k_ring (b_nm_txsync B ?p) = k_ring k\<lparr>r_tail := ?t\<rparr>"
    using assms(1) c(1) p by (simp_all add: sync_ok_def Let_def)
  have N: "2 \<le> unat ?N" using assms(5) c(2) by simp
  have t: "?t < ?N \<and> ?t \<noteq> ?c"
  proof (cases "?c = 0")
    case True
    have "?N \<noteq> 0" using c(1) by auto
    then have "unat (?N - 1) = unat ?N - 1" by (simp add: unat_minus_one unat_gt_0)
    then show ?thesis using True N by (auto simp: word_less_nat_alt word_unat_eq_iff)
  next
    case False
    then have "unat (?c - 1) = unat ?c - 1" "0 < unat ?c" by (simp_all add: unat_minus_one unat_gt_0)
    then show ?thesis using False c(1) by (auto simp: word_less_nat_alt word_unat_eq_iff)
  qed
  have ha: "handed ?p bufs = map (cell_get sh_addr (r_slots (k_ring k), bufs))
         (ring_seq (length (r_slots (k_ring k))) (unat (nr_hwcur k))
           (ring_dist (length (r_slots (k_ring k))) (unat (nr_hwcur k)) (unat ?c)))"
    using p by (simp add: handed_def Let_def)
  show thesis
    by (rule that [OF ha s(3) conjunct1 [OF t] conjunct2 [OF t] s(1)]) (simp_all add: s(2) assms(3) p(4))
qed

text \<open>The steps of a round: what the front end leaves, the kring that the thread syncs, and the
  state after the thread.\<close>

definition synced_kring :: "xenvif \<Rightarrow> netmap_info \<Rightarrow> kring" where
  "synced_kring vif np = (v_tx_kring vif)\<lparr>k_ring := ni_tx_rings np\<rparr>"

definition after_thread :: "bridge_api \<Rightarrow> xenvif \<Rightarrow> netmap_info \<Rightarrow> xenvif" where
  "after_thread B vif np = kthread_pass B (snd (xenvif_netmap_irqsched (vif\<lparr>v_tx_kring := synced_kring vif np\<rparr>) 1))"

definition after_interrupt :: "bridge_api \<Rightarrow> xenvif \<Rightarrow> netmap_info \<Rightarrow> netmap_info" where
  "after_interrupt B vif np =
     netfront_tx_interrupt (np\<lparr>ni_tx_rings := k_ring (v_tx_kring (after_thread B vif np))\<rparr>)"

lemma tx_round_steps:
  assumes A: "api_ok A" and B: "sync_ok B" and ready: "round_ready (np, vif)" and fit: "length pkt \<le> 2048"
  obtains np1 where "netfront_netmap_xmit A np pkt (of_nat (length pkt)) = Some (1, np1)"
    "wf_tx np1" "length (r_slots (ni_tx_rings np1)) = length (r_slots (ni_tx_rings np))"
    "v_tx_kring (snd (xenvif_netmap_irqsched (vif\<lparr>v_tx_kring := synced_kring vif np1\<rparr>) 1)) = synced_kring vif np1"
    "handed (b_txsync_prologue B (synced_kring vif np1)) (ni_tx_bufs np1) = [Some pkt]"
    "r_slots (k_ring (b_txsync_prologue B (synced_kring vif np1))) = r_slots (ni_tx_rings np1)"
    "r_slots (k_ring (v_tx_kring (after_thread B vif np1))) = r_slots (ni_tx_rings np1)"
    "round_ready (after_interrupt B vif np1, after_thread B vif np1)"
    "nf_events (after_interrupt B vif np1) = nf_events np @ [Notify Tx_irq, Wake Tx_irq]"
    "v_events (after_thread B vif np1) = v_events vif @ [Notify_front Tx_irq]"
    "ni_tx_bufs (after_interrupt B vif np1) = ni_tx_bufs np1"
proof -
  let ?n = "length (r_slots (ni_tx_rings np))" and ?c = "unat (r_cur (ni_tx_rings np))"
  have r: "wf_tx np" "tx_in_sync np" "host_need_txkick (ni_stat np) \<noteq> 0" "nf_carrier np"
    "r_cur (ni_tx_rings np) \<noteq> r_tail (ni_tx_rings np)" "2 \<le> ?n"
    "nkr_num_slots (v_tx_kring vif) = num_slots (ni_tx_rings np)"
    "nr_hwcur (v_tx_kring vif) = r_cur (ni_tx_rings np)"
    "back_up vif" "vw_guest_need_rxkick (v_vwna vif) \<noteq> 0"
    using ready by (simp_all add: round_ready_def)
  have f: "cell_fits pkt" using fit by (simp add: cell_fits_def BUF_SIZE_def)
  note u = xmit_packet_len [OF f]
  have l: "unat (of_nat (length pkt) :: u32) \<le> BUF_SIZE" "unat (of_nat (length pkt) :: u32) \<le> length pkt"
    using u f by (simp_all add: cell_fits_def)
  have c: "?c < ?n" using r(1) by (auto simp: wf_tx_def wf_ring_def word_less_nat_alt)
  have d: "ring_dist ?n ?c ?c + 1 < ?n" using r(6) by simp
  obtain np1 where x: "netfront_netmap_xmit A np pkt (of_nat (length pkt)) = Some (1, np1)"
    and pub: "published np1 ?c = published np ?c @ [Some (take (unat (of_nat (length pkt) :: u32)) pkt)]"
    and w: "wf_tx np1" "tx_in_sync np1" "nf_events np1 = nf_events np @ [Notify Tx_irq]" "nf_carrier np1 = nf_carrier np"
      "length (r_slots (ni_tx_rings np1)) = ?n"
    using xmit_publishes [OF A r(1-3,5) l c d] by blast
  note h = xmit_kick_head [OF x r(3)]
  let ?k = "(v_tx_kring vif)\<lparr>k_ring := ni_tx_rings np1\<rparr>"
  let ?v = "vif\<lparr>v_tx_kring := ?k\<rparr>"
  have wk: "wf_ring (k_ring ?k)" "nkr_num_slots ?k = num_slots (k_ring ?k)" "r_head (k_ring ?k) = r_cur (k_ring ?k)"
    "2 \<le> length (r_slots (k_ring ?k))"
    using w(1,5) r(6,7) h by (simp_all add: wf_tx_def)
  obtain t where s: "handed (b_txsync_prologue B ?k) (ni_tx_bufs np1) =
       map (cell_get sh_addr (r_slots (k_ring ?k), ni_tx_bufs np1))
         (ring_seq (length (r_slots (k_ring ?k))) (unat (nr_hwcur ?k))
           (ring_dist (length (r_slots (k_ring ?k))) (unat (nr_hwcur ?k)) (unat (r_cur (k_ring ?k)))))"
    "k_ring (b_nm_txsync B (b_txsync_prologue B ?k)) = k_ring ?k\<lparr>r_tail := t\<rparr>" "t < num_slots (k_ring ?k)"
    "t \<noteq> r_cur (k_ring ?k)" "nr_hwcur (b_nm_txsync B (b_txsync_prologue B ?k)) = r_cur (k_ring ?k)"
    "nkr_num_slots (b_nm_txsync B (b_txsync_prologue B ?k)) = nkr_num_slots ?k"
    "r_slots (k_ring (b_txsync_prologue B ?k)) = r_slots (k_ring ?k)"
    by (rule sync_hands_over [OF B wk])
  have "handed (b_txsync_prologue B ?k) (ni_tx_bufs np1) = published np1 ?c"
    unfolding s(1) using r(8) w(5) by (simp add: published_def tx_cells_def Let_def)
  also have "\<dots> = [Some pkt]" using pub u by (simp add: published_def Let_def)
  finally have out: "handed (b_txsync_prologue B ?k) (ni_tx_bufs np1) = [Some pkt]" .
  have v: "back_up ?v" "vw_guest_need_rxkick (v_vwna ?v) \<noteq> 0" using r(9,10) by (simp_all add: back_up_def)
  note th = thread_after_kick [OF v]
  let ?v' = "after_thread B vif np1" and ?np' = "after_interrupt B vif np1"
  have k: "synced_kring vif np1 = ?k" by (simp add: synced_kring_def)
  have v': "?v' = kthread_pass B (snd (xenvif_netmap_irqsched ?v 1))" by (simp add: after_thread_def k)
  have np': "?np' = netfront_tx_interrupt (np1\<lparr>ni_tx_rings := k_ring (v_tx_kring ?v')\<rparr>)"
    by (simp add: after_interrupt_def)
  have "round_ready (?np', ?v')"
    unfolding np' v' th using w r h s(2-6)
    by (auto simp: round_ready_def netfront_tx_interrupt_def wake_def wf_tx_def wf_ring_def tx_cells_def
        tx_in_sync_def back_up_def)
  moreover have "nf_events ?np' = nf_events np @ [Notify Tx_irq, Wake Tx_irq]"
    using w(3,4) r(4) by (simp add: np' netfront_tx_interrupt_def wake_def)
  moreover have "ni_tx_bufs ?np' = ni_tx_bufs np1" by (simp add: np' netfront_tx_interrupt_def wake_def)
  moreover have "v_events ?v' = v_events vif @ [Notify_front Tx_irq]" by (simp add: v' th)
  moreover have "r_slots (k_ring (v_tx_kring ?v')) = r_slots (ni_tx_rings np1)" using s(2) by (simp add: v' th)
  moreover have "v_tx_kring (snd (xenvif_netmap_irqsched ?v 1)) = ?k" unfolding th(2) by simp
  moreover have "r_slots (k_ring (b_txsync_prologue B ?k)) = r_slots (ni_tx_rings np1)" using s(7) by simp
  ultimately show thesis using that [OF x w(1,5)] out unfolding k by blast
qed

lemma tx_round_delivers:
  assumes "api_ok A" "sync_ok B" "round_ready (np, vif)" "length pkt \<le> 2048"
  obtains np' vif' where "tx_round A B pkt (np, vif) = Some ([Some pkt], np', vif')" "round_ready (np', vif')"
    "nf_events np' = nf_events np @ [Notify Tx_irq, Wake Tx_irq]"
    "v_events vif' = v_events vif @ [Notify_front Tx_irq]"
proof -
  obtain np1 where s: "netfront_netmap_xmit A np pkt (of_nat (length pkt)) = Some (1, np1)"
    "v_tx_kring (snd (xenvif_netmap_irqsched (vif\<lparr>v_tx_kring := synced_kring vif np1\<rparr>) 1)) = synced_kring vif np1"
    "handed (b_txsync_prologue B (synced_kring vif np1)) (ni_tx_bufs np1) = [Some pkt]"
    and r: "round_ready (after_interrupt B vif np1, after_thread B vif np1)"
    "nf_events (after_interrupt B vif np1) = nf_events np @ [Notify Tx_irq, Wake Tx_irq]"
    "v_events (after_thread B vif np1) = v_events vif @ [Notify_front Tx_irq]"
    by (rule tx_round_steps [OF assms])
  have "tx_round A B pkt (np, vif) = Some ([Some pkt], after_interrupt B vif np1, after_thread B vif np1)"
    using s by (simp add: tx_round_def after_interrupt_def after_thread_def synced_kring_def Let_def)
  then show thesis using that r by blast
qed

lemma tx_rounds_deliver:
  assumes "api_ok A" "sync_ok B" "round_ready (np, vif)" "\<forall>p \<in> set ps. length p \<le> 2048"
  shows "\<exists>np' vif'. tx_rounds A B ps (np, vif) = Some (map Some ps, np', vif') \<and> round_ready (np', vif')
     \<and> nf_events np' = nf_events np @ concat (replicate (length ps) [Notify Tx_irq, Wake Tx_irq])
     \<and> v_events vif' = v_events vif @ replicate (length ps) (Notify_front Tx_irq)"
  using assms
proof (induction ps arbitrary: np vif)
  case Nil
  then show ?case by simp
next
  case (Cons p ps)
  have p: "length p \<le> 2048" "\<forall>p \<in> set ps. length p \<le> 2048" using Cons.prems(4) by simp_all
  obtain np1 vif1 where r: "tx_round A B p (np, vif) = Some ([Some p], np1, vif1)" "round_ready (np1, vif1)"
    "nf_events np1 = nf_events np @ [Notify Tx_irq, Wake Tx_irq]"
    "v_events vif1 = v_events vif @ [Notify_front Tx_irq]"
    by (rule tx_round_delivers [OF Cons.prems(1-3) p(1)])
  show ?case using Cons.IH [OF Cons.prems(1,2) r(2) p(2)] r by auto
qed

text \<open>C3: Packets that the front end transmits one by one, each with its kick, reach the bridge
  in order and byte for byte: in every round the thread of the back end hands exactly this
  packet to the bridge, with one notification in each direction, and then the front end may
  kick again and the ring is free again, so that any number of packets gets through.\<close>
theorem sent_packets_forwarded:
  assumes "api_ok A" "sync_ok B" "round_ready (np, vif)" "\<forall>p \<in> set ps. length p \<le> 2048"
  shows "\<exists>np' vif'. tx_rounds A B ps (np, vif) = Some (map Some ps, np', vif') \<and> round_ready (np', vif')
     \<and> nf_events np' = nf_events np @ concat (replicate (length ps) [Notify Tx_irq, Wake Tx_irq])
     \<and> v_events vif' = v_events vif @ replicate (length ps) (Notify_front Tx_irq)"
  using assms by (rule tx_rounds_deliver)

definition sample_sync :: bridge_api where
  "sample_sync = sample_bridge\<lparr>b_txsync_prologue := \<lambda>k. k\<lparr>nr_rhead := r_head (k_ring k)\<rparr>,
     b_nm_txsync := \<lambda>k. k\<lparr>nr_hwcur := nr_rhead k, k_ring := k_ring k\<lparr>r_tail :=
       if nr_rhead k = 0 then nkr_num_slots k - 1 else nr_rhead k - 1\<rparr>\<rparr>\<rparr>"

lemma sample_sync_ok: "sync_ok sample_sync"
proof -
  have "\<exists>t. x = x\<lparr>r_tail := t\<rparr>" for x :: nring by (rule exI [of _ "r_tail x"]) simp
  then show ?thesis by (simp add: sync_ok_def sample_sync_def Let_def)
qed

theorem sent_packets_forwarded_witness:
  "\<exists>np' vif'. tx_rounds sample_api sample_sync [[5], [6, 7], [8], [9]] (sample_info, sample_vif)
       = Some ([Some [5], Some [6, 7], Some [8], Some [9]], np', vif')
     \<and> length (v_events vif') = 4"
proof -

  have r: "round_ready (sample_info, sample_vif)"
    using sample_wf_tx
    by (simp add: round_ready_def) (simp add: sample_defs sample_vif_def back_up_def)
  have fit: "\<forall>p \<in> set [[5], [6, 7], [8], [9 :: u8]]. length p \<le> 2048" by simp
  have e: "v_events sample_vif = []" "map Some [[5], [6, 7], [8], [9 :: u8]] = [Some [5], Some [6, 7], Some [8], Some [9]]"
    "length [[5], [6, 7], [8], [9 :: u8]] = 4"
    by (simp_all add: sample_vif_def)
  obtain np' vif' where "tx_rounds sample_api sample_sync [[5], [6, 7], [8], [9]] (sample_info, sample_vif)
       = Some ([Some [5], Some [6, 7], Some [8], Some [9]], np', vif')"
    "v_events vif' = replicate 4 (Notify_front Tx_irq)"
    using sent_packets_forwarded [OF sample_api_ok sample_sync_ok r fit] unfolding e append_Nil by blast
  then show ?thesis by (metis length_replicate)
qed

end
