(* ===== verification/Shared_Traffic.thy ===== *)
theory Shared_Traffic
  imports Shared_Memory Tx_Delivery Rx_Delivery
begin

text \<open>
  The two ways of packets over the memory of the machine: the front end stores and loads at
  the addresses of its mapping, the bridge at the addresses that its lookup table gives for
  the slots. Where the mapping is right, the rounds of \<open>Tx_Delivery\<close> and the reception of
  \<open>Rx_Delivery\<close> run on the one memory.
\<close>

text \<open>The packets that a sync hands to the bridge, and those the bridge has left for the front
  end, as they are in memory.\<close>

definition handed_mem :: "xen_api \<Rightarrow> (u32 \<Rightarrow> nat) \<Rightarrow> kring \<Rightarrow> memory \<Rightarrow> u8 list option list" where
  "handed_mem X lut k mem =
     (let ss = r_slots (k_ring k); n = length ss
      in map (back_cell X lut mem ss)
           (ring_seq n (unat (nr_hwcur k)) (ring_dist n (unat (nr_hwcur k)) (unat (nr_rhead k)))))"

definition waiting_mem :: "xen_api \<Rightarrow> (u32 \<Rightarrow> nat) \<Rightarrow> kring \<Rightarrow> memory \<Rightarrow> u8 list option list" where
  "waiting_mem X lut k mem =
     (let r = k_ring k; n = length (r_slots r)
      in map (back_cell X lut mem (r_slots r))
           (ring_seq n (unat (r_cur r)) (ring_dist n (unat (r_cur r)) (unat (nr_hwtail k)))))"

lemma cells_in_memory:
  assumes "linked X lut domid g rd va (map s_buf_idx ss)" "front_area domid g rd (length ss) mem = Some bufs"
    and "\<forall>s \<in> set ss. unat (s_len s) \<le> 2048" "0 < length ss"
  shows "map (back_cell X lut mem ss) (ring_seq (length ss) i k) = map (cell_get sh_addr (ss, bufs)) (ring_seq (length ss) i k)"
proof (rule map_cong [OF refl])
  fix j assume "j \<in> set (ring_seq (length ss) i k)"
  then have "j < length ss" by (rule set_ring_seq_less [OF assms(4)])
  then show "back_cell X lut mem ss j = cell_get sh_addr (ss, bufs) j"
    using back_cell_eq [OF assms(1,2)] assms(3) by simp
qed

section \<open>Transmission\<close>

text \<open>One round over the memory: the front end finds the buffers through its mapping and leaves
  them there; what the bridge is handed it reads at its own addresses.\<close>

definition mem_round ::
  "netmap_api \<Rightarrow> bridge_api \<Rightarrow> xen_api \<Rightarrow> (u32 \<Rightarrow> nat) \<Rightarrow> nat \<Rightarrow> grants \<Rightarrow> netmap_gnt \<Rightarrow> u8 list
     \<Rightarrow> netmap_info \<times> xenvif \<times> memory \<Rightarrow> (u8 list option list \<times> netmap_info \<times> xenvif \<times> memory) option" where
  "mem_round A B X lut domid g rd pkt s = (case s of (np, vif, mem) \<Rightarrow> do {
     bufs \<leftarrow> front_area domid g rd (length (r_slots (ni_tx_rings np))) mem;
     (sent, np) \<leftarrow> netfront_netmap_xmit A (np\<lparr>ni_tx_bufs := bufs\<rparr>) pkt (of_nat (length pkt));
     mem \<leftarrow> store_area domid g rd (ni_tx_bufs np) mem;
     let vif = vif\<lparr>v_tx_kring := (v_tx_kring vif)\<lparr>k_ring := ni_tx_rings np\<rparr>\<rparr>;
     let vif = snd (xenvif_netmap_irqsched vif 1);
     let out = handed_mem X lut (b_txsync_prologue B (v_tx_kring vif)) mem;
     let vif = kthread_pass B vif;
     let np = np\<lparr>ni_tx_rings := k_ring (v_tx_kring vif)\<rparr>;
     Some (out, netfront_tx_interrupt np, vif, mem)
   })"

fun mem_rounds ::
  "netmap_api \<Rightarrow> bridge_api \<Rightarrow> xen_api \<Rightarrow> (u32 \<Rightarrow> nat) \<Rightarrow> nat \<Rightarrow> grants \<Rightarrow> netmap_gnt \<Rightarrow> u8 list list
     \<Rightarrow> netmap_info \<times> xenvif \<times> memory \<Rightarrow> (u8 list option list \<times> netmap_info \<times> xenvif \<times> memory) option" where
  "mem_rounds A B X lut domid g rd [] s = Some ([], s)"
| "mem_rounds A B X lut domid g rd (p # ps) s = do {
     (out, s) \<leftarrow> mem_round A B X lut domid g rd p s;
     (outs, s) \<leftarrow> mem_rounds A B X lut domid g rd ps s;
     Some (out @ outs, s)
   }"

definition mem_ready ::
  "xen_api \<Rightarrow> (u32 \<Rightarrow> nat) \<Rightarrow> nat \<Rightarrow> grants \<Rightarrow> netmap_gnt \<Rightarrow> nat \<Rightarrow> netmap_info \<times> xenvif \<times> memory \<Rightarrow> bool" where
  "mem_ready X lut domid g rd va s \<longleftrightarrow> (case s of (np, vif, mem) \<Rightarrow>
     linked X lut domid g rd va (map s_buf_idx (r_slots (ni_tx_rings np)))
   \<and> (\<exists>bufs. front_area domid g rd (length (r_slots (ni_tx_rings np))) mem = Some bufs
        \<and> round_ready (np\<lparr>ni_tx_bufs := bufs\<rparr>, vif)))"

text \<open>Sending a packet keeps the numbers of the buffers and the size of their area.\<close>

lemma xmit_shape:
  assumes "netfront_netmap_xmit A np buf len = Some (r, np')"
  shows "map s_buf_idx (r_slots (ni_tx_rings np')) = map s_buf_idx (r_slots (ni_tx_rings np))"
    "length (ni_tx_bufs np') = length (ni_tx_bufs np)"
proof -
  have idx: "map s_buf_idx (ss[i := s\<lparr>s_len := l\<rparr>]) = map s_buf_idx ss" if "arr_get ss i = Some s" for ss i s l
    using that by (auto simp: arr_get_conv map_update list_update_same_conv)
  show "map s_buf_idx (r_slots (ni_tx_rings np')) = map s_buf_idx (r_slots (ni_tx_rings np))"
    "length (ni_tx_bufs np') = length (ni_tx_bufs np)"
    using assms
    by (auto simp: netfront_netmap_xmit_def notify_def bind_eq_Some_conv Let_def idx
        split: if_splits dest: wr_bytes_length)
qed

lemma mem_round_delivers:
  assumes A: "api_ok A" and B: "sync_ok B" and ready: "mem_ready X lut domid g rd va (np, vif, mem)"
    and fit: "length pkt \<le> 2048"
  obtains np' vif' mem' where "mem_round A B X lut domid g rd pkt (np, vif, mem) = Some ([Some pkt], np', vif', mem')"
    "mem_ready X lut domid g rd va (np', vif', mem')"
    "nf_events np' = nf_events np @ [Notify Tx_irq, Wake Tx_irq]"
    "v_events vif' = v_events vif @ [Notify_front Tx_irq]"
proof -
  let ?idxs = "map s_buf_idx (r_slots (ni_tx_rings np))" and ?n = "length (r_slots (ni_tx_rings np))"
  obtain bufs where l: "linked X lut domid g rd va ?idxs" and a: "front_area domid g rd ?n mem = Some bufs"
    and r: "round_ready (np\<lparr>ni_tx_bufs := bufs\<rparr>, vif)"
    using ready by (auto simp: mem_ready_def)
  have lb: "length bufs = 2048 * ?n" using front_area_eq [OF l, of mem] a by auto
  obtain np1 where s: "netfront_netmap_xmit A (np\<lparr>ni_tx_bufs := bufs\<rparr>) pkt (of_nat (length pkt)) = Some (1, np1)"
    "wf_tx np1" "length (r_slots (ni_tx_rings np1)) = length (r_slots (ni_tx_rings (np\<lparr>ni_tx_bufs := bufs\<rparr>)))"
    "v_tx_kring (snd (xenvif_netmap_irqsched (vif\<lparr>v_tx_kring := synced_kring vif np1\<rparr>) 1)) = synced_kring vif np1"
    "handed (b_txsync_prologue B (synced_kring vif np1)) (ni_tx_bufs np1) = [Some pkt]"
    "r_slots (k_ring (b_txsync_prologue B (synced_kring vif np1))) = r_slots (ni_tx_rings np1)"
    "r_slots (k_ring (v_tx_kring (after_thread B vif np1))) = r_slots (ni_tx_rings np1)"
    "round_ready (after_interrupt B vif np1, after_thread B vif np1)"
    "nf_events (after_interrupt B vif np1) = nf_events (np\<lparr>ni_tx_bufs := bufs\<rparr>) @ [Notify Tx_irq, Wake Tx_irq]"
    "v_events (after_thread B vif np1) = v_events vif @ [Notify_front Tx_irq]"
    "ni_tx_bufs (after_interrupt B vif np1) = ni_tx_bufs np1"
    by (rule tx_round_steps [OF A B r fit])
  have shape: "map s_buf_idx (r_slots (ni_tx_rings np1)) = ?idxs" "length (ni_tx_bufs np1) = 2048 * length ?idxs"
    using xmit_shape [OF s(1)] lb by simp_all
  obtain mem' where m: "store_area domid g rd (ni_tx_bufs np1) mem = Some mem'"
    "front_area domid g rd (length ?idxs) mem' = Some (ni_tx_bufs np1)"
    by (rule store_area_eq [OF l shape(2)])
  let ?k = "b_txsync_prologue B (synced_kring vif np1)" and ?ss = "r_slots (ni_tx_rings np1)"
  have n: "length ?ss = ?n" using s(3) by simp
  have lens: "\<forall>s \<in> set ?ss. unat (s_len s) \<le> 2048" using s(2) by (simp add: wf_tx_def lens_ok_def tx_cells_def BUF_SIZE_def)
  have pos: "0 < length ?ss" using r n by (auto simp: round_ready_def)
  have cells: "map (back_cell X lut mem' ?ss) (ring_seq (length ?ss) i k)
      = map (cell_get sh_addr (?ss, ni_tx_bufs np1)) (ring_seq (length ?ss) i k)" for i k
    by (rule cells_in_memory [OF _ _ lens pos]) (use l m(2) shape(1) n in simp_all)
  have out: "handed_mem X lut ?k mem' = [Some pkt]"
    using s(5) unfolding handed_mem_def handed_def Let_def s(6) cells .
  let ?np' = "after_interrupt B vif np1" and ?vif' = "after_thread B vif np1"
  have "mem_round A B X lut domid g rd pkt (np, vif, mem) = Some ([Some pkt], ?np', ?vif', mem')"
    using a s(1,4) m(1) out
    by (simp add: mem_round_def after_interrupt_def after_thread_def synced_kring_def Let_def)
  moreover have "mem_ready X lut domid g rd va (?np', ?vif', mem')"
  proof -
    have ss: "r_slots (ni_tx_rings ?np') = ?ss"
      using s(7) by (simp add: after_interrupt_def netfront_tx_interrupt_def wake_def)
    have "?np'\<lparr>ni_tx_bufs := ni_tx_bufs np1\<rparr> = ?np'" using s(11) by (metis netmap_info.surjective netmap_info.update_convs(4))
    then show ?thesis using l m(2) s(8) shape(1) n by (simp add: mem_ready_def ss)
  qed
  ultimately show thesis using that s(9,10) by simp
qed

lemma mem_rounds_deliver:
  assumes "api_ok A" "sync_ok B" "mem_ready X lut domid g rd va (np, vif, mem)" "\<forall>p \<in> set ps. length p \<le> 2048"
  shows "\<exists>np' vif' mem'. mem_rounds A B X lut domid g rd ps (np, vif, mem) = Some (map Some ps, np', vif', mem')
     \<and> v_events vif' = v_events vif @ replicate (length ps) (Notify_front Tx_irq)"
  using assms
proof (induction ps arbitrary: np vif mem)
  case Nil
  then show ?case by simp
next
  case (Cons p ps)
  have p: "length p \<le> 2048" "\<forall>p \<in> set ps. length p \<le> 2048" using Cons.prems(4) by simp_all
  obtain np1 vif1 mem1 where r: "mem_round A B X lut domid g rd p (np, vif, mem) = Some ([Some p], np1, vif1, mem1)"
    "mem_ready X lut domid g rd va (np1, vif1, mem1)" "v_events vif1 = v_events vif @ [Notify_front Tx_irq]"
    by (rule mem_round_delivers [OF Cons.prems(1-3) p(1)])
  show ?case using Cons.IH [OF Cons.prems(1,2) r(2) p(2)] r by auto
qed

section \<open>Reception\<close>

lemma waiting_in_memory:
  assumes "linked X lut domid g rd va (map s_buf_idx (r_slots (k_ring k)))"
    and "front_area domid g rd (length (r_slots (k_ring k))) mem = Some bufs"
    and "\<forall>s \<in> set (r_slots (k_ring k)). unat (s_len s) \<le> 2048" "r_slots (k_ring k) \<noteq> []"
  shows "waiting_mem X lut k mem = waiting k bufs"
  unfolding waiting_mem_def waiting_def Let_def using assms(4) by (intro cells_in_memory [OF assms(1-3)]) simp

end
