(* ===== verification/Kick_Progress.thy ===== *)
theory Kick_Progress
  imports Kick_Protocol
begin

text \<open>
  What the handlers of \<open>Kick_Protocol\<close> come to when nobody calls \<open>xmit\<close>, a sync method or
  the bridge any more: a measure of the pending events and of the place of the thread goes
  down with every handler, so that every run of handlers ends, and the invariants say where
  the rights to notify are at its end.
\<close>

text \<open>
  An event of the back end can set a flag and wake the thread; a set flag makes the thread
  go through its three steps, of which the last notifies the front end. The flag does not
  count while the thread is about to clear it.
\<close>

fun phase_rank :: "phase \<Rightarrow> nat" where
  "phase_rank Idle = 0" | "phase_rank Synced = 3" | "phase_rank Cleared = 2"

definition kick_rank :: "proto \<Rightarrow> nat" where
  "kick_rank s =
     6 * of_bool (p_to_back_tx s) + 2 * of_bool (p_to_back_rx s)
   + of_bool (p_to_front_tx s) + of_bool (p_to_front_rx s) + phase_rank (p_phase s)
   + 4 * of_bool (p_phase s \<noteq> Synced \<and> tx_work_todo (v_vwna (p_back s)))
   + of_bool (rx_work_todo (v_vwna (p_back s))) + of_bool (v_awake (p_back s))"

text \<open>The longest run starts with all four events pending and the thread about to notify.\<close>

lemma kick_rank_bound: "kick_rank s \<le> 20"
  by (cases "p_phase s") (simp_all add: kick_rank_def of_bool_def)

lemma irqsched_cases:
  "snd (xenvif_netmap_irqsched vif tx) = vif \<or>
   v_vwna (snd (xenvif_netmap_irqsched vif tx)) =
     (if tx \<noteq> 0 then (v_vwna vif)\<lparr>vw_guest_need_txkick := 1\<rparr> else v_vwna vif)"
  by (simp add: xenvif_netmap_irqsched_def Let_def)

lemma hstep_rank:
  assumes "hstep B s s'"
  shows "kick_rank s' < kick_rank s"
  using assms
proof (cases rule: hstep.cases)
  case back_tx
  then show ?thesis using irqsched_cases [of "p_back s" 1]
    by (auto simp: kick_rank_def tx_work_todo_def rx_work_todo_def of_bool_def)
next
  case back_rx
  then show ?thesis using irqsched_cases [of "p_back s" 0]
    by (auto simp: kick_rank_def tx_work_todo_def rx_work_todo_def of_bool_def)
next
  case thread_notify
  then show ?thesis by (auto simp: kick_rank_def of_bool_def)
next
  case thread_sync
  then show ?thesis by (auto simp: kick_rank_def of_bool_def)
next
  case thread_clear
  then show ?thesis by (auto simp: kick_rank_def tx_work_todo_def rx_work_todo_def of_bool_def)
next
  case thread_rx
  then show ?thesis by (auto simp: kick_rank_def tx_work_todo_def rx_work_todo_def of_bool_def)
qed (auto simp: kick_rank_def of_bool_def)

text \<open>A run from a state: each state is one step after the one before.\<close>

fun steps_run :: "('s \<Rightarrow> 's \<Rightarrow> bool) \<Rightarrow> 's \<Rightarrow> 's list \<Rightarrow> bool" where
  "steps_run step s [] = True"
| "steps_run step s (t # ts) = (step s t \<and> steps_run step t ts)"

definition stuck :: "('s \<Rightarrow> 's \<Rightarrow> bool) \<Rightarrow> 's \<Rightarrow> bool" where
  "stuck step s \<longleftrightarrow> (\<forall>s'. \<not> step s s')"

abbreviation hrun :: "bridge_api \<Rightarrow> proto \<Rightarrow> proto list \<Rightarrow> bool" where
  "hrun B \<equiv> steps_run (hstep B)"

abbreviation drained :: "bridge_api \<Rightarrow> proto \<Rightarrow> bool" where
  "drained B \<equiv> stuck (hstep B)"

text \<open>Steps that lower a rank come to an end.\<close>

locale ranked_steps =
  fixes step :: "'s \<Rightarrow> 's \<Rightarrow> bool" and rank :: "'s \<Rightarrow> nat"
  assumes falls: "step s t \<Longrightarrow> rank t < rank s"
begin

lemma run_rank: "steps_run step s ts \<Longrightarrow> rank (last (s # ts)) + length ts \<le> rank s"
proof (induction ts arbitrary: s)
  case (Cons t ts)
  then have "rank (last (t # ts)) + length ts \<le> rank t" "rank t < rank s"
    using falls by auto
  then show ?case by simp
qed simp

lemma run_length: "steps_run step s ts \<Longrightarrow> length ts \<le> rank s"
  using run_rank [of s ts] by linarith

lemma run_stuck: "\<exists>ts. steps_run step s ts \<and> stuck step (last (s # ts))"
proof (induction "rank s" arbitrary: s rule: less_induct)
  case less
  show ?case
  proof (cases "stuck step s")
    case True
    then show ?thesis by (intro exI [of _ "[]"]) simp
  next
    case False
    then obtain t where t: "step s t" by (auto simp: stuck_def)
    then obtain ts where "steps_run step t ts" "stuck step (last (t # ts))"
      using less [OF falls] by blast
    then show ?thesis using t by (intro exI [of _ "t # ts"]) simp
  qed
qed

end

interpretation handlers: ranked_steps "hstep B" kick_rank for B
  by unfold_locales (rule hstep_rank)

lemma hrun_reaches: "preach A B s0 s \<Longrightarrow> hrun B s ts \<Longrightarrow> preach A B s0 (last (s # ts))"
proof (induction ts arbitrary: s)
  case (Cons t ts)
  then have "preach A B s0 t" by (auto intro: preach.step pstep.handler)
  then show ?case using Cons by simp
qed simp

text \<open>No handler can run exactly when nothing is pending and the thread sleeps.\<close>

inductive_cases hstep_E: "hstep B s s'"

lemma drained_iff:
  "drained B s \<longleftrightarrow> \<not> p_to_back_tx s \<and> \<not> p_to_back_rx s \<and> \<not> p_to_front_tx s \<and> \<not> p_to_front_rx s
     \<and> p_phase s = Idle \<and> \<not> v_awake (p_back s)"
proof
  assume "drained B s"
  then have no: "\<not> hstep B s s'" for s' by (simp add: stuck_def)
  have idle: "p_phase s = Idle"
    using no hstep.thread_clear hstep.thread_notify by (cases "p_phase s") blast+
  then have "\<not> v_awake (p_back s)"
    using no hstep.thread_sync hstep.thread_rx hstep.thread_sleep unfolding work_todo_def by blast
  then show "\<not> p_to_back_tx s \<and> \<not> p_to_back_rx s \<and> \<not> p_to_front_tx s \<and> \<not> p_to_front_rx s
     \<and> p_phase s = Idle \<and> \<not> v_awake (p_back s)"
    using no idle hstep.back_tx hstep.back_rx hstep.front_tx hstep.front_rx by blast
qed (auto simp: stuck_def elim: hstep_E)

lemma drained_rights:
  assumes "kick_inv s" "drained B s"
  shows "host_need_txkick (ni_stat (p_front s)) \<noteq> 0"
    "vw_guest_need_rxkick (v_vwna (p_back s)) \<noteq> 0 \<or> host_need_rxkick (ni_stat (p_front s)) \<noteq> 0"
proof -
  note q = assms(2) [unfolded drained_iff]
  show "host_need_txkick (ni_stat (p_front s)) \<noteq> 0"
    using assms(1) q by (auto simp: kick_inv_def tx_tokens_def tx_work_todo_def)
  show "vw_guest_need_rxkick (v_vwna (p_back s)) \<noteq> 0 \<or> host_need_rxkick (ni_stat (p_front s)) \<noteq> 0"
    using assms(1) q by (simp add: kick_inv_def)
qed

lemma drained_synced: "one_token_inv s \<Longrightarrow> drained B s \<Longrightarrow> \<not> p_unsynced s"
  by (auto simp: drained_iff one_token_inv_def kick_inv_def tx_work_todo_def)

text \<open>C5: Whatever happened before, the event handlers and the thread come to rest by
  themselves: no run of them is longer than 20 steps, some run cannot be continued, and after
  every run that cannot be continued the front end may kick for its next packet and the back
  end may notify or the next receive sync will let it. If nothing but a wanted kick started the
  exchange, every published packet has then been synced.\<close>
theorem handlers_come_to_rest:
  assumes "pinit s0" "preach A B s0 s \<or> preach A B (attached s0) s"
  shows "(\<forall>ts. hrun B s ts \<longrightarrow> length ts \<le> 20) \<and> (\<exists>ts. hrun B s ts \<and> drained B (last (s # ts)))
     \<and> (\<forall>ts. hrun B s ts \<and> drained B (last (s # ts)) \<longrightarrow>
          (let t = last (s # ts)
           in host_need_txkick (ni_stat (p_front t)) \<noteq> 0
            \<and> (vw_guest_need_rxkick (v_vwna (p_back t)) \<noteq> 0 \<or> host_need_rxkick (ni_stat (p_front t)) \<noteq> 0)
            \<and> (preach A B s0 s \<longrightarrow> \<not> p_unsynced t)))"
proof (intro conjI allI impI)
  fix ts assume "hrun B s ts"
  then show "length ts \<le> 20" using handlers.run_length [of B s ts] kick_rank_bound [of s] by linarith
next
  show "\<exists>ts. hrun B s ts \<and> drained B (last (s # ts))" by (rule handlers.run_stuck)
next
  fix ts assume ts: "hrun B s ts \<and> drained B (last (s # ts))"
  then have "preach A B s0 (last (s # ts)) \<or> preach A B (attached s0) (last (s # ts))"
    using assms(2) hrun_reaches by blast
  then have k: "kick_inv (last (s # ts))" using kick_inv_init [OF assms(1)] kick.reached by blast
  have "\<not> p_unsynced (last (s # ts))" if "preach A B s0 s"
  proof -
    have "one_token_inv (last (s # ts))"
      using hrun_reaches [OF that] ts one_token_init [OF assms(1)] token.reached by blast
    then show ?thesis using drained_synced ts by blast
  qed
  then show "let t = last (s # ts)
           in host_need_txkick (ni_stat (p_front t)) \<noteq> 0
            \<and> (vw_guest_need_rxkick (v_vwna (p_back t)) \<noteq> 0 \<or> host_need_rxkick (ni_stat (p_front t)) \<noteq> 0)
            \<and> (preach A B s0 s \<longrightarrow> \<not> p_unsynced t)"
    using drained_rights [OF k, of B] ts unfolding Let_def by blast
qed

text \<open>The witness starts with the two notifications of the attach under way.\<close>

theorem handlers_come_to_rest_witness:
  "\<exists>ts. hrun sample_bridge (attached sample_proto) ts \<and> drained sample_bridge (last (attached sample_proto # ts))
     \<and> host_need_txkick (ni_stat (p_front (last (attached sample_proto # ts)))) \<noteq> 0 \<and> length ts \<le> 20"
proof -
  have "preach sample_api sample_bridge (attached sample_proto) (attached sample_proto)" by (rule preach.start)
  then show ?thesis
    using handlers_come_to_rest [OF sample_pinit disjI2, of sample_api sample_bridge "attached sample_proto"]
    unfolding Let_def by blast
qed

end
