(* ===== verification/Traffic_Start.thy ===== *)
theory Traffic_Start
  imports Handshake Shared_Traffic Kick_Progress
begin

text \<open>
  From the set-up to the traffic: what the registration of the back end (\<open>xenvif_netmap_reg\<close>)
  and the set-up of the front end (\<open>setup_netfront_netmap\<close>) leave is a state in which packets
  can be sent (\<open>Tx_Delivery\<close>) and in which the exchange of notifications starts
  (\<open>Kick_Protocol\<close>).
\<close>

text \<open>Sharing a ring changes the \<open>ptr\<close> fields of its slots and nothing else of it.\<close>

definition slot_shape :: "nslot \<Rightarrow> u32 \<times> u16" where
  "slot_shape s = (s_buf_idx s, s_len s)"

lemma shape_ptr: "arr_get slots i = Some s \<Longrightarrow> map slot_shape (slots[i := s\<lparr>s_ptr := v\<rparr>]) = map slot_shape slots"
  by (auto simp: arr_get_conv map_update list_update_same_conv slot_shape_def)

lemma buf_pages_loop_shape:
  "buf_pages_loop X lut n i slots b pages = Some (slots', b', pages') \<Longrightarrow> map slot_shape slots' = map slot_shape slots"
proof (induction "n - i" arbitrary: i slots b pages)
  case 0
  then show ?case by (simp add: buf_pages_loop.simps)
next
  case (Suc k)
  then have i: "i < n" "k = n - (i + 1)" by simp_all
  obtain s where s: "arr_get slots i = Some s" and
    "\<exists>v b1 pages1. buf_pages_loop X lut n (i + 1) (slots[i := s\<lparr>s_ptr := v\<rparr>]) b1 pages1 = Some (slots', b', pages')"
    using Suc.prems i(1)
    by (subst (asm) buf_pages_loop.simps) (auto simp: Let_def split: option.splits if_splits)
  then obtain v b1 pages1 where
    "buf_pages_loop X lut n (i + 1) (slots[i := s\<lparr>s_ptr := v\<rparr>]) b1 pages1 = Some (slots', b', pages')"
    by blast
  then show ?case using Suc.hyps(1) [OF i(2)] shape_ptr [OF s] by simp
qed

lemma grant_bufs_loop_shape:
  "grant_bufs_loop X domid n pages i j slots refs g = Some (slots', refs', g') \<Longrightarrow>
     map slot_shape slots' = map slot_shape slots"
proof (induction "n - i" arbitrary: i j slots refs g)
  case 0
  then show ?case by (simp add: grant_bufs_loop.simps)
next
  case (Suc k)
  then have i: "i < n" "k = n - (i + 1)" by simp_all
  obtain s where s: "arr_get slots i = Some s" and
    "\<exists>slots1 j1 refs1 g1. (slots1 = slots \<or> (\<exists>v. slots1 = slots[i := s\<lparr>s_ptr := v\<rparr>])) \<and>
       grant_bufs_loop X domid n pages (i + 1) j1 slots1 refs1 g1 = Some (slots', refs', g')"
    using Suc.prems i(1)
    by (subst (asm) grant_bufs_loop.simps)
       (auto simp: Let_def split_def split: option.splits if_splits; blast)
  then show ?case using Suc.hyps(1) [OF i(2)] shape_ptr [OF s] by metis
qed

lemma grant_ring_shape:
  assumes "xenvif_grant_ring X lut va ring n domid g = Some (gnt, ring', g')"
  shows "\<exists>ss. ring' = ring\<lparr>r_slots := ss\<rparr> \<and> map slot_shape ss = map slot_shape (r_slots ring)"
  using assms
  by (auto simp: xenvif_grant_ring_def nm_buf_pages_def bind_eq_Some_conv Let_def
      dest!: buf_pages_loop_shape grant_bufs_loop_shape)

lemma commit_rings [simp]:
  "bi_tx_ring (transaction_commit T xbt st b) = bi_tx_ring b" "bi_tx_ring (note_log e b) = bi_tx_ring b"
  "bi_rx_ring (transaction_commit T xbt st b) = bi_rx_ring b" "bi_rx_ring (note_log e b) = bi_rx_ring b"
  by (simp_all add: transaction_commit_def note_log_def)

definition same_slots :: "nring \<Rightarrow> nring \<Rightarrow> bool" where
  "same_slots r r' \<longleftrightarrow> (\<exists>ss. r' = r\<lparr>r_slots := ss\<rparr> \<and> map slot_shape ss = map slot_shape (r_slots r))"

lemma same_slots_refl: "same_slots r r"
  unfolding same_slots_def by (rule exI [of _ "r_slots r"]) simp

lemma same_slotsD:
  assumes "same_slots r r'"
  shows "num_slots r' = num_slots r" "r_head r' = r_head r" "r_cur r' = r_cur r" "r_tail r' = r_tail r"
    "length (r_slots r') = length (r_slots r)" "map s_buf_idx (r_slots r') = map s_buf_idx (r_slots r)"
    "map s_len (r_slots r') = map s_len (r_slots r)"
proof -
  obtain ss where ss: "r' = r\<lparr>r_slots := ss\<rparr>" "map slot_shape ss = map slot_shape (r_slots r)"
    using assms by (auto simp: same_slots_def)
  show "num_slots r' = num_slots r" "r_head r' = r_head r" "r_cur r' = r_cur r" "r_tail r' = r_tail r"
    by (simp_all add: ss(1))
  show "length (r_slots r') = length (r_slots r)" using map_eq_imp_length_eq [OF ss(2)] by (simp add: ss(1))
  have "map (fst \<circ> slot_shape) ss = map (fst \<circ> slot_shape) (r_slots r)" "map (snd \<circ> slot_shape) ss = map (snd \<circ> slot_shape) (r_slots r)"
    using ss(2) by (metis map_map)+
  then show "map s_buf_idx (r_slots r') = map s_buf_idx (r_slots r)" "map s_len (r_slots r') = map s_len (r_slots r)"
    by (simp_all add: ss(1) slot_shape_def comp_def)
qed

lemma map_shape:
  assumes "xenvif_netmap_map X lut T b = Some b'"
  shows "same_slots (bi_tx_ring b) (bi_tx_ring b')" "same_slots (bi_rx_ring b) (bi_rx_ring b')"
proof -
  have "same_slots (bi_tx_ring b) (bi_tx_ring b') \<and> same_slots (bi_rx_ring b) (bi_rx_ring b')"
  proof (cases "nr_ring_pgs (bi_nmtx b) \<noteq> 0")
    case True
    then show ?thesis using assms same_slots_refl by (auto simp: xenvif_netmap_map_def)
  next
    case False
    then obtain nmtx tx g nmrx rx h where
      "xenvif_grant_ring X lut (bi_tx_va b) (bi_tx_ring b) (unat (bi_num_tx_desc b)) (bi_domid b) (bi_grants b) = Some (nmtx, tx, g)"
      "xenvif_grant_ring X lut (bi_rx_va b) (bi_rx_ring b) (unat (bi_num_rx_desc b)) (bi_domid b) g = Some (nmrx, rx, h)"
      and "bi_tx_ring b' = tx" "bi_rx_ring b' = rx"
      using assms
      by (auto simp: xenvif_netmap_map_def bind_eq_Some_conv split_def Let_def split: if_splits)
    then show ?thesis using grant_ring_shape unfolding same_slots_def by metis
  qed
  then show "same_slots (bi_tx_ring b) (bi_tx_ring b')" "same_slots (bi_rx_ring b) (bi_rx_ring b')" by blast+
qed

section \<open>The state after the set-up\<close>

text \<open>What a side works on: the ring and the flags that the set-up leaves, the memory \<open>nm\<close> of its
  own netmap buffers, the interrupts and the kring that netmap keeps for the port. The areas of
  the shared buffers are left open: they are what the mapping shows of the machine's memory.\<close>

definition front_link :: "front_priv \<Rightarrow> u8 list \<Rightarrow> netmap_info" where
  "front_link p nm = \<lparr>ni_tx_rings = fp_tx_rings p, ni_rx_rings = fp_rx_rings p, ni_stat = fp_stat p,
     ni_tx_bufs = [], ni_rx_bufs = [], nf_mem = nm, nf_carrier = True, nf_native = True, nf_events = []\<rparr>"

definition back_link :: "netmap_vpwrap_adapter \<Rightarrow> u32 \<Rightarrow> u32 \<Rightarrow> kring \<Rightarrow> kring \<Rightarrow> xenvif" where
  "back_link w tx_irq rx_irq tk rk = \<lparr>v_carrier = True, v_na_bdg = True, v_vwna = w, v_tx_irq = tx_irq,
     v_rx_irq = rx_irq, v_tx_kring = tk, v_rx_kring = rk, v_awake = False, v_events = []\<rparr>"

definition quiet_link :: "netmap_info \<Rightarrow> xenvif \<Rightarrow> proto" where
  "quiet_link np vif = \<lparr>p_front = np, p_back = vif, p_to_back_tx = False, p_to_back_rx = False,
     p_to_front_tx = False, p_to_front_rx = False, p_phase = Idle, p_unsynced = False\<rparr>"

text \<open>A ring with room in it, of slots whose lengths fit into a buffer.\<close>

definition fresh_ring :: "nring \<Rightarrow> bool" where
  "fresh_ring r \<longleftrightarrow> wf_ring r \<and> num_slots r \<le> 0x10000 \<and> 2 \<le> length (r_slots r) \<and> r_cur r \<noteq> r_tail r
     \<and> (\<forall>l \<in> set (map s_len (r_slots r)). unat l \<le> BUF_SIZE)"

lemma fresh_ring_same: "fresh_ring r \<Longrightarrow> same_slots r r' \<Longrightarrow> fresh_ring r'"
  using same_slotsD [of r r'] by (simp add: fresh_ring_def wf_ring_def)

text \<open>The buffers of the shared ring lie one after the other.\<close>

lemma sh_cells_apart:
  assumes "length ss \<le> 65536" "2048 * length ss \<le> length tb"
  shows "cells_apart sh_addr (ss, tb)"
proof -
  have "sh_addr i s = 2048 * i" if "i < length ss" for i s
    using that assms(1) by (simp add: sh_addr_def NETFRONT_BUF_of_nat)
  then show ?thesis
    unfolding cells_apart_def using assms(2) by (auto simp: BUF_SIZE_def)
qed

lemma link_ready:
  assumes "fresh_ring r" "fp_tx_rings p = r" "fp_stat p = init_csb r" "2048 * length (r_slots r) \<le> length tb"
    and "nkr_num_slots tk = num_slots r" "nr_hwcur tk = r_cur r" "tx_irq \<noteq> 0" "rx_irq \<noteq> 0"
    and "vw_guest_need_rxkick w \<noteq> 0"
  shows "round_ready ((front_link p nm)\<lparr>ni_tx_bufs := tb\<rparr>, back_link w tx_irq rx_irq tk rk)"
proof -
  have r: "wf_ring r" "num_slots r \<le> 0x10000" "2 \<le> length (r_slots r)" "r_cur r \<noteq> r_tail r"
    "\<forall>s \<in> set (r_slots r). unat (s_len s) \<le> BUF_SIZE" "length (r_slots r) \<le> 65536" "r_cur r < num_slots r"
    using assms(1) by (auto simp: fresh_ring_def wf_ring_def word_le_nat_alt)
  have "r_cur r < 0x10000" using r(2,7) by (rule order.strict_trans2 [rotated])
  then have cur: "ucast (ucast (r_cur r) :: u16) = r_cur r" by (rule ucast_u16_u32)
  show ?thesis
    using r(1-5,7) sh_cells_apart [OF r(6) assms(4)] assms(5-9) cur
    by (simp add: round_ready_def front_link_def back_link_def assms(2,3) wf_tx_def tx_cells_def
        lens_ok_def tx_in_sync_def init_csb_def back_up_def)
qed

lemma link_quiet:
  assumes "fp_stat p = init_csb r" "tx_irq \<noteq> 0" "rx_irq \<noteq> 0"
    and "w = \<lparr>vw_guest_need_rxkick = 1, vw_guest_need_txkick = 0\<rparr>"
  shows "pinit (quiet_link (front_link p nm) (back_link w tx_irq rx_irq tk rk))"
  using assms by (simp add: pinit_def quiet_link_def front_link_def back_link_def init_csb_def)

lemma reg_of_map:
  assumes "c_not (bi_flags b) AND IFF_UP = 0" "xenvif_netmap_map X lut T b = Some b1"
  obtains b' where "xenvif_netmap_reg X lut T IFF_UP True b 1 = Some (0, b')"
    "bi_vwna b' = Some \<lparr>vw_guest_need_rxkick = 1, vw_guest_need_txkick = 0\<rparr>"
    "\<forall>M S. front_meets M S b' = front_meets M S b1" "bi_grants b' = bi_grants b1"
  using assms by (simp add: xenvif_netmap_reg_def front_meets_def note_log_def)

text \<open>After the whole set-up both sides find the buffers of both rings at the same bytes.\<close>

lemma set_up_links:
  assumes "xen_ok X" "back_ready X lut b" "pages_ok X" "placed lut (bi_tx_ring b) ta" "placed lut (bi_rx_ring b) ra"
    and "fst (xs_start T) = 0" "\<forall>k. xs_printf T k = 0" "xs_end T (snd (xs_start T)) False = 0"
    and "length (ring_pages X (bi_tx_va b) (length (r_slots (bi_tx_ring b)))) < 100"
    and "length (ring_pages X (bi_rx_va b) (length (r_slots (bi_rx_ring b)))) < 100"
    and "\<forall>k. map_ok (M k) \<and> M_PAGE_SIZE (M k) = 4096"
    and "\<forall>node. xb_printf Y 0 node = 0" "xb_end Y 0 False = 0"
    and "c_not (bi_flags b) AND IFF_UP = 0"
  obtains b' where "xenvif_netmap_reg X lut T IFF_UP True b 1 = Some (0, b')"
    "bi_vwna b' = Some \<lparr>vw_guest_need_rxkick = 1, vw_guest_need_txkick = 0\<rparr>"
    "\<forall>S. front_meets M S b' \<longrightarrow> (\<exists>p r r'. setup_netfront_netmap M S Y = Some (Setup_done p)
       \<and> fp_tx_rings p = r \<and> fp_rx_rings p = r' \<and> fp_stat p = init_csb r
       \<and> same_slots (bi_tx_ring b) r \<and> same_slots (bi_rx_ring b) r'
       \<and> linked X lut (bi_domid b) (bi_grants b') (fp_txd p) ta (map s_buf_idx (r_slots (bi_tx_ring b)))
       \<and> linked X lut (bi_domid b) (bi_grants b') (fp_rxd p) ra (map s_buf_idx (r_slots (bi_rx_ring b))))"
proof -
  have "\<forall>n. n \<le> length (m_vmalloc_ref (M 0) n)" using assms(11) by (simp add: map_ok_def)
  then obtain b1 where b1: "xenvif_netmap_map X lut T b = Some b1"
    by (rule registered [OF assms(1,2) _ assms(6-10)])
  obtain b' where b': "xenvif_netmap_reg X lut T IFF_UP True b 1 = Some (0, b')"
    "bi_vwna b' = Some \<lparr>vw_guest_need_rxkick = 1, vw_guest_need_txkick = 0\<rparr>"
    "\<forall>M S. front_meets M S b' = front_meets M S b1" "bi_grants b' = bi_grants b1"
    by (rule reg_of_map [OF assms(14) b1])
  have len: "length (r_slots (bi_tx_ring b)) \<le> 65536" "length (r_slots (bi_rx_ring b)) \<le> 65536"
    using assms(2) by (simp_all add: back_ready_def shareable_def Let_def)
  have "\<exists>p r r'. setup_netfront_netmap M S Y = Some (Setup_done p)
       \<and> fp_tx_rings p = r \<and> fp_rx_rings p = r' \<and> fp_stat p = init_csb r
       \<and> same_slots (bi_tx_ring b) r \<and> same_slots (bi_rx_ring b) r'
       \<and> linked X lut (bi_domid b) (bi_grants b') (fp_txd p) ta (map s_buf_idx (r_slots (bi_tx_ring b)))
       \<and> linked X lut (bi_domid b) (bi_grants b') (fp_rxd p) ra (map s_buf_idx (r_slots (bi_rx_ring b)))"
    if "front_meets M S b'" for S
  proof -
    have meets: "front_meets M S b1" using that b'(3) by simp
    obtain p where p: "setup_netfront_netmap M S Y = Some (Setup_done p)"
      "bufs_located X lut (r_slots (bi_tx_ring b)) (bi_domid b) (bi_grants b1) (fp_txd p)"
      "bufs_located X lut (r_slots (bi_rx_ring b)) (bi_domid b) (bi_grants b1) (fp_rxd p)"
      "fp_tx_rings p = bi_tx_ring b1" "fp_rx_rings p = bi_rx_ring b1" "fp_stat p = init_csb (bi_tx_ring b1)"
      using front_set_up [OF assms(1-13) b1 meets] by blast
    show ?thesis
      using p map_shape [OF b1] located_linked [OF assms(3) p(2) assms(4) len(1)]
        located_linked [OF assms(3) p(3) assms(5) len(2)]
      by (intro exI [of _ p]) (simp add: b'(4))
  qed
  then show thesis using that [OF b'(1,2)] by blast
qed

text \<open>C2: After the whole set-up packets flow: if the set-up goes through as in the handshake and the
  transmit ring of the back end has room, then after the registration of the port and the set-up
  of the front end the flags of both sides are those from which the exchange of notifications
  starts, and any number of packets transmitted one by one, each with its kick, is handed to the
  bridge in order and byte for byte, whatever the memory held before: the front end stores each
  packet at the addresses of its mapping, and the bridge reads it, in the one memory of the
  machine, at the addresses that its lookup table gives for the slots.\<close>
theorem traffic_after_set_up:
  assumes "xen_ok X" "back_ready X lut b" "pages_ok X" "placed lut (bi_tx_ring b) ta" "placed lut (bi_rx_ring b) ra"
    and "fst (xs_start T) = 0" "\<forall>k. xs_printf T k = 0" "xs_end T (snd (xs_start T)) False = 0"
    and "length (ring_pages X (bi_tx_va b) (length (r_slots (bi_tx_ring b)))) < 100"
    and "length (ring_pages X (bi_rx_va b) (length (r_slots (bi_rx_ring b)))) < 100"
    and "\<forall>k. map_ok (M k) \<and> M_PAGE_SIZE (M k) = 4096"
    and "\<forall>node. xb_printf Y 0 node = 0" "xb_end Y 0 False = 0"
    and "c_not (bi_flags b) AND IFF_UP = 0" "fresh_ring (bi_tx_ring b)"
    and "nkr_num_slots tk = num_slots (bi_tx_ring b)" "nr_hwcur tk = r_cur (bi_tx_ring b)"
    and "tx_irq \<noteq> 0" "rx_irq \<noteq> 0" "api_ok A" "sync_ok B" "\<forall>p \<in> set ps. length p \<le> 2048"
  shows "\<exists>b' w. xenvif_netmap_reg X lut T IFF_UP True b 1 = Some (0, b') \<and> bi_vwna b' = Some w
     \<and> (\<forall>S. front_meets M S b' \<longrightarrow>
          (\<exists>p np' vif' mem'. setup_netfront_netmap M S Y = Some (Setup_done p)
             \<and> pinit (quiet_link (front_link p nm) (back_link w tx_irq rx_irq tk rk))
             \<and> mem_rounds A B X lut (bi_domid b) (bi_grants b') (fp_txd p) ps
                 (front_link p nm, back_link w tx_irq rx_irq tk rk, mem) = Some (map Some ps, np', vif', mem')
             \<and> v_events vif' = replicate (length ps) (Notify_front Tx_irq)))"
proof -
  let ?w = "\<lparr>vw_guest_need_rxkick = 1, vw_guest_need_txkick = 0\<rparr> :: netmap_vpwrap_adapter"
  obtain b' where b': "xenvif_netmap_reg X lut T IFF_UP True b 1 = Some (0, b')" "bi_vwna b' = Some ?w"
    and up: "\<forall>S. front_meets M S b' \<longrightarrow> (\<exists>p r r'. setup_netfront_netmap M S Y = Some (Setup_done p)
       \<and> fp_tx_rings p = r \<and> fp_rx_rings p = r' \<and> fp_stat p = init_csb r
       \<and> same_slots (bi_tx_ring b) r \<and> same_slots (bi_rx_ring b) r'
       \<and> linked X lut (bi_domid b) (bi_grants b') (fp_txd p) ta (map s_buf_idx (r_slots (bi_tx_ring b)))
       \<and> linked X lut (bi_domid b) (bi_grants b') (fp_rxd p) ra (map s_buf_idx (r_slots (bi_rx_ring b))))"
    by (rule set_up_links [OF assms(1-14)])
  have "\<exists>p np' vif' mem'. setup_netfront_netmap M S Y = Some (Setup_done p)
             \<and> pinit (quiet_link (front_link p nm) (back_link ?w tx_irq rx_irq tk rk))
             \<and> mem_rounds A B X lut (bi_domid b) (bi_grants b') (fp_txd p) ps
                 (front_link p nm, back_link ?w tx_irq rx_irq tk rk, mem) = Some (map Some ps, np', vif', mem')
             \<and> v_events vif' = replicate (length ps) (Notify_front Tx_irq)"
    if "front_meets M S b'" for S
  proof -
    note meets = that
    obtain p r where p: "setup_netfront_netmap M S Y = Some (Setup_done p)" "fp_tx_rings p = r" "fp_stat p = init_csb r"
      and same: "same_slots (bi_tx_ring b) r"
      and l: "linked X lut (bi_domid b) (bi_grants b') (fp_txd p) ta (map s_buf_idx (r_slots (bi_tx_ring b)))"
      using up meets by blast
    note eq = same_slotsD [OF same]
    let ?np = "front_link p nm" and ?v = "back_link ?w tx_irq rx_irq tk rk"
    have ring: "ni_tx_rings ?np = r" by (simp add: front_link_def p(2))
    have l': "linked X lut (bi_domid b) (bi_grants b') (fp_txd p) ta (map s_buf_idx (r_slots (ni_tx_rings ?np)))"
      using l by (simp add: ring eq(6))
    obtain bufs where bufs: "front_area (bi_domid b) (bi_grants b') (fp_txd p) (length (r_slots (ni_tx_rings ?np))) mem = Some bufs"
      "length bufs = 2048 * length (r_slots r)"
      using front_area_eq [OF l', of mem] by (simp add: ring)
    have "round_ready (?np\<lparr>ni_tx_bufs := bufs\<rparr>, ?v)"
      by (rule link_ready [OF fresh_ring_same [OF assms(15) same] p(2,3)]) (use bufs(2) assms(16-19) eq in simp_all)
    then have "mem_ready X lut (bi_domid b) (bi_grants b') (fp_txd p) ta (?np, ?v, mem)"
      using l' bufs(1) by (simp add: mem_ready_def)
    moreover have "v_events ?v = []" by (simp add: back_link_def)
    ultimately show ?thesis
      using mem_rounds_deliver [OF assms(20,21) _ assms(22)] p(1) link_quiet [OF p(3) assms(18,19) refl] by fastforce
  qed
  then show ?thesis using b' by blast
qed

lemma sample_fresh: "fresh_ring (bi_tx_ring sample_back4)"
  by (simp add: fresh_ring_def wf_ring_def sample_ring4_def sample_slot_at_def BUF_SIZE_def)

text \<open>The answers of the concrete instance to the writes of both sides.\<close>

definition sample_writes :: xs_api where
  "sample_writes = sample_xs ''x'' \<lparr>xs_printf := \<lambda>_. 0\<rparr>"

definition sample_events :: xb_api where
  "sample_events = \<lparr>xb_printf = \<lambda>_ _. 0, xb_end = \<lambda>_ _. 0, xb_vfree = \<lambda>_. False\<rparr>"

lemma sample_set_up:
  "placed sample_lut (bi_tx_ring sample_back4) 90112" "placed sample_lut (bi_rx_ring sample_back4) 90112"
  "fst (xs_start sample_writes) = 0" "\<forall>k. xs_printf sample_writes k = 0"
  "xs_end sample_writes (snd (xs_start sample_writes)) False = 0"
  "length (ring_pages sample_xen (bi_tx_va sample_back4) (length (r_slots (bi_tx_ring sample_back4)))) < 100"
  "length (ring_pages sample_xen (bi_rx_va sample_back4) (length (r_slots (bi_rx_ring sample_back4)))) < 100"
  "\<forall>k. map_ok (sample_maps k) \<and> M_PAGE_SIZE (sample_maps k) = 4096"
  "\<forall>node. xb_printf sample_events 0 node = 0" "xb_end sample_events 0 False = 0"
  "c_not (bi_flags sample_back4) AND 1 = 0"
proof -
  show "placed sample_lut (bi_tx_ring sample_back4) 90112" "placed sample_lut (bi_rx_ring sample_back4) 90112"
    by (simp_all add: sample_placed4)
  show "fst (xs_start sample_writes) = 0" "\<forall>k. xs_printf sample_writes k = 0"
    "xs_end sample_writes (snd (xs_start sample_writes)) False = 0"
    by (simp_all add: sample_writes_def sample_xs_def)
  show "length (ring_pages sample_xen (bi_tx_va sample_back4) (length (r_slots (bi_tx_ring sample_back4)))) < 100"
    "length (ring_pages sample_xen (bi_rx_va sample_back4) (length (r_slots (bi_rx_ring sample_back4)))) < 100"
    by (simp_all add: ring_pages_def sample_xen_def sample_ring4_def)
  show "\<forall>k. map_ok (sample_maps k) \<and> M_PAGE_SIZE (sample_maps k) = 4096"
    using sample_map_ok by (simp add: sample_maps_def map_ok_def) (simp add: sample_map_def)
  show "\<forall>node. xb_printf sample_events 0 node = 0" "xb_end sample_events 0 False = 0"
    by (simp_all add: sample_events_def)
  show "c_not (bi_flags sample_back4) AND 1 = 0" by (simp add: sample_back4_def sample_back_def c_not_def)
qed

theorem traffic_after_set_up_witness:
  "\<exists>b' w p np' vif' mem'. xenvif_netmap_reg sample_xen sample_lut sample_writes 1 True sample_back4 1 = Some (0, b')
     \<and> setup_netfront_netmap sample_maps (sample_front b') sample_events = Some (Setup_done p)
     \<and> mem_rounds sample_api sample_sync sample_xen sample_lut 1 (bi_grants b') (fp_txd p) [[5], [6, 7], [8], [9], [1]]
         (front_link p [], back_link w 3 4 (sample_kring\<lparr>nkr_num_slots := 4\<rparr>) sample_kring, \<lambda>_. 0)
       = Some ([Some [5], Some [6, 7], Some [8], Some [9], Some [1]], np', vif', mem')"
proof -
  let ?tk = "sample_kring\<lparr>nkr_num_slots := 4\<rparr>" and ?ps = "[[5], [6, 7], [8], [9], [1]] :: u8 list list"
  note s = sample_set_up
  have k: "nkr_num_slots ?tk = num_slots (bi_tx_ring sample_back4)" "nr_hwcur ?tk = r_cur (bi_tx_ring sample_back4)"
    "(3 :: u32) \<noteq> 0" "(4 :: u32) \<noteq> 0" "\<forall>p \<in> set ?ps. length p \<le> 2048"
    by (simp_all add: sample_ring4_def sample_kring_def)
  obtain b' w where b': "xenvif_netmap_reg sample_xen sample_lut sample_writes 1 True sample_back4 1 = Some (0, b')"
    and t: "\<forall>S. front_meets sample_maps S b' \<longrightarrow> (\<exists>p np' vif' mem'. setup_netfront_netmap sample_maps S sample_events = Some (Setup_done p)
       \<and> pinit (quiet_link (front_link p []) (back_link w 3 4 ?tk sample_kring))
       \<and> mem_rounds sample_api sample_sync sample_xen sample_lut (bi_domid sample_back4) (bi_grants b') (fp_txd p) ?ps
           (front_link p [], back_link w 3 4 ?tk sample_kring, \<lambda>_. 0) = Some (map Some ?ps, np', vif', mem')
       \<and> v_events vif' = replicate (length ?ps) (Notify_front Tx_irq))"
    using traffic_after_set_up [OF sample_xen_ok sample_back4_ready sample_pages_ok s(1-11) sample_fresh k(1-4)
      sample_api_ok sample_sync_ok k(5), of "[]" sample_kring "\<lambda>_. 0"] by blast
  from t sample_meets [of b'] b' show ?thesis by (simp only: list.map sample_back4_fields) blast
qed

section \<open>Reception after the set-up\<close>

text \<open>The receive kring of the port when the bridge has filled slots of the ring: lengths, flags
  and the kernel's tail may have changed, the buffers are those of the ring that was shared.\<close>

definition filled_ring :: "nring \<Rightarrow> kring \<Rightarrow> bool" where
  "filled_ring r k \<longleftrightarrow> wf_back k \<and> map s_buf_idx (r_slots (k_ring k)) = map s_buf_idx (r_slots r)
     \<and> (\<forall>s \<in> set (r_slots (k_ring k)). unat (s_len s) \<le> BUF_SIZE)"

lemma filled_wf_rx:
  assumes "filled_ring r rk" "length (r_slots r) \<le> 65536" "2048 * length (r_slots r) \<le> length bufs"
    and "unat (nkr_num_slots k) = length (r_slots (k_ring k))" "nr_hwcur k < nkr_num_slots k"
    and "nr_hwtail k < nkr_num_slots k" "wf_nm_cells A (r_slots (k_ring k), nf_mem np)"
    and "ni_rx_rings np = k_ring rk" "ni_rx_bufs np = bufs"
  shows "wf_rx A np k"
proof -
  have "length (r_slots (k_ring rk)) = length (r_slots r)"
    using assms(1) unfolding filled_ring_def by (metis length_map)
  then show ?thesis
    using assms sh_cells_apart [of "r_slots (k_ring rk)" bufs]
    by (simp add: wf_rx_def filled_ring_def wf_back_def rx_cells_def lens_ok_def)
qed

text \<open>C34: After the whole set-up packets also arrive: if the set-up goes through as in the handshake
  and the bridge has then filled slots of the receive ring, one notification announces them,
  and the receive sync after it appends to the netmap ring of the front end, in order and as
  far as there is room, byte for byte the packets that the bridge has left in the memory of the
  machine at the addresses of its lookup table, although the front end reads them through its
  mapping at addresses computed from the numbers of the slots.\<close>
theorem bridge_packets_after_set_up:
  assumes "xen_ok X" "back_ready X lut b" "pages_ok X" "placed lut (bi_tx_ring b) ta" "placed lut (bi_rx_ring b) ra"
    and "fst (xs_start T) = 0" "\<forall>k. xs_printf T k = 0" "xs_end T (snd (xs_start T)) False = 0"
    and "length (ring_pages X (bi_tx_va b) (length (r_slots (bi_tx_ring b)))) < 100"
    and "length (ring_pages X (bi_rx_va b) (length (r_slots (bi_rx_ring b)))) < 100"
    and "\<forall>k. map_ok (M k) \<and> M_PAGE_SIZE (M k) = 4096"
    and "\<forall>node. xb_printf Y 0 node = 0" "xb_end Y 0 False = 0"
    and "c_not (bi_flags b) AND IFF_UP = 0" "filled_ring (bi_rx_ring b) rk"
    and "tx_irq \<noteq> 0" "rx_irq \<noteq> 0" "api_ok A" "finalize_shows A" "lock_keeps B" "\<not> fst (b_nm_kr_tryget B rk)"
    and "n = length (r_slots (k_ring k))" "unat (nkr_num_slots k) = n" "nr_hwcur k < nkr_num_slots k"
    and "nr_hwtail k < nkr_num_slots k" "wf_nm_cells A (r_slots (k_ring k), nm)"
    and "fst (nm_rxsync_prologue A k) = head" "head < nkr_num_slots k"
    and "ring_dist n (unat (nr_hwcur k)) (unat head) \<le> ring_dist n (unat (nr_hwcur k)) (unat (nr_hwtail k))"
    and "netmap_no_pendintr A \<or> flags AND NAF_FORCE_READ A \<noteq> 0 \<or> nr_kflags k AND NKR_PENDINTR A \<noteq> 0"
    and "room = n - 1 - ring_dist n (unat (nr_hwcur k)) (unat (nr_hwtail k))"
  shows "\<exists>b' w. xenvif_netmap_reg X lut T IFF_UP True b 1 = Some (0, b') \<and> bi_vwna b' = Some w
     \<and> (\<forall>S. front_meets M S b' \<longrightarrow>
          (\<exists>p bufs vif' k' np'. setup_netfront_netmap M S Y = Some (Setup_done p)
             \<and> front_area (bi_domid b) (bi_grants b') (fp_rxd p) (length (r_slots (k_ring rk))) mem = Some bufs
             \<and> xenvif_notify A B True 1 0 NR_RX (back_link w tx_irq rx_irq tk rk) = Some (0, vif')
             \<and> v_events vif' = [Notify_front Rx_irq]
             \<and> netfront_netmap_rxsync A (netfront_rx_interrupt
                   (front_view ((front_link p nm)\<lparr>ni_rx_bufs := bufs\<rparr>) vif')) k flags = Some (0, k', np')
             \<and> received A k' (nf_mem np') =
                 drop (ring_dist n (unat (nr_hwcur k)) (unat head))
                   (received A k nm @ take room (waiting_mem X lut rk mem))))"
proof -
  let ?w = "\<lparr>vw_guest_need_rxkick = 1, vw_guest_need_txkick = 0\<rparr> :: netmap_vpwrap_adapter"
  let ?v = "back_link ?w tx_irq rx_irq tk rk" and ?N = "length (r_slots (k_ring rk))"
  obtain b' where b': "xenvif_netmap_reg X lut T IFF_UP True b 1 = Some (0, b')" "bi_vwna b' = Some ?w"
    and up: "\<forall>S. front_meets M S b' \<longrightarrow> (\<exists>p r r'. setup_netfront_netmap M S Y = Some (Setup_done p)
       \<and> fp_tx_rings p = r \<and> fp_rx_rings p = r' \<and> fp_stat p = init_csb r
       \<and> same_slots (bi_tx_ring b) r \<and> same_slots (bi_rx_ring b) r'
       \<and> linked X lut (bi_domid b) (bi_grants b') (fp_txd p) ta (map s_buf_idx (r_slots (bi_tx_ring b)))
       \<and> linked X lut (bi_domid b) (bi_grants b') (fp_rxd p) ra (map s_buf_idx (r_slots (bi_rx_ring b))))"
    by (rule set_up_links [OF assms(1-14)])
  have idx: "map s_buf_idx (r_slots (k_ring rk)) = map s_buf_idx (r_slots (bi_rx_ring b))" "wf_back rk"
    "\<forall>s \<in> set (r_slots (k_ring rk)). unat (s_len s) \<le> 2048"
    using assms(15) by (simp_all add: filled_ring_def BUF_SIZE_def)
  have N: "?N = length (r_slots (bi_rx_ring b))" using idx(1) by (rule map_eq_imp_length_eq)
  have N2: "?N \<le> 65536" "r_slots (k_ring rk) \<noteq> []"
    using assms(2) N by (auto simp: back_ready_def shareable_def Let_def)
  have v: "back_up ?v" "vw_guest_need_rxkick (v_vwna ?v) \<noteq> 0" "v_rx_kring ?v = rk" "v_events ?v = []"
    using assms(16,17) by (simp_all add: back_link_def back_up_def)
  have "\<exists>p bufs vif' k' np'. setup_netfront_netmap M S Y = Some (Setup_done p)
             \<and> front_area (bi_domid b) (bi_grants b') (fp_rxd p) ?N mem = Some bufs
             \<and> xenvif_notify A B True 1 0 NR_RX ?v = Some (0, vif') \<and> v_events vif' = [Notify_front Rx_irq]
             \<and> netfront_netmap_rxsync A (netfront_rx_interrupt
                   (front_view ((front_link p nm)\<lparr>ni_rx_bufs := bufs\<rparr>) vif')) k flags = Some (0, k', np')
             \<and> received A k' (nf_mem np') =
                 drop (ring_dist n (unat (nr_hwcur k)) (unat head))
                   (received A k nm @ take room (waiting_mem X lut rk mem))"
    if "front_meets M S b'" for S
  proof -
    note meets = that
    obtain p where p: "setup_netfront_netmap M S Y = Some (Setup_done p)"
      and l: "linked X lut (bi_domid b) (bi_grants b') (fp_rxd p) ra (map s_buf_idx (r_slots (k_ring rk)))"
      using up meets unfolding idx(1) by blast
    obtain bufs where bufs: "front_area (bi_domid b) (bi_grants b') (fp_rxd p) ?N mem = Some bufs" "length bufs = 2048 * ?N"
      using front_area_eq [OF l, of mem] by simp
    let ?np = "(front_link p nm)\<lparr>ni_rx_rings := k_ring rk, ni_rx_bufs := bufs\<rparr>"
    have np: "ni_rx_rings ?np = k_ring (v_rx_kring ?v)" "nf_carrier ?np" "nf_mem ?np = nm" "ni_rx_bufs ?np = bufs"
      by (simp_all add: v(3)) (simp_all add: front_link_def)
    have "wf_rx A ?np k"
      by (rule filled_wf_rx [OF assms(15), where bufs = bufs]) (use N N2 bufs(2) assms(22-26) np v(3) in simp_all)
    then obtain vif' k' np' where m: "xenvif_notify A B True 1 0 NR_RX ?v = Some (0, vif')"
      "v_events vif' = v_events ?v @ [Notify_front Rx_irq]"
      "netfront_netmap_rxsync A (netfront_rx_interrupt (front_view ?np vif')) k flags = Some (0, k', np')"
      "received A k' (nf_mem np') =
         drop (ring_dist n (unat (nr_hwcur k)) (unat head)) (received A k (nf_mem ?np) @ take room (waiting rk bufs))"
      using bridge_packets_move [OF assms(18-20) v(1,2) _ _ np(1) _ np(2) assms(27,28,22,29,30) refl assms(31)]
        assms(21) idx(2) unfolding v(3) np(4) by blast
    have "waiting_mem X lut rk mem = waiting rk bufs"
      by (rule waiting_in_memory [OF l bufs(1) idx(3) N2(2)])
    moreover have "front_view ?np vif' = front_view ((front_link p nm)\<lparr>ni_rx_bufs := bufs\<rparr>) vif'"
      by (simp add: front_view_def)
    ultimately show ?thesis using p bufs(1) m unfolding v(4) np(3) by auto
  qed
  then show ?thesis using b' by blast
qed

text \<open>The bridge has filled the first slot of the receive ring with two bytes.\<close>

definition filled_kring :: kring where
  "filled_kring = sample_kring\<lparr>nkr_num_slots := 4, nr_hwtail := 1,
     k_ring := sample_ring4\<lparr>r_tail := 0,
       r_slots := [(sample_slot_at 4)\<lparr>s_len := 2\<rparr>, sample_slot_at 5, sample_slot_at 6, sample_slot_at 7]\<rparr>\<rparr>"

definition filled_memory :: memory where
  "filled_memory = (\<lambda>(mfn, offset). of_nat (offset + 7))"

lemma filled_sample: "filled_ring (bi_rx_ring sample_back4) filled_kring"
  by (simp add: filled_ring_def wf_back_def wf_ring_def filled_kring_def sample_ring4_def sample_slot_at_def
      sample_kring_def BUF_SIZE_def)

lemma load_two: "load_at loc mem a 2 = do { l \<leftarrow> loc a; m \<leftarrow> loc (Suc a); Some [mem l, mem m] }"
  by (simp add: numeral_2_eq_2 split: Option.bind_splits)

lemma filled_waiting: "waiting_mem sample_xen sample_lut filled_kring filled_memory = [Some [7, 8]]"
  by (simp add: waiting_mem_def filled_kring_def filled_memory_def sample_ring4_def sample_slot_at_def sample_kring_def
      ring_dist_def ring_seq_def ring_add_def back_cell_def load_two back_byte_def arr_get_def sample_xen_def sample_lut_def Let_def)

theorem bridge_packets_after_set_up_witness:
  "\<exists>b' w p bufs vif' k' np'. xenvif_netmap_reg sample_xen sample_lut sample_writes 1 True sample_back4 1 = Some (0, b')
     \<and> setup_netfront_netmap sample_maps (sample_front b') sample_events = Some (Setup_done p)
     \<and> front_area 1 (bi_grants b') (fp_rxd p) 4 filled_memory = Some bufs
     \<and> xenvif_notify sample_api sample_bridge True 1 0 NR_RX (back_link w 3 4 sample_kring filled_kring) = Some (0, vif')
     \<and> netfront_netmap_rxsync sample_api (netfront_rx_interrupt
           (front_view ((front_link p (nf_mem sample_info))\<lparr>ni_rx_bufs := bufs\<rparr>) vif')) sample_kring 0 = Some (0, k', np')
     \<and> received sample_api k' (nf_mem np') = [Some [7, 8]]"
proof -
  note s = sample_set_up
  have a: "finalize_shows sample_api" "lock_keeps sample_bridge" "\<not> fst (b_nm_kr_tryget sample_bridge filled_kring)"
    by (simp_all add: finalize_shows_def sample_api_def lock_keeps_def sample_bridge_def kring_same_def
        filled_kring_def sample_kring_def)
  have k: "3 = length (r_slots (k_ring sample_kring))" "unat (nkr_num_slots sample_kring) = 3"
    "nr_hwcur sample_kring < nkr_num_slots sample_kring" "nr_hwtail sample_kring < nkr_num_slots sample_kring"
    "wf_nm_cells sample_api (r_slots (k_ring sample_kring), nf_mem sample_info)"
    "fst (nm_rxsync_prologue sample_api sample_kring) = 0" "(0 :: u32) < nkr_num_slots sample_kring"
    "ring_dist 3 (unat (nr_hwcur sample_kring)) (unat (0 :: u32))
       \<le> ring_dist 3 (unat (nr_hwcur sample_kring)) (unat (nr_hwtail sample_kring))"
    using sample_wf_rx unfolding wf_rx_def by (simp_all add: sample_defs ring_dist_def) (simp add: sample_api_def)
  have irq: "(3 :: u32) \<noteq> 0" "(4 :: u32) \<noteq> 0" "netmap_no_pendintr sample_api" by (simp_all add: sample_api_def)
  have r: "received sample_api sample_kring (nf_mem sample_info) = []" "length (r_slots (k_ring filled_kring)) = 4"
    "ring_dist 3 (unat (nr_hwcur sample_kring)) (unat (0 :: u32)) = 0"
    "ring_dist 3 (unat (nr_hwcur sample_kring)) (unat (nr_hwtail sample_kring)) = 0"
    by (simp_all add: received_def sample_defs ring_dist_def filled_kring_def Let_def)
  note arrive = bridge_packets_after_set_up [OF sample_xen_ok sample_back4_ready sample_pages_ok s(1-11) filled_sample
      irq(1,2) sample_api_ok a k(1-4) k(5) k(6-8) disjI1 [OF irq(3)] refl,
      where tk = sample_kring and mem = filled_memory and flags = 0]
  show ?thesis
    using arrive sample_meets unfolding r filled_waiting sample_back4_fields by fastforce
qed

end
