(* ===== verification/Ixgbe_Ring.thy ===== *)
theory Ixgbe_Ring
  imports Ring_Memory
begin

text \<open>
  The inline functions and macros of the driver header \<open>LINUX/ixgbe/ixgbe.h\<close> that compute
  something: the state bits of a descriptor ring, the sizes of its pages and buffers, the
  descriptors of a packet, the status bits of a received descriptor and the number of unused
  descriptors, the iteration over the rings of an interrupt vector, and the flags of a packet; the rest of the
  header declares a driver that is not in the repository. \<open>IXGBE_FCOE\<close> and the page size are
  parameters.
\<close>

datatype ixgbe_ring_state_t =
    IXGBE_TX_FDIR_INIT_DONE
  | IXGBE_TX_DETECT_HANG
  | IXGBE_HANG_CHECK_ARMED
  | IXGBE_RX_RSC_ENABLED
  | IXGBE_RX_CSUM_UDP_ZERO_ERR
  | IXGBE_RX_FCOE

fun state_bit :: "ixgbe_ring_state_t \<Rightarrow> nat" where
  "state_bit IXGBE_TX_FDIR_INIT_DONE = 0"
| "state_bit IXGBE_TX_DETECT_HANG = 1"
| "state_bit IXGBE_HANG_CHECK_ARMED = 2"
| "state_bit IXGBE_RX_RSC_ENABLED = 3"
| "state_bit IXGBE_RX_CSUM_UDP_ZERO_ERR = 4"
| "state_bit IXGBE_RX_FCOE = 5"

record ixgbe_queue_stats =
  qs_packets :: u64
  qs_bytes :: u64

record ixgbe_tx_queue_stats =
  ts_restart_queue :: u64
  ts_tx_busy :: u64
  ts_tx_done_old :: u64

record ixgbe_rx_queue_stats =
  rs_rsc_count :: u64
  rs_rsc_flush :: u64
  rs_non_eop_descs :: u64
  rs_alloc_rx_page_failed :: u64
  rs_alloc_rx_buff_failed :: u64
  rs_csum_err :: u64

datatype ring_stats = Tx_stats ixgbe_tx_queue_stats | Rx_stats ixgbe_rx_queue_stats

text \<open>Pointers and bus addresses are 64-bit words; the two pointers to buffer records share
  one word, and \<open>next_to_alloc\<close> shares its 16 bits with the two octets \<open>atr_sample_rate\<close> and
  \<open>atr_count\<close>. The lock of the statistics is left out.\<close>

record ixgbe_ring =
  xr_next :: u64
  xr_q_vector :: u64
  xr_netdev :: u64
  xr_dev :: u64
  xr_desc :: u64
  xr_buffer_info :: u64
  xr_state :: u64
  xr_tail :: u64
  xr_dma :: u64
  xr_size :: u32
  xr_count :: u16
  xr_queue_index :: u8
  xr_reg_idx :: u8
  xr_next_to_use :: u16
  xr_next_to_clean :: u16
  xr_next_to_alloc :: u16
  xr_dcb_tc :: u8
  xr_stats :: ixgbe_queue_stats
  xr_dir_stats :: ring_stats

text \<open>\<open>test_bit\<close>, \<open>set_bit\<close> and \<open>clear_bit\<close> of the kernel on the word of the ring.\<close>

definition test_state :: "ixgbe_ring_state_t \<Rightarrow> ixgbe_ring \<Rightarrow> bool" where
  "test_state b ring = bit (xr_state ring) (state_bit b)"

definition set_state :: "ixgbe_ring_state_t \<Rightarrow> ixgbe_ring \<Rightarrow> ixgbe_ring" where
  "set_state b ring = ring\<lparr>xr_state := set_bit (state_bit b) (xr_state ring)\<rparr>"

definition clear_state :: "ixgbe_ring_state_t \<Rightarrow> ixgbe_ring \<Rightarrow> ixgbe_ring" where
  "clear_state b ring = ring\<lparr>xr_state := unset_bit (state_bit b) (xr_state ring)\<rparr>"

definition check_for_tx_hang :: "ixgbe_ring \<Rightarrow> bool" where
  "check_for_tx_hang = test_state IXGBE_TX_DETECT_HANG"

definition set_check_for_tx_hang :: "ixgbe_ring \<Rightarrow> ixgbe_ring" where
  "set_check_for_tx_hang = set_state IXGBE_TX_DETECT_HANG"

definition clear_check_for_tx_hang :: "ixgbe_ring \<Rightarrow> ixgbe_ring" where
  "clear_check_for_tx_hang = clear_state IXGBE_TX_DETECT_HANG"

definition ring_is_rsc_enabled :: "ixgbe_ring \<Rightarrow> bool" where
  "ring_is_rsc_enabled = test_state IXGBE_RX_RSC_ENABLED"

definition set_ring_rsc_enabled :: "ixgbe_ring \<Rightarrow> ixgbe_ring" where
  "set_ring_rsc_enabled = set_state IXGBE_RX_RSC_ENABLED"

definition clear_ring_rsc_enabled :: "ixgbe_ring \<Rightarrow> ixgbe_ring" where
  "clear_ring_rsc_enabled = clear_state IXGBE_RX_RSC_ENABLED"

definition IXGBE_MAX_DATA_PER_TXD :: nat where "IXGBE_MAX_DATA_PER_TXD = 2 ^ 14"

definition TXD_USE_COUNT :: "nat \<Rightarrow> nat" where
  "TXD_USE_COUNT s = (s + IXGBE_MAX_DATA_PER_TXD - 1) div IXGBE_MAX_DATA_PER_TXD"

definition DESC_NEEDED :: "nat \<Rightarrow> nat \<Rightarrow> nat" where
  "DESC_NEEDED max_skb_frags page_size = max_skb_frags * TXD_USE_COUNT page_size + 4"

definition ixgbe_rx_pg_order :: "bool \<Rightarrow> nat \<Rightarrow> ixgbe_ring \<Rightarrow> nat" where
  "ixgbe_rx_pg_order fcoe page_size ring =
     (if fcoe \<and> page_size < 8192 then (if test_state IXGBE_RX_FCOE ring then 1 else 0) else 0)"

definition ixgbe_rx_pg_size :: "bool \<Rightarrow> nat \<Rightarrow> ixgbe_ring \<Rightarrow> nat" where
  "ixgbe_rx_pg_size fcoe page_size ring = push_bit (ixgbe_rx_pg_order fcoe page_size ring) page_size"

definition ixgbe_rx_bufsz :: "bool \<Rightarrow> nat \<Rightarrow> ixgbe_ring \<Rightarrow> nat" where
  "ixgbe_rx_bufsz fcoe page_size ring = push_bit (ixgbe_rx_pg_order fcoe page_size ring) (page_size div 2)"

text \<open>The host is little-endian.\<close>

definition ixgbe_test_staterr :: "u32 \<Rightarrow> u32 \<Rightarrow> u32" where
  "ixgbe_test_staterr status_error stat_err_bits = status_error AND stat_err_bits"

text \<open>The sum is taken over \<open>int\<close> and cut to 16 bits.\<close>

definition ixgbe_desc_unused :: "ixgbe_ring \<Rightarrow> u16" where
  "ixgbe_desc_unused ring =
     (let ntc = uint (xr_next_to_clean ring); ntu = uint (xr_next_to_use ring)
      in of_int ((if ntc > ntu then 0 else uint (xr_count ring)) + ntc - ntu - 1))"

definition txring_txq :: "(u8 \<Rightarrow> 'q) \<Rightarrow> ixgbe_ring \<Rightarrow> 'q" where
  "txring_txq netdev_get_tx_queue ring = netdev_get_tx_queue (xr_queue_index ring)"

section \<open>The rings of an interrupt vector\<close>

text \<open>The rings are a linked list in memory. The body of the loop can change the memory; the
  pointer to the next ring is read after it.\<close>

type_synonym xmem = "u64 \<Rightarrow> ixgbe_ring option"

record ixgbe_ring_container =
  rc_ring :: u64
  rc_total_bytes :: u32
  rc_total_packets :: u32
  rc_work_limit :: u16
  rc_count :: u8
  rc_itr :: u8

partial_function (option) ring_loop ::
  "(u64 \<Rightarrow> xmem \<times> 'a \<Rightarrow> (xmem \<times> 'a) option) \<Rightarrow> u64 \<Rightarrow> xmem \<times> 'a \<Rightarrow> (xmem \<times> 'a) option" where
  "ring_loop body pos s =
     (if pos = 0 then Some s
      else do {
        s \<leftarrow> body pos s;
        ring \<leftarrow> fst s pos;
        ring_loop body (xr_next ring) s
      })"

definition ixgbe_for_each_ring ::
  "(u64 \<Rightarrow> xmem \<times> 'a \<Rightarrow> (xmem \<times> 'a) option) \<Rightarrow> ixgbe_ring_container \<Rightarrow> xmem \<times> 'a \<Rightarrow> (xmem \<times> 'a) option" where
  "ixgbe_for_each_ring body head = ring_loop body (rc_ring head)"

section \<open>The flags of a packet\<close>

definition IXGBE_TX_FLAGS_CSUM :: u32 where "IXGBE_TX_FLAGS_CSUM = 1"
definition IXGBE_TX_FLAGS_HW_VLAN :: u32 where "IXGBE_TX_FLAGS_HW_VLAN = push_bit 1 1"
definition IXGBE_TX_FLAGS_SW_VLAN :: u32 where "IXGBE_TX_FLAGS_SW_VLAN = push_bit 2 1"
definition IXGBE_TX_FLAGS_TSO :: u32 where "IXGBE_TX_FLAGS_TSO = push_bit 3 1"
definition IXGBE_TX_FLAGS_IPV4 :: u32 where "IXGBE_TX_FLAGS_IPV4 = push_bit 4 1"
definition IXGBE_TX_FLAGS_FCOE :: u32 where "IXGBE_TX_FLAGS_FCOE = push_bit 5 1"
definition IXGBE_TX_FLAGS_FSO :: u32 where "IXGBE_TX_FLAGS_FSO = push_bit 6 1"
definition IXGBE_TX_FLAGS_TXSW :: u32 where "IXGBE_TX_FLAGS_TXSW = push_bit 7 1"
definition IXGBE_TX_FLAGS_TSTAMP :: u32 where "IXGBE_TX_FLAGS_TSTAMP = push_bit 8 1"
definition IXGBE_TX_FLAGS_VLAN_MASK :: u32 where "IXGBE_TX_FLAGS_VLAN_MASK = 0xffff0000"
definition IXGBE_TX_FLAGS_VLAN_PRIO_MASK :: u32 where "IXGBE_TX_FLAGS_VLAN_PRIO_MASK = 0xe0000000"
definition IXGBE_TX_FLAGS_VLAN_PRIO_SHIFT :: nat where "IXGBE_TX_FLAGS_VLAN_PRIO_SHIFT = 29"
definition IXGBE_TX_FLAGS_VLAN_SHIFT :: nat where "IXGBE_TX_FLAGS_VLAN_SHIFT = 16"

lemmas tx_flag_defs = IXGBE_TX_FLAGS_CSUM_def IXGBE_TX_FLAGS_HW_VLAN_def IXGBE_TX_FLAGS_SW_VLAN_def
  IXGBE_TX_FLAGS_TSO_def IXGBE_TX_FLAGS_IPV4_def IXGBE_TX_FLAGS_FCOE_def IXGBE_TX_FLAGS_FSO_def
  IXGBE_TX_FLAGS_TXSW_def IXGBE_TX_FLAGS_TSTAMP_def

section \<open>The adapter\<close>

text \<open>The features of the rings, by their place in the enumeration; \<open>RING_F_FCOE\<close> only exists with
  \<open>IXGBE_FCOE\<close>. Of the adapter, the fields that the macros of the header read.\<close>

datatype ixgbe_ring_f_enum = RING_F_NONE | RING_F_VMDQ | RING_F_RSS | RING_F_FDIR | RING_F_FCOE

fun ring_f_index :: "ixgbe_ring_f_enum \<Rightarrow> nat" where
  "ring_f_index RING_F_NONE = 0"
| "ring_f_index RING_F_VMDQ = 1"
| "ring_f_index RING_F_RSS = 2"
| "ring_f_index RING_F_FDIR = 3"
| "ring_f_index RING_F_FCOE = 4"

definition RING_F_ARRAY_SIZE :: "bool \<Rightarrow> nat" where
  "RING_F_ARRAY_SIZE fcoe = (if fcoe then 5 else 4)"

record ixgbe_ring_feature =
  rf_limit :: u16
  rf_indices :: u16
  rf_mask :: u16
  rf_offset :: u16

record ixgbe_adapter =
  xa_flags :: u32
  xa_ring_feature :: "ixgbe_ring_feature list"

definition IXGBE_FLAG_DCB_ENABLED :: u32 where "IXGBE_FLAG_DCB_ENABLED = push_bit 12 1"

definition VMDQ_P :: "ixgbe_adapter \<Rightarrow> int \<Rightarrow> int option" where
  "VMDQ_P adapter p = do {
     f \<leftarrow> arr_get (xa_ring_feature adapter) (ring_f_index RING_F_VMDQ);
     Some (p + uint (rf_offset f))
   }"

definition MAX_RX_PACKET_BUFFERS :: "ixgbe_adapter \<Rightarrow> int" where
  "MAX_RX_PACKET_BUFFERS adapter = (if xa_flags adapter AND IXGBE_FLAG_DCB_ENABLED \<noteq> 0 then 8 else 1)"

definition MAX_TX_PACKET_BUFFERS :: "ixgbe_adapter \<Rightarrow> int" where
  "MAX_TX_PACKET_BUFFERS = MAX_RX_PACKET_BUFFERS"

definition IXGBE_MAX_FDIR_INDICES :: nat where "IXGBE_MAX_FDIR_INDICES = 64"
definition IXGBE_MAX_FCOE_INDICES :: nat where "IXGBE_MAX_FCOE_INDICES = 8"

definition MAX_RX_QUEUES :: "bool \<Rightarrow> nat" where
  "MAX_RX_QUEUES fcoe = IXGBE_MAX_FDIR_INDICES + (if fcoe then IXGBE_MAX_FCOE_INDICES else 0)"

definition MAX_TX_QUEUES :: "bool \<Rightarrow> nat" where
  "MAX_TX_QUEUES fcoe = IXGBE_MAX_FDIR_INDICES + (if fcoe then IXGBE_MAX_FCOE_INDICES else 0)"

section \<open>Facts\<close>

lemma state_bit_less: "state_bit b < 64"
  by (cases b) simp_all

lemma state_bit_inject [simp]: "state_bit a = state_bit b \<longleftrightarrow> a = b"
  by (cases a; cases b) simp_all

lemma test_set_state: "test_state a (set_state b r) \<longleftrightarrow> a = b \<or> test_state a r"
  using state_bit_less [of a] by (auto simp: test_state_def set_state_def bit_set_bit_iff)

lemma test_clear_state: "test_state a (clear_state b r) \<longleftrightarrow> a \<noteq> b \<and> test_state a r"
  by (auto simp: test_state_def clear_state_def bit_unset_bit_iff)

lemma gap_bounds:
  assumes "t < n" "c < n" "n < (65536 :: nat)"
  shows "((if t < c then 0 else int n) + int c - int t - 1) mod 65536 = (if t < c then 0 else int n) + int c - int t - 1"
  using assms by (intro mod_pos_pos_trivial) auto

lemma gap_steps:
  assumes l: "t < n" "c < n" and u: "int u = (if t < c then 0 else int n) + int c - int t - 1"
  shows "u < n \<and> ring_add n t (u + 1) = c \<and> (\<forall>k. 1 \<le> k \<and> k \<le> u \<longrightarrow> ring_add n t k \<noteq> c)"
proof -
  have sum: "t + (u + 1) = (if t < c then c else n + c)" using u by (auto split: if_splits)
  have "ring_add n t (u + 1) = c" unfolding ring_add_def sum using l(2) by simp
  moreover have "ring_add n t k \<noteq> c" if k: "1 \<le> k" "k \<le> u" for k
  proof (cases "t + k < n")
    case True
    then show ?thesis using k sum l by (auto simp: ring_add_def split: if_splits)
  next
    case False
    have less: "t + k - n < n" using k sum l by (auto split: if_splits)
    have "n \<le> t + k" using False by simp
    then have "ring_add n t k = t + k - n"
      unfolding ring_add_def by (simp only: le_mod_geq mod_less [OF less])
    then show ?thesis using False k sum l by (auto split: if_splits)
  qed
  moreover have "u < n" using sum l by (auto split: if_splits)
  ultimately show ?thesis by blast
qed

text \<open>C30: For indices of the ring, \<open>ixgbe_desc_unused\<close> is the number of steps that the index of
  the next descriptor to use can take before the last free one: none of these steps reaches the
  next descriptor to clean, one step more does, and the 16 bits are never exceeded.\<close>
theorem desc_unused_steps:
  assumes "xr_next_to_use r < xr_count r" "xr_next_to_clean r < xr_count r"
    and "n = unat (xr_count r)" "u = unat (ixgbe_desc_unused r)"
  shows "u < n \<and> ring_add n (unat (xr_next_to_use r)) (u + 1) = unat (xr_next_to_clean r)
     \<and> (\<forall>k. 1 \<le> k \<and> k \<le> u \<longrightarrow> ring_add n (unat (xr_next_to_use r)) k \<noteq> unat (xr_next_to_clean r))"
proof -
  let ?c = "unat (xr_next_to_clean r)" and ?t = "unat (xr_next_to_use r)"
  have l: "?t < n" "?c < n" "n < 65536"
    using assms(1-3) unsigned_less [of "xr_count r"] by (simp_all add: word_less_nat_alt)
  let ?x = "(if ?t < ?c then 0 else int n) + int ?c - int ?t - 1"
  have "ixgbe_desc_unused r = of_int ?x"
    unfolding assms(3) ixgbe_desc_unused_def Let_def uint_nat of_nat_less_iff by (rule refl)
  then have "uint (ixgbe_desc_unused r) = ?x mod 2 ^ LENGTH(16)"
    by (simp only: uint_word_of_int)
  then have "int u = ?x mod 65536"
    unfolding assms(4) uint_nat by simp
  then have "int u = ?x" using gap_bounds [OF l] by simp
  then show ?thesis using l(1,2) gap_steps by blast
qed

definition sample_xring :: ixgbe_ring where
  "sample_xring = \<lparr>xr_next = 0, xr_q_vector = 0, xr_netdev = 0, xr_dev = 0, xr_desc = 0, xr_buffer_info = 0,
     xr_state = 2, xr_tail = 0, xr_dma = 0, xr_size = 128, xr_count = 8, xr_queue_index = 0, xr_reg_idx = 0,
     xr_next_to_use = 6, xr_next_to_clean = 2, xr_next_to_alloc = 0, xr_dcb_tc = 0,
     xr_stats = \<lparr>qs_packets = 0, qs_bytes = 0\<rparr>,
     xr_dir_stats = Tx_stats \<lparr>ts_restart_queue = 0, ts_tx_busy = 0, ts_tx_done_old = 0\<rparr>\<rparr>"

theorem desc_unused_steps_witness:
  "ixgbe_desc_unused sample_xring = 3 \<and> ring_add 8 6 (3 + 1) = 2"
proof -
  have u: "ixgbe_desc_unused sample_xring = 3" by (simp add: ixgbe_desc_unused_def sample_xring_def)
  have h: "xr_next_to_use sample_xring < xr_count sample_xring" "xr_next_to_clean sample_xring < xr_count sample_xring"
    "8 = unat (xr_count sample_xring)" "3 = unat (ixgbe_desc_unused sample_xring)"
    using u by (simp_all add: sample_xring_def)
  have "ring_add 8 (unat (xr_next_to_use sample_xring)) (3 + 1) = unat (xr_next_to_clean sample_xring)"
    using desc_unused_steps [OF h] by blast
  then show ?thesis using u by (simp add: sample_xring_def)
qed

text \<open>Lists of rings in memory, and what a loop body may not touch.\<close>

definition links :: "xmem \<Rightarrow> u64 \<Rightarrow> u64 option" where
  "links h a = map_option xr_next (h a)"

fun ring_list :: "(u64 \<Rightarrow> u64 option) \<Rightarrow> u64 \<Rightarrow> u64 list \<Rightarrow> bool" where
  "ring_list nxt p [] \<longleftrightarrow> p = 0"
| "ring_list nxt p (a # as) \<longleftrightarrow> p = a \<and> a \<noteq> 0 \<and> (\<exists>q. nxt a = Some q \<and> ring_list nxt q as)"

definition keeps_links :: "(u64 \<Rightarrow> xmem \<times> 'a \<Rightarrow> (xmem \<times> 'a) option) \<Rightarrow> u64 list \<Rightarrow> (u64 \<Rightarrow> u64 option) \<Rightarrow> bool" where
  "keeps_links body as nxt \<longleftrightarrow>
     (\<forall>a \<in> set as. \<forall>h x. links h = nxt \<longrightarrow> (\<exists>h' x'. body a (h, x) = Some (h', x') \<and> links h' = nxt))"

lemma ring_loop_list:
  "ring_list nxt p as \<Longrightarrow> keeps_links body as nxt \<Longrightarrow> links h = nxt \<Longrightarrow>
   \<exists>h' x'. ring_loop body p (h, x) = Some (h', x') \<and> run_all (\<lambda>s a. body a s) (h, x) as = Some (h', x')
     \<and> links h' = nxt"
proof (induction as arbitrary: p h x)
  case Nil
  then show ?case by (simp add: ring_loop.simps)
next
  case (Cons a as)
  obtain q where p: "p = a" "a \<noteq> 0" "nxt a = Some q" "ring_list nxt q as"
    using Cons.prems(1) by auto
  obtain h1 x1 where b: "body a (h, x) = Some (h1, x1)" "links h1 = nxt"
    using Cons.prems(2,3) unfolding keeps_links_def by (metis list.set_intros(1))
  obtain r where r: "h1 a = Some r" "xr_next r = q"
    using p(3) unfolding b(2) [symmetric] links_def by auto
  have "keeps_links body as nxt" using Cons.prems(2) by (simp add: keeps_links_def)
  from Cons.IH [OF p(4) this b(2), of x1] show ?case
    using p(1,2) b(1) r by (subst ring_loop.simps) simp
qed

text \<open>C29: When the rings of a container form a list in memory that ends with the null pointer and
  the body of the loop does not change how they are linked, the loop ends and runs the body
  once for each ring, in the order of the list.\<close>
theorem for_each_ring_visits:
  assumes "ring_list (links h) (rc_ring head) as" "keeps_links body as (links h)"
  shows "\<exists>h' x'. ixgbe_for_each_ring body head (h, x) = Some (h', x')
     \<and> run_all (\<lambda>s a. body a s) (h, x) as = Some (h', x') \<and> links h' = links h"
  unfolding ixgbe_for_each_ring_def by (rule ring_loop_list [OF assms refl])

text \<open>The witness clears the hang check of two linked rings and counts them.\<close>

definition clear_hang_at :: "u64 \<Rightarrow> xmem \<times> nat \<Rightarrow> (xmem \<times> nat) option" where
  "clear_hang_at a s = do {
     r \<leftarrow> fst s a;
     Some ((fst s)(a \<mapsto> clear_check_for_tx_hang r), snd s + 1)
   }"

definition two_rings :: xmem where
  "two_rings = [16 \<mapsto> sample_xring\<lparr>xr_next := 32\<rparr>, 32 \<mapsto> sample_xring]"

theorem for_each_ring_visits_witness:
  "\<exists>h'. ixgbe_for_each_ring clear_hang_at \<lparr>rc_ring = 16, rc_total_bytes = 0, rc_total_packets = 0,
       rc_work_limit = 0, rc_count = 2, rc_itr = 0\<rparr> (two_rings, 0) = Some (h', 2)
     \<and> map_option check_for_tx_hang (h' 32) = Some False"
proof -
  let ?head = "\<lparr>rc_ring = 16, rc_total_bytes = 0, rc_total_packets = 0, rc_work_limit = 0, rc_count = 2, rc_itr = 0\<rparr>"
  have l: "ring_list (links two_rings) (rc_ring ?head) [16, 32]"
    by (simp add: links_def two_rings_def sample_xring_def)
  have "\<exists>h' x'. clear_hang_at a (h, x) = Some (h', x') \<and> links h' = links two_rings"
    if "a \<in> set [16, 32]" "links h = links two_rings" for a h x
  proof -
    have "links h a \<noteq> None" using that by (auto simp: links_def two_rings_def)
    then obtain r where "h a = Some r" by (auto simp: links_def)
    then have "clear_hang_at a (h, x) = Some (h(a \<mapsto> clear_check_for_tx_hang r), x + 1)"
      "links (h(a \<mapsto> clear_check_for_tx_hang r)) = links h"
      by (auto simp: clear_hang_at_def links_def clear_check_for_tx_hang_def clear_state_def fun_eq_iff)
    then show ?thesis using that(2) by simp
  qed
  then have k: "keeps_links clear_hang_at [16, 32] (links two_rings)" unfolding keeps_links_def by blast
  obtain h' x' where h': "ixgbe_for_each_ring clear_hang_at ?head (two_rings, 0) = Some (h', x')"
    "run_all (\<lambda>s a. clear_hang_at a s) (two_rings, 0) [16, 32] = Some (h', x')"
    using for_each_ring_visits [OF l k, of 0] by blast
  then have "x' = 2" "map_option check_for_tx_hang (h' 32) = Some False"
    by (auto simp: clear_hang_at_def two_rings_def clear_check_for_tx_hang_def check_for_tx_hang_def test_clear_state)
  then show ?thesis using h'(1) by simp
qed

text \<open>A VLAN tag in the upper half of the flags is read back, its priority with it, and the
  flags below are not touched.\<close>

lemma tx_flags_low:
  "f \<in> {IXGBE_TX_FLAGS_CSUM, IXGBE_TX_FLAGS_HW_VLAN, IXGBE_TX_FLAGS_SW_VLAN, IXGBE_TX_FLAGS_TSO,
     IXGBE_TX_FLAGS_IPV4, IXGBE_TX_FLAGS_FCOE, IXGBE_TX_FLAGS_FSO, IXGBE_TX_FLAGS_TXSW, IXGBE_TX_FLAGS_TSTAMP} \<Longrightarrow>
   take_bit 16 f = f"
  by (auto simp: tx_flag_defs push_bit_eq_mult)

lemma packet_buffers: "MAX_RX_PACKET_BUFFERS adapter = (if bit (xa_flags adapter) 12 then 8 else 1)"
  by (simp add: MAX_RX_PACKET_BUFFERS_def IXGBE_FLAG_DCB_ENABLED_def bit_iff_and_push_bit_not_eq_0)

lemma vlan_mask: "IXGBE_TX_FLAGS_VLAN_MASK = push_bit 16 (mask 16)"
  by (simp add: IXGBE_TX_FLAGS_VLAN_MASK_def push_bit_eq_mult mask_eq_exp_minus_1)

lemma vlan_tag_flags:
  assumes "take_bit 16 flags = flags"
  shows "drop_bit IXGBE_TX_FLAGS_VLAN_SHIFT ((flags OR push_bit IXGBE_TX_FLAGS_VLAN_SHIFT (ucast (tag :: u16)))
           AND IXGBE_TX_FLAGS_VLAN_MASK) = ucast tag"
    "(flags OR push_bit IXGBE_TX_FLAGS_VLAN_SHIFT (ucast tag)) AND NOT IXGBE_TX_FLAGS_VLAN_MASK = flags"
proof -
  have low: "bit flags i \<Longrightarrow> i < 16" for i
    using assms by (metis bit_take_bit_iff)
  have high: "\<not> bit flags (16 + i)" for i using low [of "16 + i"] by auto
  have tag: "bit tag i \<Longrightarrow> i < 16" for i using bit_imp_le_length [of tag i] by simp
  show "drop_bit IXGBE_TX_FLAGS_VLAN_SHIFT ((flags OR push_bit IXGBE_TX_FLAGS_VLAN_SHIFT (ucast (tag :: u16)))
           AND IXGBE_TX_FLAGS_VLAN_MASK) = ucast tag"
    by (rule bit_word_eqI) (auto simp: vlan_mask IXGBE_TX_FLAGS_VLAN_SHIFT_def bit_simps high dest: tag)
  show "(flags OR push_bit IXGBE_TX_FLAGS_VLAN_SHIFT (ucast tag)) AND NOT IXGBE_TX_FLAGS_VLAN_MASK = flags"
    by (rule bit_word_eqI) (auto simp: vlan_mask IXGBE_TX_FLAGS_VLAN_SHIFT_def bit_simps dest: low)
qed

end
