(* ===== verification/Spec2Isabelle.thy ===== *)
theory Spec2Isabelle
  imports Bridge_Host Bdgfnctl Hash_Test Tx_Batch Rx_Delivery Traffic_Start Ixgbe_Ring
begin

text \<open>
  A verification library for xennet, the netmap network drivers for Xen: a front end and a
  back end that share netmap rings (\<open>LINUX/\<close>), and bridge modules that give the VALE switch
  of the host a forwarding function of their own, with their control tool (\<open>bdgfn/\<close>).

  The parts of the program and their theories.

  \<open>Xn_Prelude\<close>: the C types and memory loads shared by all parts (little-endian loads,
  array accesses that fault out of range, decimal printing, \<open>snprintf\<close>, runs of a step over
  a list, and the collections \<open>c_loads\<close> and \<open>slot_facts\<close> of rewrite rules).

  Bridge modules. \<open>Hashes\<close> holds the Jenkins hash of \<open>bdgfn_kern.h\<close> and the hashes of
  \<open>hashtest.c\<close> and \<open>ip-static.c\<close>; \<open>Slot_Table\<close> is the interface of a table of slots (locale
  \<open>slot_table\<close>: what a lookup finds after stores). \<open>Bdgreq\<close> is \<open>struct bdgreq\<close> of
  \<open>bdgfn_user.h\<close> with the \<open>ioctl\<close> numbers and \<open>bdgfnreg\<close>. \<open>Learning\<close> holds \<open>bdg_learning\<close> of
  \<open>bdgfn_kern.h\<close> and \<open>learn.c\<close> with the locale \<open>mac_learner\<close>, of which both are instances.
  \<open>Mac_Static\<close> is \<open>mac-static.c\<close>, \<open>Ip_Static\<close> is \<open>ip-static.c\<close>: routing tables as lists of
  records, one definition for the lookup, each control request, loading and unloading; both
  interpret \<open>slot_table\<close>. A module's state is a record of its tables and of the
  registrations it asked of netmap. \<open>Bridge_Host\<close> puts the three modules into one kernel:
  loading, unloading, the device nodes of \<open>DEFINE_BDGFN\<close>, requests through them, and frames
  given to the function in force on a bridge.

  Control. \<open>Bdgfn_User\<close> is \<open>bdgfn.c\<close>: the functions of the library over any device, with the
  locale \<open>list_device\<close> for what a device promises of its listing, interpreted by both
  modules. \<open>Bdgfnctl\<close> is \<open>bdgfnctl.c\<close>: options, command table and \<open>main\<close>; the locale
  \<open>field_syntax\<close> states that a conversion reads back what was printed, for hexadecimal and
  decimal octets. \<open>Hash_Test\<close> is \<open>hashtest.c\<close>.

  Drivers. \<open>Ring_Memory\<close> holds bytes, ring indices and the locale \<open>packet_cells\<close> (slots that
  hold packets); \<open>Netmap_If\<close> the slots, rings and krings of netmap and the parameter
  \<open>netmap_api\<close> with what is documented of it. \<open>Netfront_Rings\<close> is the packet path of
  \<open>netfront_netmap_linux.h\<close> (\<open>netfront_netmap_xmit\<close>, both syncs, both interrupts, registration
  and attach) over \<open>netmap_info\<close> and \<open>netfront_csb\<close>. \<open>Netback_Thread\<close> is that of
  \<open>netback_netmap_linux.h\<close> (\<open>xenvif_netmap_irqsched\<close>, the thread with
  \<open>xenvif_netmap_irq\<close>, both syncs, \<open>xenvif_notify\<close>, attach). \<open>Kick_Protocol\<close> runs both against
  each other as a step relation over handlers and event channels; what every step keeps is
  lifted to reachable states by the locale \<open>kept_by_steps\<close>, interpreted on both invariants.
  \<open>Kick_Progress\<close> measures what is left to do when only the handlers and the thread run.
  \<open>Tx_Delivery\<close> and \<open>Rx_Delivery\<close> follow packets through the definitions of both drivers, with
  one ring and one area of buffers for the two sides. \<open>Tx_Batch\<close> is one
  \<open>netfront_netmap_txsync\<close> over many new slots.
  \<open>Netback_Grants\<close> (\<open>xenvif_grant_ring\<close>, \<open>xenvif_revoke_ring\<close> and what they call),
  \<open>Xenbus\<close> (\<open>xenbus_write_grefs\<close> and \<open>xenbus_read_ring_grefs\<close>), \<open>Netback_Setup\<close>
  (\<open>xenvif_netmap_map\<close>, \<open>xenvif_netmap_unmap\<close>, \<open>xenvif_netmap_reg\<close>, \<open>xenvif_netmap_detach\<close>) and
  \<open>Netfront_Grants\<close> (\<open>order\<close>, \<open>gnttab_map\<close>, \<open>gnttab_unmap\<close>, \<open>xenbus_read_bufs_grefs\<close>,
  \<open>xenbus_write_evtchn\<close>, \<open>setup_netfront_netmap\<close>, \<open>xennet_netmap_disconnect\<close>) are the sharing of
  memory; \<open>Grant_Exchange\<close> and \<open>Ring_Exchange\<close> put the two sides together for the buffers and
  for the pages of a ring, and \<open>Handshake\<close> for the whole set-up. \<open>Shared_Memory\<close> is the memory of
  the machine, a byte for each frame and offset, with the two ways to it: the front end's through
  the pages it has mapped, the back end's through its own page frames and netmap's lookup table.
  \<open>Shared_Traffic\<close> runs the packet paths of \<open>Tx_Delivery\<close> and \<open>Rx_Delivery\<close> over it, and
  \<open>Traffic_Start\<close> goes on from the set-up to packets in both directions. \<open>Ixgbe_Ring\<close> holds what the
  header \<open>LINUX/ixgbe/ixgbe.h\<close> computes: descriptor rings and their flags, the iteration over
  linked rings, the flags of a packet.

  How state, errors and time appear.

  A C object is a record, an array a list; an access out of range, a null pointer and a
  \<open>BUG\<close> are \<open>None\<close>. Error numbers are \<open>int\<close> results as in the code. Machine integers are
  words of their width. Messages, interrupts and other effects that only go out are lists of
  events in the state. What lies outside the repository is a parameter: netmap's
  inline functions and sync methods (\<open>netmap_api\<close>, \<open>bridge_api\<close>), the kernel's page and grant
  functions (\<open>xen_api\<close>, \<open>map_api\<close>), XenStore (\<open>xs_api\<close>, \<open>xb_api\<close>), \<open>netmap_bdg_ctl\<close>
  (\<open>kenv\<close>) and \<open>getopt_long\<close> (\<open>ctl_env\<close>), which answers with the options it found, the permuted
  arguments and its next state. Predicates such as \<open>api_ok\<close>, \<open>xen_ok\<close> and \<open>map_ok\<close>
  state what is documented of them; each has a concrete instance (\<open>sample_api\<close>, \<open>sample_xen\<close>,
  \<open>sample_map\<close>) used by the witnesses. \<open>sync_ok\<close>, \<open>lock_keeps\<close> and \<open>finalize_shows\<close> do so for the
  bridge and for the end of a receive sync (\<open>sample_sync\<close>, \<open>sample_bridge\<close>, \<open>sample_api\<close>).
  \<open>host_env\<close> is what the bridge modules meet: which accepted registration is in force, what the
  switch itself does with the table of a bridge no module serves, and the names of device nodes
  (\<open>switch_ok\<close>, \<open>sample_host\<close>).

  What is shown.

  In \<open>Netfront_Rings\<close>, transmission and reception of the front end refine a queue of packets;
  one theorem there gives the case in which transmission loses packets, and \<open>Tx_Batch\<close> shows
  that every transmit sync of more than one packet is that case. In
  \<open>Kick_Protocol\<close>, the right to notify is never lost under any interleaving of the
  handlers, what was published is synced, and there is a run that loses a wake-up when the
  attach kicks without being asked. In \<open>Kick_Progress\<close> the handlers and the thread come to rest
  by themselves: each of their steps lowers a measure that is never above 20, and a state in
  which none of them can step has its rights to notify back. In \<open>Tx_Delivery\<close> a series of
  transmitted packets is handed to the bridge in order, and in \<open>Rx_Delivery\<close> the packets that
  the bridge delivers reach the netmap ring of the front end. In \<open>Netback_Grants\<close> and \<open>Netback_Setup\<close>, sharing and
  revoking, and switching a port on and detaching it, restore the grant table; in \<open>Xenbus\<close>
  the references arrive; in \<open>Ring_Exchange\<close> every page of a ring is mapped by the front
  end, in \<open>Grant_Exchange\<close> every buffer lies on the page where the front end looks for it, and in
  \<open>Handshake\<close> the set-up of the front end is done on what the registration of the back end left,
  with every byte of every buffer at the address the front end computes, if the buffers lie one
  after the other (\<open>placed\<close>); in \<open>Traffic_Start\<close> packets flow from there on, in both directions,
  through the memory that was granted and mapped.
  \<open>Learning\<close>, \<open>Mac_Static\<close> and \<open>Ip_Static\<close> relate the forwarding of a frame to the whole
  history of frames or requests; \<open>Bdgfn_User\<close> shows that the listing of the control library
  ends and is complete and that requests keep the tables well formed; \<open>Bdgfnctl\<close> follows a
  run of the control tool from its arguments to the forwarding of a frame. In \<open>Bridge_Host\<close> the
  kernel with all modules refines an abstract state of registrations, served requests and
  learned tables, which answers every frame, and unloading a module is shown to leave a
  function that is gone. Other theorems
  give the exact conditions of faults, the results of error paths and the bounds. The
  lemmas before them show what the loops compute, as equations with lists.

  Termination.

  Loops with a bound are functions with a measure. The loops that end only under a
  condition (\<open>list_loop\<close>, \<open>tx_send\<close>, \<open>rx_release\<close>, \<open>back_release\<close>, \<open>order_loop\<close>,
  \<open>xenbus_write_evtchn\<close>, \<open>ring_loop\<close>) are partial functions whose value is \<open>None\<close> when they do not end; the
  theorems about them show a result. The thread of the back end runs over a list of passes,
  one element for each. No fuel is used.

  Not modelled.

  \<open>LINUX/ixgbe/ixgbe.h\<close> is a copy of a header of the Linux kernel for a driver that is not in the
  repository: beyond the functions and macros in \<open>Ixgbe_Ring\<close> it declares types, constants and
  prototypes that nothing here uses. The patches, the makefiles and the hotplug script are not programs of their
  own. The module loader is represented by what the modules rely on: \<open>ip-static.c\<close> needs a symbol
  of \<open>mac-static.c\<close>, and an unloaded module's code is gone. Macros for licence, author and
  parameters only declare. Log
  messages of the kernel code are left out, except where a theorem needs them. Locks and memory
  barriers do not appear: the steps of \<open>Kick_Protocol\<close> interleave whole handlers, with
  the work of the thread cut where the code does not lock. A port has one ring in each direction.
  Access to a grant is ended for pages that the other domain no longer maps; what the kernel does
  with one that is still mapped does not appear. Storage that \<open>malloc\<close> or \<open>vmalloc\<close>
  returns is a parameter, and running out of memory is modelled only where the code reads
  the result at once.
\<close>

end
